(* ===== verification/Kernel_Prelude.thy ===== *)
theory Kernel_Prelude
  imports Main "HOL-Library.Word" "HOL-Library.Monad_Syntax"
begin

text \<open>
  Shared vocabulary of the development: the kernel's fixed-width arithmetic, its panics, and
  the generic facts on bits, counting and intervals that the component theories use.

  The kernel is built with overflow checks and with aborting panics, so every arithmetic
  overflow, out-of-range index, failed assertion and \<open>expect\<close> stops the machine. A definition
  that can stop this way returns an \<open>outcome\<close>: \<open>None\<close> is the panic, \<open>Some v\<close> the value \<open>v\<close>.
  A theorem \<open>f x = Some y\<close> therefore also states that \<open>f\<close> does not panic on \<open>x\<close>.

  Unsigned machine integers are natural numbers whose width is written out in the operation
  (\<open>checked_add64\<close>, \<open>wrapping_add32\<close>, ...); the bitmap of the frame allocator, which is read
  both by bytes and by words, is kept in \<open>8 word\<close> and \<open>64 word\<close>.
\<close>

unbundle bit_operations_syntax

section \<open>Panics and machine integers\<close>

type_synonym 'a outcome = "'a option"

type_synonym u8 = "8 word"

type_synonym u64 = "64 word"

named_theorems machine \<open>unfolding rules of the fixed-width operations\<close>

abbreviation U64_MAX :: nat where
  "U64_MAX \<equiv> 18446744073709551615"

abbreviation U32_MAX :: nat where
  "U32_MAX \<equiv> 4294967295"

definition checked_add64 :: "nat \<Rightarrow> nat \<Rightarrow> nat option" where
  [machine]: "checked_add64 a b = (if a + b \<le> U64_MAX then Some (a + b) else None)"

definition add64 :: "nat \<Rightarrow> nat \<Rightarrow> nat outcome" where
  [machine]: "add64 a b = (if a + b \<le> U64_MAX then Some (a + b) else None)"

definition add32 :: "nat \<Rightarrow> nat \<Rightarrow> nat outcome" where
  [machine]: "add32 a b = (if a + b \<le> U32_MAX then Some (a + b) else None)"

definition sub_unsigned :: "nat \<Rightarrow> nat \<Rightarrow> nat outcome" where
  [machine]: "sub_unsigned a b = (if b \<le> a then Some (a - b) else None)"

definition wrapping_add64 :: "nat \<Rightarrow> nat \<Rightarrow> nat" where
  "wrapping_add64 a b = (a + b) mod 2 ^ 64"

definition wrapping_mul64 :: "nat \<Rightarrow> nat \<Rightarrow> nat" where
  "wrapping_mul64 a b = (a * b) mod 2 ^ 64"

definition saturating_mul64 :: "nat \<Rightarrow> nat \<Rightarrow> nat" where
  "saturating_mul64 a b = min (a * b) U64_MAX"

definition div_ceil :: "nat \<Rightarrow> nat \<Rightarrow> nat" where
  "div_ceil a b = (if a mod b = 0 then a div b else a div b + 1)"

definition clamp :: "nat \<Rightarrow> nat \<Rightarrow> nat \<Rightarrow> nat" where
  "clamp x lo hi = (if x < lo then lo else if x > hi then hi else x)"

definition not64 :: "nat \<Rightarrow> nat" where
  "not64 x = mask 64 XOR x"

definition count_ones64 :: "nat \<Rightarrow> nat" where
  "count_ones64 x = length (filter (bit x) [0..<64])"

definition is_power_of_two :: "nat \<Rightarrow> bool" where
  "is_power_of_two x = (count_ones64 x = 1)"

definition trailing_zeros :: "u64 \<Rightarrow> nat" where
  "trailing_zeros w = (case find (bit w) [0..<64] of Some k \<Rightarrow> k | None \<Rightarrow> 64)"

definition assert :: "bool \<Rightarrow> unit outcome" where
  "assert b = (if b then Some () else None)"

definition index_get :: "nat \<Rightarrow> (nat \<Rightarrow> 'a) \<Rightarrow> nat \<Rightarrow> 'a outcome" where
  "index_get n a i = (if i < n then Some (a i) else None)"

definition index_set :: "nat \<Rightarrow> (nat \<Rightarrow> 'a) \<Rightarrow> nat \<Rightarrow> 'a \<Rightarrow> (nat \<Rightarrow> 'a) outcome" where
  "index_set n a i v = (if i < n then Some (a(i := v)) else None)"

text \<open>
  \<open>index_get n a i\<close> and \<open>index_set n a i v\<close> are the bounds-checked accesses to a fixed array of
  \<open>n\<close> elements, kept as a function of its index: an index at or past \<open>n\<close> panics.
\<close>

section \<open>The panic monad\<close>

lemma assert_True [simp]: "assert True = Some ()"
  by (simp add: assert_def)

lemma assert_False [simp]: "assert False = None"
  by (simp add: assert_def)

lemma assert_eq_Some [simp]: "assert b = Some u \<longleftrightarrow> b"
  by (simp add: assert_def)

lemma index_get_in [simp]: "i < n \<Longrightarrow> index_get n a i = Some (a i)"
  by (simp add: index_get_def)

lemma index_get_eq_Some: "index_get n a i = Some x \<longleftrightarrow> i < n \<and> x = a i"
  by (auto simp: index_get_def)

lemma index_set_in [simp]: "i < n \<Longrightarrow> index_set n a i v = Some (a(i := v))"
  by (simp add: index_set_def)

lemma index_set_eq_Some: "index_set n a i v = Some b \<longleftrightarrow> i < n \<and> b = a(i := v)"
  by (auto simp: index_set_def)

lemma sub_unsigned_le [simp]: "b \<le> a \<Longrightarrow> sub_unsigned a b = Some (a - b)"
  by (simp add: sub_unsigned_def)

lemma sub_unsigned_eq_Some: "sub_unsigned a b = Some c \<longleftrightarrow> b \<le> a \<and> c = a - b"
  by (auto simp: sub_unsigned_def)

lemma checked_add64_eq_Some:
  "checked_add64 a b = Some c \<longleftrightarrow> a + b \<le> U64_MAX \<and> c = a + b"
  by (auto simp: checked_add64_def)

lemma checked_add64_eq_None:
  "checked_add64 a b = None \<longleftrightarrow> U64_MAX < a + b"
  by (auto simp: checked_add64_def)

lemma add64_eq_Some: "add64 a b = Some c \<longleftrightarrow> a + b \<le> U64_MAX \<and> c = a + b"
  by (auto simp: add64_def)

lemma add64_in [simp]: "a + b \<le> U64_MAX \<Longrightarrow> add64 a b = Some (a + b)"
  by (simp add: add64_def)

section \<open>Alignment\<close>

lemma bit_not64: "bit (not64 x) n \<longleftrightarrow> (n < 64) \<noteq> bit x n"
  by (simp add: not64_def bit_xor_iff bit_mask_iff)

text \<open>Clearing the low \<open>k\<close> bits of a 64-bit value rounds it down to a multiple of \<open>2 ^ k\<close>.\<close>

lemma and_not64_mask:
  assumes "v \<le> U64_MAX" and "k \<le> 64"
  shows "v AND not64 (2 ^ k - 1) = (v div 2 ^ k) * 2 ^ k"
proof -
  have v: "bit v n \<Longrightarrow> n < 64" for n
  proof (rule ccontr)
    assume "bit v n" and "\<not> n < 64"
    have "v < 2 ^ 64" using assms(1) by simp
    also have "(2::nat) ^ 64 \<le> 2 ^ n" using \<open>\<not> n < 64\<close> by (intro power_increasing) auto
    finally have "v div 2 ^ n = 0" by simp
    with \<open>bit v n\<close> show False by (simp add: bit_iff_odd)
  qed
  have "v AND not64 (mask k) = push_bit k (drop_bit k v)"
    by (rule bit_eqI)
      (use v assms(2) in \<open>auto simp: bit_and_iff bit_not64 bit_mask_iff bit_push_bit_iff bit_drop_bit_eq\<close>)
  then show ?thesis
    by (simp add: mask_eq_exp_minus_1 push_bit_eq_mult drop_bit_eq_div)
qed

lemma and_not64_4095: "v \<le> U64_MAX \<Longrightarrow> v AND not64 4095 = (v div 4096) * 4096"
  using and_not64_mask [of v 12] by simp

lemma power_of_two_exp:
  assumes "is_power_of_two x" and "x \<le> U64_MAX"
  shows "\<exists>k < 64. x = 2 ^ k"
proof -
  let ?B = "{k. k < 64 \<and> bit x k}"
  have "card ?B = 1"
  proof -
    have "length (filter (bit x) [0..<64]) = card (set (filter (bit x) [0..<64]))"
      by (rule distinct_card [symmetric]) simp
    also have "set (filter (bit x) [0..<64]) = ?B" by auto
    finally show ?thesis using assms(1) by (simp add: is_power_of_two_def count_ones64_def)
  qed
  then obtain k where k: "?B = {k}" by (auto simp: card_1_singleton_iff)
  have "take_bit 64 x = 2 ^ k"
    by (rule bit_eqI) (use k in \<open>auto simp: bit_take_bit_iff bit_exp_iff set_eq_iff\<close>)
  moreover have "take_bit 64 x = x"
    using assms(2) by (simp add: take_bit_nat_eq_self)
  moreover have "k < 64" using k by auto
  ultimately show ?thesis by auto
qed

lemma div_ceil_bounds:
  assumes "0 < b"
  shows "a \<le> div_ceil a b * b" and "div_ceil a b * b < a + b"
proof -
  define q r where "q = a div b * b" and "r = a mod b"
  have eq: "a = q + r" by (simp add: q_def r_def)
  have lt: "r < b" using assms by (simp add: r_def)
  have "div_ceil a b * b = (if r = 0 then q else q + b)"
    by (simp add: div_ceil_def q_def r_def)
  with eq lt show "a \<le> div_ceil a b * b" and "div_ceil a b * b < a + b" by auto
qed

lemma le_div_ceil_iff:
  assumes "0 < b"
  shows "div_ceil a b \<le> x \<longleftrightarrow> a \<le> x * b"
proof
  assume "div_ceil a b \<le> x"
  then have "div_ceil a b * b \<le> x * b" by (rule mult_le_mono1)
  with div_ceil_bounds(1) [OF assms] show "a \<le> x * b" by (rule order_trans)
next
  assume "a \<le> x * b"
  with div_ceil_bounds(2) [OF assms, of a] have "div_ceil a b * b < Suc x * b"
    by simp
  then have "div_ceil a b < Suc x" by (simp only: mult_less_cancel2)
  then show "div_ceil a b \<le> x" by simp
qed

lemma less_next_word: "(x::nat) < (x div 64 + 1) * 64"
  by presburger

section \<open>Trailing zeros\<close>

lemma trailing_zeros_props:
  assumes "w \<noteq> 0"
  shows "trailing_zeros w < 64" and "bit w (trailing_zeros w)"
    and "\<And>k. k < trailing_zeros w \<Longrightarrow> \<not> bit w k"
proof -
  obtain n where n: "bit w n" using assms by (auto simp: bit_eq_iff)
  then have "n < 64" using bit_imp_le_length [OF n] by simp
  with n obtain k where k: "find (bit w) [0..<64] = Some k"
    by (cases "find (bit w) [0..<64]") (auto simp: find_None_iff)
  then have tz: "trailing_zeros w = k" by (simp add: trailing_zeros_def)
  from k obtain i where i: "i < 64" "bit w k" "k = [0..<64] ! i"
    and least: "\<forall>j<i. \<not> bit w ([0..<64] ! j)"
    by (auto simp: find_Some_iff)
  from i have "k = i" by simp
  with i least tz show "trailing_zeros w < 64" and "bit w (trailing_zeros w)"
    and "\<And>k. k < trailing_zeros w \<Longrightarrow> \<not> bit w k" by auto
qed

section \<open>Counting\<close>

text \<open>The number of indices below \<open>n\<close> that satisfy a predicate.\<close>

definition count_below :: "nat \<Rightarrow> (nat \<Rightarrow> bool) \<Rightarrow> nat" where
  "count_below n P = card {i. i < n \<and> P i}"

lemma count_below_le: "count_below n P \<le> n"
proof -
  have "card {i. i < n \<and> P i} \<le> card {..<n}" by (rule card_mono) auto
  then show ?thesis by (simp add: count_below_def)
qed

lemma count_below_pos: "i < n \<Longrightarrow> P i \<Longrightarrow> 0 < count_below n P"
  by (auto simp: count_below_def card_gt_0_iff)

lemma count_below_clear:
  assumes "i < n" and "P i"
  shows "count_below n (P(i := False)) = count_below n P - 1"
proof -
  have "{j. j < n \<and> (P(i := False)) j} = {j. j < n \<and> P j} - {i}" by auto
  moreover have "card ({j. j < n \<and> P j} - {i}) = card {j. j < n \<and> P j} - 1"
    by (rule card_Diff_singleton) (use assms in auto)
  ultimately show ?thesis by (simp add: count_below_def)
qed

lemma count_below_set:
  assumes "i < n" and "\<not> P i"
  shows "count_below n (P(i := True)) = count_below n P + 1"
proof -
  have "{j. j < n \<and> (P(i := True)) j} = insert i {j. j < n \<and> P j}" using assms by auto
  then show ?thesis using assms by (simp add: count_below_def)
qed

lemma count_below_cong:
  "(\<And>i. i < n \<Longrightarrow> P i = Q i) \<Longrightarrow> count_below n P = count_below n Q"
  unfolding count_below_def by (rule arg_cong [where f = card]) auto

lemma count_below_zero: "count_below n P = 0 \<longleftrightarrow> (\<forall>i<n. \<not> P i)"
  by (auto simp: count_below_def)

section \<open>Searching an interval and reading words\<close>

lemma bit_foldr_or: "bit (foldr (OR) ws (0::u64)) b \<longleftrightarrow> (\<exists>w \<in> set ws. bit w b)"
  by (induction ws) (auto simp: bit_or_iff)

lemma frame_of_bit:
  shows "(i * 64 + b) div 8 = 8 * i + b div 8" and "(i * 64 + b) mod 8 = b mod (8::nat)"
proof -
  have eq: "i * 64 + b = b + 8 * (8 * i)" by simp
  show "(i * 64 + b) div 8 = 8 * i + b div 8" by (simp only: eq div_mult_self2)
  show "(i * 64 + b) mod 8 = b mod 8" by (simp only: eq mod_mult_self2)
qed

lemma digit8_eq:
  "p < 8 \<Longrightarrow> n < 8 \<Longrightarrow> 8 * a + p = 8 * b + n \<longleftrightarrow> a = b \<and> p = (n::nat)"
  by (cases a b rule: linorder_cases) auto

lemma bit_u8_lt: "bit (x::u8) n \<Longrightarrow> n < 8"
  using bit_imp_le_length [of x n] by simp

lemma find_upt_None: "find P [lo..<hi] = None \<longleftrightarrow> (\<forall>f. lo \<le> f \<and> f < hi \<longrightarrow> \<not> P f)"
  by (auto simp: find_None_iff)

lemma find_upt_Some:
  "find P [lo..<hi] = Some f \<longleftrightarrow> lo \<le> f \<and> f < hi \<and> P f \<and> (\<forall>g. lo \<le> g \<and> g < f \<longrightarrow> \<not> P g)"
proof
  assume "find P [lo..<hi] = Some f"
  then obtain i where i: "i < hi - lo" "P f" "f = lo + i" "\<forall>j<i. \<not> P (lo + j)"
    by (auto simp: find_Some_iff)
  have "\<not> P g" if "lo \<le> g" "g < f" for g
    using i(3,4) that by (metis add_less_cancel_left le_Suc_ex)
  with i show "lo \<le> f \<and> f < hi \<and> P f \<and> (\<forall>g. lo \<le> g \<and> g < f \<longrightarrow> \<not> P g)" by auto
next
  assume "lo \<le> f \<and> f < hi \<and> P f \<and> (\<forall>g. lo \<le> g \<and> g < f \<longrightarrow> \<not> P g)"
  then show "find P [lo..<hi] = Some f"
    by (auto simp: find_Some_iff intro!: exI [of _ "f - lo"])
qed

lemma find_upt_skip:
  assumes "lo \<le> mid" and "\<And>f. lo \<le> f \<Longrightarrow> f < mid \<Longrightarrow> f < hi \<Longrightarrow> \<not> P f"
  shows "find P [lo..<hi] = find P [mid..<hi]"
proof (cases "find P [mid..<hi]")
  case None
  then have "find P [lo..<hi] = None"
    using assms by (auto simp: find_upt_None not_le) (metis not_le)
  with None show ?thesis by simp
next
  case (Some f)
  then have "find P [lo..<hi] = Some f"
    using assms by (auto simp: find_upt_Some not_le) (metis not_le order.strict_trans)
  with Some show ?thesis by simp
qed

lemma all_ones_iff: "(w::u64) = - 1 \<longleftrightarrow> (\<forall>b<64. bit w b)"
  by (auto intro: bit_word_eqI)

lemma first_clear:
  assumes "(w::u64) \<noteq> - 1"
  shows "trailing_zeros (NOT w) < 64" and "\<not> bit w (trailing_zeros (NOT w))"
    and "\<And>b. b < trailing_zeros (NOT w) \<Longrightarrow> bit w b"
proof -
  have "NOT w \<noteq> 0"
  proof
    assume "NOT w = 0"
    then have "NOT (NOT w) = NOT 0" by simp
    with assms show False by simp
  qed
  note tz = trailing_zeros_props [OF this]
  show "trailing_zeros (NOT w) < 64" by (rule tz(1))
  with tz show "\<not> bit w (trailing_zeros (NOT w))"
    and "\<And>b. b < trailing_zeros (NOT w) \<Longrightarrow> bit w b"
    by (auto simp: bit_not_iff)
qed

lemma bit_low_mask: "n < 64 \<Longrightarrow> bit (push_bit n 1 - 1 :: u64) b \<longleftrightarrow> b < n"
  by (auto simp: bit_mask_iff simp flip: mask_eq_exp_minus_1)

lemma bit_high_mask: "b < 64 \<Longrightarrow> bit (NOT (mask n) :: u64) b \<longleftrightarrow> n \<le> b"
  by (auto simp: bit_not_iff bit_mask_iff)

lemma find_append: "find P (xs @ ys) = (case find P xs of None \<Rightarrow> find P ys | Some x \<Rightarrow> Some x)"
  by (induction xs) auto

lemma upt_append: "a \<le> b \<Longrightarrow> b \<le> c \<Longrightarrow> [a..<b] @ [b..<c] = [a..<c]"
  using upt_add_eq_append [of a b "c - b"] by simp

lemma find_upt_prefix:
  assumes "a \<le> c" and "\<And>f. a \<le> f \<Longrightarrow> \<not> P f"
  shows "find P [0..<c] = find P [0..<a]"
proof -
  have "[0..<c] = [0..<a] @ [a..<c]" using assms(1) by (simp add: upt_append)
  moreover have "find P [a..<c] = None" using assms(2) by (auto simp: find_upt_None)
  ultimately show ?thesis by (simp add: find_append split: option.splits)
qed

lemma and_63_mod: "(x::nat) AND 63 = x mod 64"
  using take_bit_eq_mask [of 6 x] by (simp add: take_bit_eq_mod mask_eq_exp_minus_1)

lemma find_cong_upt:
  assumes "\<And>f. lo \<le> f \<Longrightarrow> f < hi \<Longrightarrow> P f = (f < hi' \<and> Q f)" and "hi' \<le> hi"
  shows "find P [lo..<hi] = find Q [lo..<hi']"
proof (cases "find Q [lo..<hi']")
  case None
  then have "find P [lo..<hi] = None" using assms by (auto simp: find_upt_None)
  with None show ?thesis by simp
next
  case (Some f)
  then have "find P [lo..<hi] = Some f" using assms by (auto simp: find_upt_Some)
  with Some show ?thesis by simp
qed

end
