(* ===== verification/Numa.thy ===== *)
theory Numa
  imports Kernel_Prelude
begin

text \<open>
  The boot NUMA facts of \<open>src/Rust/platform/numa.rs\<close> and \<open>numa_decode.rs\<close> that the frame
  allocator consults: the sealed topology, the node of a frame, the ranges local to a CPU and
  the end of the range that holds a frame. The topology is written once at boot, before any
  other CPU runs, and is read-only afterwards, so the queries take it as an argument. The
  fixed arrays carry their own lengths (\<open>cpu_nodes\<close>, \<open>ranges\<close>).
\<close>

section \<open>Topology\<close>

definition MAX_NODES :: nat where
  [simp]: "MAX_NODES = 32"

datatype reason = Missing | Firmware | Invalid | Bounds | CpuMap | Known

record numa_range =
  nr_base :: nat
  nr_end :: nat
  nr_node :: nat

record topology =
  topo_reason :: reason
  node_count :: nat
  cpu_nodes :: "nat option list"
  ranges :: "numa_range list"
  range_count :: nat
  distances :: "nat \<Rightarrow> nat \<Rightarrow> nat"
  slit_valid :: bool

definition active :: "topology \<Rightarrow> bool" where
  "active t = (topo_reason t = Known \<and> 1 < node_count t)"

definition live_ranges :: "topology \<Rightarrow> numa_range list" where
  "live_ranges t = take (range_count t) (ranges t)"

definition frame_node :: "topology \<Rightarrow> nat \<Rightarrow> nat option" where
  "frame_node t frame =
     (if topo_reason t \<noteq> Known \<or> frame = 0 \<or> \<not> 4096 dvd frame then None
      else case checked_add64 frame 4096 of
        None \<Rightarrow> None
      | Some end \<Rightarrow> map_option nr_node
          (find (\<lambda>r. nr_base r \<le> frame \<and> end \<le> nr_end r) (live_ranges t)))"

definition cpu_node :: "topology \<Rightarrow> nat \<Rightarrow> nat option" where
  "cpu_node t cpu = (if cpu < length (cpu_nodes t) then cpu_nodes t ! cpu else None)"

definition key :: "topology \<Rightarrow> nat \<Rightarrow> nat \<Rightarrow> nat option" where
  "key t cpu memory_node =
     (if \<not> active t \<or> node_count t \<le> memory_node then None
      else case cpu_node t cpu of
        None \<Rightarrow> None
      | Some node \<Rightarrow> Some (if node = memory_node then 0
          else if slit_valid t then distances t node memory_node else 1))"

record local_memory =
  local_node :: nat
  local_ranges :: "numa_range list"

definition local_memory_of :: "topology \<Rightarrow> nat \<Rightarrow> local_memory option" where
  "local_memory_of t cpu =
     (if \<not> active t then None
      else case cpu_node t cpu of
        None \<Rightarrow> None
      | Some node \<Rightarrow> Some \<lparr>local_node = node, local_ranges = live_ranges t\<rparr>)"

definition numa_range_end :: "topology \<Rightarrow> nat \<Rightarrow> nat option" where
  "numa_range_end t frame =
     (case frame_node t frame of
        None \<Rightarrow> None
      | Some _ \<Rightarrow> map_option nr_end
          (find (\<lambda>r. nr_base r \<le> frame \<and> frame < nr_end r) (live_ranges t)))"

section \<open>Facts\<close>

lemma numa_range_end_holds:
  assumes "numa_range_end t frame = Some e"
  shows "\<exists>r \<in> set (live_ranges t). nr_base r \<le> frame \<and> frame < nr_end r \<and> e = nr_end r"
  using assms by (auto simp: numa_range_end_def find_Some_iff split: option.splits)

lemma numa_range_end_gt: "numa_range_end t frame = Some e \<Longrightarrow> frame < e"
  by (auto dest: numa_range_end_holds)

end
