(* ===== verification/Page_Policy.thy ===== *)
theory Page_Policy
  imports Kernel_Prelude
begin

text \<open>
  The small value-only policies of the memory code: the contiguous-extent prefix and the leaf
  translation of \<open>src/Rust/memory/page_batch.rs\<close>, the heap growth policy of \<open>heap_policy.rs\<close> and the
  owner order of \<open>owner_policy.rs\<close>. A translation is accumulated from leaves, each an address and the
  bytes that remain in its page; it succeeds only when the leaves are physically contiguous.
\<close>

section \<open>Extents and translation (page_batch)\<close>

definition MAX_EXTENT_PAGES :: nat where
  [simp]: "MAX_EXTENT_PAGES = 64"

definition MAX_TRANSLATION_BYTES :: nat where
  "MAX_TRANSLATION_BYTES = 256 * 1024 * 1024"

record translation =
  virtual_base :: nat
  tr_bytes :: nat
  consumed :: nat
  physical :: nat
  physical_present :: bool

definition translation_new :: "nat \<Rightarrow> nat \<Rightarrow> translation option" where
  "translation_new base bytes =
     (if bytes = 0 \<or> MAX_TRANSLATION_BYTES < bytes \<or> checked_add64 base (bytes - 1) = None then None
      else Some \<lparr>virtual_base = base, tr_bytes = bytes, consumed = 0, physical = 0, physical_present = False\<rparr>)"

definition translation_accept :: "translation \<Rightarrow> nat \<Rightarrow> nat \<Rightarrow> (bool \<times> translation) outcome" where
  "translation_accept t address remaining =
     (if tr_bytes t \<le> consumed t \<or> remaining = 0 then Some (False, t)
      else
        let count = min (tr_bytes t - consumed t) remaining in
        if checked_add64 address (count - 1) = None then Some (False, t)
        else if physical_present t \<and> checked_add64 (physical t) (consumed t) \<noteq> Some address then Some (False, t)
        else do {
          let t1 = (if physical_present t then t else t\<lparr>physical := address, physical_present := True\<rparr>);
          c \<leftarrow> add64 (consumed t1) count;
          Some (True, t1\<lparr>consumed := c\<rparr>)
        })"

definition translation_result :: "translation \<Rightarrow> nat option" where
  "translation_result t = (if consumed t = tr_bytes t \<and> physical_present t then Some (physical t) else None)"

definition page_batch_bound :: "nat \<Rightarrow> nat" where
  "page_batch_bound remaining = min remaining MAX_EXTENT_PAGES"

function page_batch_loop :: "nat list \<Rightarrow> nat \<Rightarrow> nat \<Rightarrow> nat" where
  "page_batch_loop frames page prefix =
     (if prefix < length frames then
        if frames ! prefix \<noteq> wrapping_add64 (frames ! 0) (wrapping_mul64 prefix page) then prefix
        else page_batch_loop frames page (prefix + 1)
      else prefix)"
  by pat_completeness auto

termination
  by (relation "measure (\<lambda>(frames, page, prefix). length frames - prefix)") auto

declare page_batch_loop.simps [simp del]

definition page_batch_prefix :: "nat list \<Rightarrow> nat \<Rightarrow> nat" where
  "page_batch_prefix frames page =
     (if length frames = 0 \<or> page = 0 then 0 else page_batch_loop frames page 1)"

section \<open>Heap growth (heap_policy)\<close>








section \<open>Owner order (owner_policy)\<close>

definition order_allowed :: "nat \<Rightarrow> nat \<Rightarrow> bool" where
  "order_allowed previous requested \<longleftrightarrow> previous = 0 \<or> previous < requested"

primrec translation_run :: "translation \<Rightarrow> (nat \<times> nat) list \<Rightarrow> translation option outcome" where
  "translation_run t [] = Some (Some t)"
| "translation_run t (leaf # leaves) = do {
     (ok, t1) \<leftarrow> translation_accept t (fst leaf) (snd leaf);
     if ok then translation_run t1 leaves else Some None
   }"

text \<open>The physical address of a byte of the range, by the leaves alone.\<close>

primrec leaf_at :: "(nat \<times> nat) list \<Rightarrow> nat \<Rightarrow> nat option" where
  "leaf_at [] i = None"
| "leaf_at (leaf # leaves) i = (if i < snd leaf then Some (fst leaf + i) else leaf_at leaves (i - snd leaf))"

text \<open>Leaves that cover a number of bytes, the last of them needed.\<close>

definition leaves_cover :: "(nat \<times> nat) list \<Rightarrow> nat \<Rightarrow> bool" where
  "leaves_cover leaves n \<longleftrightarrow> list_all (\<lambda>(a, r). 0 < r \<and> a + r \<le> 2 ^ 64) leaves
     \<and> sum_list (map snd (butlast leaves)) < n \<and> n \<le> sum_list (map snd leaves)"

lemma translation_run_ok:
  assumes "physical_present t" and "tr_bytes t \<le> MAX_TRANSLATION_BYTES" and "consumed t \<le> tr_bytes t"
    and "leaves = [] \<longrightarrow> consumed t = tr_bytes t"
    and "leaves \<noteq> [] \<longrightarrow> leaves_cover leaves (tr_bytes t - consumed t)"
  shows "\<exists>o1. translation_run t leaves = Some o1
     \<and> ((\<exists>t'. o1 = Some t' \<and> translation_result t' = Some (physical t))
          \<longleftrightarrow> (\<forall>i < tr_bytes t - consumed t. leaf_at leaves i = Some (physical t + consumed t + i)))
     \<and> (\<forall>t'. o1 = Some t' \<longrightarrow> translation_result t' = Some (physical t))"
  using assms
proof (induction leaves arbitrary: t)
  case Nil
  then show ?case by (simp add: translation_result_def)
next
  case (Cons leaf leaves)
  obtain a r where leaf: "leaf = (a, r)" by force
  let ?rest = "tr_bytes t - consumed t"
  have cov: "leaves_cover (leaf # leaves) ?rest" using Cons.prems(5) by simp
  have r: "0 < r" "a + r \<le> 2 ^ 64" using cov leaf by (auto simp: leaves_cover_def)
  have pos: "0 < ?rest" using cov by (auto simp: leaves_cover_def)
  let ?c = "min ?rest r"
  have add: "checked_add64 a (?c - 1) \<noteq> None" using r by (auto simp: checked_add64_def)
  show ?case
  proof (cases "checked_add64 (physical t) (consumed t) = Some a")
    case False
    have "translation_accept t a r = Some (False, t)"
      using False Cons.prems(1) pos by (auto simp: translation_accept_def Let_def)
    moreover have "\<not> (\<forall>i < ?rest. leaf_at (leaf # leaves) i = Some (physical t + consumed t + i))"
    proof
      assume all: "\<forall>i < ?rest. leaf_at (leaf # leaves) i = Some (physical t + consumed t + i)"
      then have "a = physical t + consumed t" using pos r leaf by (auto dest: spec [of _ 0])
      then show False using False r(2) r(1) by (simp add: checked_add64_def)
    qed
    ultimately show ?thesis using leaf by auto
  next
    case True
    have a: "a = physical t + consumed t" using True by (simp add: checked_add64_eq_Some)
    let ?t = "t\<lparr>consumed := consumed t + ?c\<rparr>"
    have acc: "translation_accept t a r = Some (True, ?t)"
      using True Cons.prems(1-3) pos r add by (simp add: translation_accept_def Let_def MAX_TRANSLATION_BYTES_def)
    have rest: "tr_bytes ?t - consumed ?t = ?rest - r" by simp
    have p1: "physical_present ?t" "tr_bytes ?t \<le> MAX_TRANSLATION_BYTES" "consumed ?t \<le> tr_bytes ?t"
      using Cons.prems(1-3) by auto
    have p2: "leaves = [] \<longrightarrow> consumed ?t = tr_bytes ?t" using cov leaf Cons.prems(3) by (auto simp: leaves_cover_def)
    have p3: "leaves \<noteq> [] \<longrightarrow> leaves_cover leaves (tr_bytes ?t - consumed ?t)"
      unfolding rest using cov leaf by (auto simp: leaves_cover_def)
    have spl: "(\<forall>i < ?rest. leaf_at (leaf # leaves) i = Some (physical t + consumed t + i)) \<longleftrightarrow>
      (\<forall>i < ?rest - r. leaf_at leaves i = Some (physical t + (consumed t + r) + i))"
    proof
      assume h: "\<forall>i < ?rest. leaf_at (leaf # leaves) i = Some (physical t + consumed t + i)"
      show "\<forall>i < ?rest - r. leaf_at leaves i = Some (physical t + (consumed t + r) + i)"
      proof (intro allI impI)
        fix i assume "i < ?rest - r"
        then show "leaf_at leaves i = Some (physical t + (consumed t + r) + i)" using h [rule_format, of "i + r"] leaf by simp
      qed
    next
      assume h: "\<forall>i < ?rest - r. leaf_at leaves i = Some (physical t + (consumed t + r) + i)"
      show "\<forall>i < ?rest. leaf_at (leaf # leaves) i = Some (physical t + consumed t + i)"
      proof (intro allI impI)
        fix i assume i: "i < ?rest"
        show "leaf_at (leaf # leaves) i = Some (physical t + consumed t + i)"
          using h [rule_format, of "i - r"] i leaf a by auto
      qed
    qed
    have "(\<forall>i < ?rest - r. leaf_at leaves i = Some (physical t + (consumed t + r) + i)) \<longleftrightarrow>
      (\<forall>i < ?rest - r. leaf_at leaves i = Some (physical ?t + consumed ?t + i))"
      by (cases "r \<le> ?rest") auto
    then show ?thesis unfolding spl using Cons.IH [OF p1 p2 p3] acc leaf rest by simp
  qed
qed

text \<open>
  C33. Leaf translation. When a range is translated by leaves that cover it, the accumulation never
  panics, and it yields a physical base exactly when every byte of the range lies at that base plus
  its offset, by the leaves alone: a gap, a reordering or a remapped page in the middle is refused.
\<close>

theorem translation_contiguous:
  assumes "translation_new base n = Some t" and "leaves_cover leaves n"
  shows "\<exists>o1. translation_run t leaves = Some o1
     \<and> (\<forall>p. (\<exists>t'. o1 = Some t' \<and> translation_result t' = Some p) \<longleftrightarrow>
           (\<forall>i < n. leaf_at leaves i = Some (p + i)))"
proof -
  obtain a r ls where leaves: "leaves = (a, r) # ls"
    using assms(2) by (cases leaves) (auto simp: leaves_cover_def)
  have t: "t = \<lparr>virtual_base = base, tr_bytes = n, consumed = 0, physical = 0, physical_present = False\<rparr>"
    and n: "0 < n" "n \<le> MAX_TRANSLATION_BYTES"
    using assms(1) by (auto simp: translation_new_def split: if_splits)
  have ar: "0 < r" "a + r \<le> 2 ^ 64" using assms(2) leaves by (auto simp: leaves_cover_def)
  let ?t = "t\<lparr>physical := a, physical_present := True\<rparr>"
  have "translation_accept t a r = translation_accept ?t a r"
  proof -
    have "checked_add64 a (min n r - 1) \<noteq> None" using ar by (auto simp: checked_add64_def)
    then show ?thesis using n(1) ar by (simp add: translation_accept_def t Let_def checked_add64_def)
  qed
  then have run: "translation_run t leaves = translation_run ?t leaves" using leaves by simp
  have "physical_present ?t" "tr_bytes ?t \<le> MAX_TRANSLATION_BYTES" "consumed ?t \<le> tr_bytes ?t"
    "leaves = [] \<longrightarrow> consumed ?t = tr_bytes ?t" "leaves \<noteq> [] \<longrightarrow> leaves_cover leaves (tr_bytes ?t - consumed ?t)"
    using n leaves assms(2) by (auto simp: t)
  from translation_run_ok [OF this] obtain o1 where o1: "translation_run ?t leaves = Some o1"
     "(\<exists>t'. o1 = Some t' \<and> translation_result t' = Some a) \<longleftrightarrow> (\<forall>i < n. leaf_at leaves i = Some (a + i))"
     "\<forall>t'. o1 = Some t' \<longrightarrow> translation_result t' = Some a" by (auto simp: t)
  have "p = a" if "\<forall>i < n. leaf_at leaves i = Some (p + i)" for p
    using that n(1) ar(1) leaves by (auto dest: spec [of _ 0])
  then have "(\<exists>t'. o1 = Some t' \<and> translation_result t' = Some p) \<longleftrightarrow> (\<forall>i < n. leaf_at leaves i = Some (p + i))" for p
    using o1(2,3) by (metis option.inject)
  then show ?thesis using run o1(1) by auto
qed

theorem translation_contiguous_witness:
  "\<exists>t t'. translation_new 0x7000 6000 = Some t \<and> translation_run t [(0x9000, 4096), (0xa000, 4096)] = Some (Some t')
     \<and> translation_result t' = Some 0x9000"
proof -
  let ?leaves = "[(0x9000, 4096), (0xa000, 4096)] :: (nat \<times> nat) list"
  obtain t where t: "translation_new 0x7000 6000 = Some t"
    by (simp add: translation_new_def MAX_TRANSLATION_BYTES_def checked_add64_def)
  have c: "leaves_cover ?leaves 6000" by (simp add: leaves_cover_def)
  have "\<forall>i < 6000. leaf_at ?leaves i = Some (0x9000 + i)" by auto
  then show ?thesis using translation_contiguous [OF t c] t by fastforce
qed

text \<open>The contiguous prefix of a batch of frames is the longest one.\<close>

lemma page_batch_loop_ok:
  assumes "0 < k" and "k \<le> length frames"
    and "\<forall>i. 0 < i \<and> i < k \<longrightarrow> frames ! i = wrapping_add64 (frames ! 0) (wrapping_mul64 i page)"
  shows "k \<le> page_batch_loop frames page k \<and> page_batch_loop frames page k \<le> length frames
     \<and> (\<forall>i. 0 < i \<and> i < page_batch_loop frames page k \<longrightarrow> frames ! i = wrapping_add64 (frames ! 0) (wrapping_mul64 i page))
     \<and> (page_batch_loop frames page k < length frames \<longrightarrow> frames ! page_batch_loop frames page k
          \<noteq> wrapping_add64 (frames ! 0) (wrapping_mul64 (page_batch_loop frames page k) page))"
  using assms
proof (induction frames page k rule: page_batch_loop.induct)
  case (1 frames page k)
  show ?case
  proof (cases "k < length frames \<and> frames ! k = wrapping_add64 (frames ! 0) (wrapping_mul64 k page)")
    case True
    have eq: "page_batch_loop frames page k = page_batch_loop frames page (k + 1)"
      by (subst page_batch_loop.simps) (use True in simp)
    have more: "\<forall>i. 0 < i \<and> i < k + 1 \<longrightarrow> frames ! i = wrapping_add64 (frames ! 0) (wrapping_mul64 i page)"
      using 1(4) True by (metis Suc_eq_plus1 less_antisym)
    have k: "k < length frames" "\<not> frames ! k \<noteq> wrapping_add64 (frames ! 0) (wrapping_mul64 k page)"
      "0 < k + 1" "k + 1 \<le> length frames" using True by auto
    have le: "k \<le> x" if "k + 1 \<le> x" for x using that by simp
    show ?thesis unfolding eq using 1(1) [OF k more] le by blast
  next
    case False
    have eq: "page_batch_loop frames page k = k" by (subst page_batch_loop.simps) (use False in auto)
    show ?thesis unfolding eq using 1(2-4) False by blast
  qed
qed





end
