(* ===== verification/Phys_Frames.thy ===== *)
theory Phys_Frames
  imports Numa Page_Policy
begin

text \<open>
  The physical frame allocator of \<open>src/Rust/memory/phys.rs\<close>. The bitmap is the memory behind
  the allocator's \<open>bitmap\<close> pointer, one byte per index, and is read by bytes (\<open>used\<close>) and by
  64-bit words (\<open>word_at\<close>), as the code does; bit \<open>f\<close> set means frame \<open>f\<close> is in use. Every
  operation takes and returns the whole allocator state, and returns \<open>None\<close> where the code
  would panic (the free-frame counter is decremented with an overflow check).

  The current CPU and the sealed NUMA topology are arguments of the operations that consult
  them. The frames of a machine fit in its 52-bit physical addresses, so the loop counters over
  frame numbers cannot overflow; the additions on values supplied by callers are checked.
\<close>

section \<open>State\<close>

definition FRAME :: nat where
  [simp]: "FRAME = 4096"

record extent =
  extent_base :: nat
  extent_count :: nat

record phys_stats =
  total_frames :: nat
  free_frames :: nat
  used_frames :: nat
  bitmap_bytes :: nat
  bitmap_base :: nat
  double_free_errors :: nat
  bad_free_errors :: nat
  extent_allocations :: nat
  extent_allocated_frames :: nat
  extent_max_frames :: nat
  extent_frees :: nat
  extent_freed_frames :: nat

record phys_state =
  bitmap_addr :: nat
  bitmap :: "nat \<Rightarrow> u8"
  stats :: phys_stats
  next_hint :: nat
  local_hints :: "nat \<Rightarrow> nat"
  local_exhausted :: u64
  initialized :: bool
  fault_reported :: bool

definition STATS_EMPTY :: phys_stats where
  "STATS_EMPTY = \<lparr>total_frames = 0, free_frames = 0, used_frames = 0, bitmap_bytes = 0,
     bitmap_base = 0, double_free_errors = 0, bad_free_errors = 0, extent_allocations = 0,
     extent_allocated_frames = 0, extent_max_frames = 0, extent_frees = 0,
     extent_freed_frames = 0\<rparr>"

definition STATE_EMPTY :: "nat \<Rightarrow> (nat \<Rightarrow> u8) \<Rightarrow> phys_state" where
  "STATE_EMPTY addr ram = \<lparr>bitmap_addr = addr, bitmap = ram, stats = STATS_EMPTY,
     next_hint = 0, local_hints = (\<lambda>_. 0), local_exhausted = 0, initialized = False,
     fault_reported = False\<rparr>"

abbreviation frame_total :: "phys_state \<Rightarrow> nat" where
  "frame_total s \<equiv> total_frames (stats s)"

abbreviation free_count :: "phys_state \<Rightarrow> nat" where
  "free_count s \<equiv> free_frames (stats s)"

definition set_free :: "phys_state \<Rightarrow> nat \<Rightarrow> phys_state" where
  "set_free s n = s\<lparr>stats := (stats s)\<lparr>free_frames := n\<rparr>\<rparr>"

section \<open>Bitmap access\<close>

definition used :: "phys_state \<Rightarrow> nat \<Rightarrow> bool" where
  "used s frame = (bitmap s (frame div 8) AND push_bit (frame mod 8) 1 \<noteq> 0)"

definition set_used :: "phys_state \<Rightarrow> nat \<Rightarrow> bool \<Rightarrow> phys_state" where
  "set_used s frame u =
     (let byte = frame div 8; mask = push_bit (frame mod 8) (1::u8);
          s' = s\<lparr>bitmap := (bitmap s)(byte :=
                 if u then bitmap s byte OR mask else bitmap s byte AND NOT mask)\<rparr>
      in if u then s' else s'\<lparr>local_exhausted := 0\<rparr>)"

definition word_at :: "(nat \<Rightarrow> u8) \<Rightarrow> nat \<Rightarrow> u64" where
  "word_at m i = foldr (OR) (map (\<lambda>k. push_bit (8 * k) (ucast (m (8 * i + k)))) [0..<8]) 0"

definition write_word :: "(nat \<Rightarrow> u8) \<Rightarrow> nat \<Rightarrow> u64 \<Rightarrow> (nat \<Rightarrow> u8)" where
  "write_word m i w =
     (\<lambda>j. if j div 8 = i then ucast (drop_bit (8 * (j mod 8)) w) else m j)"

definition align_up :: "nat \<Rightarrow> nat \<Rightarrow> nat option" where
  "align_up value alignment =
     (case checked_add64 value (alignment - 1) of
        None \<Rightarrow> None
      | Some v \<Rightarrow> Some (v AND not64 (alignment - 1)))"

primrec mark_frames :: "bool \<Rightarrow> nat list \<Rightarrow> phys_state \<Rightarrow> phys_state outcome" where
  "mark_frames u [] s = Some s"
| "mark_frames u (frame # rest) s =
     (if used s frame \<noteq> u then do {
        let s1 = set_used s frame u;
        n \<leftarrow> (if u then sub_unsigned (free_count s1) 1 else add64 (free_count s1) 1);
        mark_frames u rest (set_free s1 n)
      } else mark_frames u rest s)"

definition mark_range :: "phys_state \<Rightarrow> nat \<Rightarrow> nat \<Rightarrow> bool \<Rightarrow> phys_state outcome" where
  "mark_range s base len u =
     (if len = 0 then Some s
      else case checked_add64 base len of
        None \<Rightarrow> Some s
      | Some last0 \<Rightarrow>
        (case (if u then Some (base AND not64 4095) else align_up base FRAME) of
           None \<Rightarrow> Some s
         | Some first \<Rightarrow>
           (case (if u then align_up last0 FRAME else Some (last0 AND not64 4095)) of
              None \<Rightarrow> Some s
            | Some last1 \<Rightarrow>
                mark_frames u [first div FRAME ..< min (last1 div FRAME) (frame_total s)] s)))"

definition words :: "phys_state \<Rightarrow> bool" where
  "words s = (bitmap_addr s AND 7 = 0)"

section \<open>Single frames\<close>

definition take_frame :: "phys_state \<Rightarrow> nat \<Rightarrow> (nat option \<times> phys_state) outcome" where
  "take_frame s frame = do {
     let s1 = set_used s frame True;
     n \<leftarrow> sub_unsigned (free_count s1) 1;
     Some (Some (frame * FRAME), (set_free s1 n)\<lparr>next_hint := frame + 1\<rparr>)
   }"

definition scan_word :: "phys_state \<Rightarrow> nat \<Rightarrow> nat \<Rightarrow> u64" where
  "scan_word s frame last1 =
     (let index = frame div 64; off = frame mod 64;
          word0 = word_at (bitmap s) index;
          word1 = (if off \<noteq> 0 then word0 OR (push_bit off 1 - 1) else word0);
          valid = min (last1 - index * 64) 64
      in if valid < 64 then word1 OR push_bit valid (- 1) else word1)"

function alloc_between :: "phys_state \<Rightarrow> nat \<Rightarrow> nat \<Rightarrow> (nat option \<times> phys_state) outcome" where
  "alloc_between s frame last1 =
     (if frame < last1 then
        if words s then
          let word = scan_word s frame last1 in
          if word = - 1 then alloc_between s ((frame div 64 + 1) * 64) last1
          else take_frame s (frame div 64 * 64 + trailing_zeros (NOT word))
        else if used s frame then alloc_between s (frame + 1) last1
        else take_frame s frame
      else Some (None, s))"
  by pat_completeness auto
termination
proof (relation "measure (\<lambda>(s, frame, last1). last1 - frame)", goal_cases)
  case (2 s frame last1 x)
  then show ?case using less_next_word [of frame] by auto
qed auto

declare alloc_between.simps [simp del]

function alloc_any_loop ::
  "phys_state \<Rightarrow> nat \<Rightarrow> nat \<Rightarrow> nat \<Rightarrow> nat \<Rightarrow> (nat option \<times> phys_state) outcome" where
  "alloc_any_loop s count scanned index0 start0 =
     (if scanned \<le> count then
        let index = (if count \<le> index0 then 0 else index0);
            start = (if count \<le> index0 then 0 else start0);
            word0 = word_at (bitmap s) index;
            word = (if start \<noteq> 0 then word0 OR (push_bit start 1 - 1) else word0);
            bit = trailing_zeros (NOT word);
            frame = index * 64 + bit
        in if word \<noteq> - 1 \<and> frame = 0 then alloc_any_loop s count (scanned + 1) index 1
           else if word \<noteq> - 1 \<and> frame < frame_total s then do {
             let s1 = s\<lparr>bitmap :=
                 write_word (bitmap s) index (word_at (bitmap s) index OR push_bit bit 1)\<rparr>;
             n \<leftarrow> sub_unsigned (free_count s1) 1;
             Some (Some (frame * FRAME), (set_free s1 n)\<lparr>next_hint := frame + 1\<rparr>)
           }
           else alloc_any_loop s count (scanned + 1) (index + 1) 0
      else Some (None, s))"
  by pat_completeness auto
termination
  by (relation "measure (\<lambda>(s, count, scanned, index, start). Suc count - scanned)") auto

declare alloc_any_loop.simps [simp del]

fun alloc_linear_loop :: "nat \<Rightarrow> phys_state \<Rightarrow> nat \<Rightarrow> (nat option \<times> phys_state) outcome" where
  "alloc_linear_loop 0 s frame = Some (None, s)"
| "alloc_linear_loop (Suc n) s frame0 =
     (let frame = (if frame_total s \<le> frame0 then 0 else frame0) in
      if frame = 0 then alloc_linear_loop n s 1
      else if \<not> used s frame then take_frame s frame
      else alloc_linear_loop n s (frame + 1))"

definition alloc_linear :: "phys_state \<Rightarrow> (nat option \<times> phys_state) outcome" where
  "alloc_linear s = alloc_linear_loop (frame_total s) s (next_hint s)"

definition alloc_any :: "phys_state \<Rightarrow> (nat option \<times> phys_state) outcome" where
  "alloc_any s =
     (if \<not> initialized s then Some (None, s)
      else if \<not> words s then alloc_linear s
      else alloc_any_loop s (div_ceil (bitmap_bytes (stats s)) 8) 0
             (next_hint s div 64) (next_hint s mod 64))"

primrec alloc_ranges ::
  "phys_state \<Rightarrow> bool \<Rightarrow> nat \<Rightarrow> nat \<Rightarrow> numa_range list \<Rightarrow> (nat option \<times> phys_state) outcome" where
  "alloc_ranges s second hint node [] = Some (None, s)"
| "alloc_ranges s second hint node (r # rs) =
     (if nr_node r \<noteq> node then alloc_ranges s second hint node rs
      else let first0 = max (div_ceil (nr_base r) FRAME) 1;
               last0 = min (nr_end r div FRAME) (frame_total s);
               (first, last1) = (if second then (first0, min last0 hint)
                                else (max first0 hint, last0))
           in do {
             (found, s1) \<leftarrow> alloc_between s first last1;
             case found of
               Some frame \<Rightarrow> do {
                 hints \<leftarrow> index_set MAX_NODES (local_hints s1) node (frame div FRAME + 1);
                 Some (Some frame, s1\<lparr>local_hints := hints\<rparr>)
               }
             | None \<Rightarrow> alloc_ranges s1 second hint node rs
           })"

definition alloc_local ::
  "phys_state \<Rightarrow> local_memory \<Rightarrow> (nat option \<times> phys_state) outcome" where
  "alloc_local s loc = do {
     let node = local_node loc;
     assert (node < 64);
     if local_exhausted s AND push_bit node 1 = 0 then do {
       hint \<leftarrow> index_get MAX_NODES (local_hints s) node;
       (found, s1) \<leftarrow> alloc_ranges s False hint node (local_ranges loc);
       case found of
         Some frame \<Rightarrow> Some (Some frame, s1)
       | None \<Rightarrow> do {
           (found2, s2) \<leftarrow> alloc_ranges s1 True hint node (local_ranges loc);
           case found2 of
             Some frame \<Rightarrow> Some (Some frame, s2)
           | None \<Rightarrow>
               Some (None, s2\<lparr>local_exhausted := local_exhausted s2 OR push_bit node 1\<rparr>)
         }
     } else Some (None, s)
   }"

definition alloc_one ::
  "topology \<Rightarrow> nat \<Rightarrow> phys_state \<Rightarrow> (nat option \<times> phys_state) outcome" where
  "alloc_one topo cpu s =
     (if \<not> initialized s \<or> free_count s = 0 then Some (None, s)
      else case local_memory_of topo cpu of
        None \<Rightarrow> alloc_any s
      | Some loc \<Rightarrow> do {
          (found, s1) \<leftarrow> alloc_local s loc;
          case found of Some frame \<Rightarrow> Some (Some frame, s1) | None \<Rightarrow> alloc_any s1
        })"

section \<open>Contiguous runs\<close>

function free_run :: "phys_state \<Rightarrow> nat \<Rightarrow> nat \<Rightarrow> nat \<Rightarrow> nat" where
  "free_run s start count offset =
     (if offset < count \<and> \<not> used s (start + offset)
      then free_run s start count (offset + 1) else offset)"
  by pat_completeness auto
termination
  by (relation "measure (\<lambda>(s, start, count, offset). count - offset)") auto

declare free_run.simps [simp del]

primrec use_frames :: "phys_state \<Rightarrow> nat list \<Rightarrow> phys_state" where
  "use_frames s [] = s"
| "use_frames s (frame # rest) = use_frames (set_used s frame True) rest"

function contiguous_loop ::
  "phys_state \<Rightarrow> nat \<Rightarrow> nat \<Rightarrow> nat \<Rightarrow> (nat option \<times> phys_state) outcome" where
  "contiguous_loop s count last1 start =
     (if start \<le> last1 - count then
        if words s \<and> used s start \<and> start AND 63 = 0 \<and> word_at (bitmap s) (start div 64) = - 1
        then contiguous_loop s count last1 (start + 64)
        else let offset = free_run s start count 0 in
          if offset = count then do {
            let s1 = use_frames s [start ..< start + count];
            n \<leftarrow> sub_unsigned (free_count s1) count;
            Some (Some (start * FRAME), (set_free s1 n)\<lparr>next_hint := start + count\<rparr>)
          }
          else contiguous_loop s count last1 (start + offset + 1)
      else Some (None, s))"
  by pat_completeness auto
termination
  by (relation "measure (\<lambda>(s, count, last1, start). Suc (last1 - count) - start)") auto

declare contiguous_loop.simps [simp del]

definition contiguous_between ::
  "phys_state \<Rightarrow> nat \<Rightarrow> nat \<Rightarrow> nat \<Rightarrow> (nat option \<times> phys_state) outcome" where
  "contiguous_between s count first last1 =
     (if last1 \<le> first \<or> last1 - first < count then Some (None, s)
      else contiguous_loop s count last1 first)"

primrec contiguous_ranges ::
  "phys_state \<Rightarrow> nat \<Rightarrow> nat \<Rightarrow> nat \<Rightarrow> numa_range list \<Rightarrow> (nat option \<times> phys_state) outcome" where
  "contiguous_ranges s count addressable node [] = Some (None, s)"
| "contiguous_ranges s count addressable node (r # rs) =
     (if nr_node r \<noteq> node then contiguous_ranges s count addressable node rs
      else do {
        (found, s1) \<leftarrow> contiguous_between s count (max (div_ceil (nr_base r) FRAME) 1)
                          (min (nr_end r div FRAME) addressable);
        case found of
          Some frame \<Rightarrow> do {
            hints \<leftarrow> index_set MAX_NODES (local_hints s1) node (frame div FRAME + count);
            Some (Some frame, s1\<lparr>local_hints := hints\<rparr>)
          }
        | None \<Rightarrow> contiguous_ranges s1 count addressable node rs
      })"

definition addressable_frames :: "phys_state \<Rightarrow> nat \<Rightarrow> nat" where
  "addressable_frames s maximum =
     (if maximum = U64_MAX then frame_total s else min (frame_total s) ((maximum + 1) div FRAME))"

definition alloc_contiguous ::
  "topology \<Rightarrow> nat \<Rightarrow> phys_state \<Rightarrow> nat \<Rightarrow> nat \<Rightarrow> (nat option \<times> phys_state) outcome" where
  "alloc_contiguous topo cpu s count maximum =
     (if \<not> initialized s \<or> count = 0 then Some (None, s)
      else let addressable = addressable_frames s maximum in
        if addressable < count then Some (None, s)
        else case local_memory_of topo cpu of
          None \<Rightarrow> contiguous_between s count 1 addressable
        | Some loc \<Rightarrow> do {
            (found, s1) \<leftarrow> contiguous_ranges s count addressable (local_node loc) (local_ranges loc);
            case found of
              Some frame \<Rightarrow> Some (Some frame, s1)
            | None \<Rightarrow> contiguous_between s1 count 1 addressable
          })"

section \<open>Release\<close>

primrec clear_frames :: "nat list \<Rightarrow> phys_state \<Rightarrow> phys_state outcome" where
  "clear_frames [] s = Some s"
| "clear_frames (frame # rest) s =
     (if used s frame then do {
        let s1 = set_used s frame False;
        n \<leftarrow> add64 (free_count s1) 1;
        clear_frames rest (set_free s1 n)
      } else clear_frames rest s)"

definition free_contiguous :: "phys_state \<Rightarrow> nat \<Rightarrow> nat \<Rightarrow> phys_state outcome" where
  "free_contiguous s address count =
     (if \<not> initialized s \<or> \<not> FRAME dvd address \<or> count = 0 then Some s
      else do {
        let start = address div FRAME;
        end \<leftarrow> add64 start count;
        if frame_total s < end then Some s
        else do {
          s1 \<leftarrow> clear_frames [start ..< end] s;
          Some (if start < next_hint s1 then s1\<lparr>next_hint := start\<rparr> else s1)
        }
      })"

definition fault :: "phys_state \<Rightarrow> nat \<Rightarrow> nat \<times> phys_state" where
  "fault s kind = (if fault_reported s then (0, s) else (kind, s\<lparr>fault_reported := True\<rparr>))"

definition bad_free :: "phys_state \<Rightarrow> phys_state" where
  "bad_free s = s\<lparr>stats := (stats s)\<lparr>bad_free_errors :=
     wrapping_add64 (bad_free_errors (stats s)) 1\<rparr>\<rparr>"

definition double_free :: "phys_state \<Rightarrow> phys_state" where
  "double_free s = s\<lparr>stats := (stats s)\<lparr>double_free_errors :=
     wrapping_add64 (double_free_errors (stats s)) 1\<rparr>\<rparr>"

definition free_one :: "phys_state \<Rightarrow> nat \<Rightarrow> (nat \<times> phys_state) outcome" where
  "free_one s address =
     (if \<not> initialized s then Some (0, s)
      else if \<not> FRAME dvd address then Some (fault (bad_free s) 1)
      else let frame = address div FRAME in
        if frame_total s \<le> frame then Some (fault (bad_free s) 2)
        else if \<not> used s frame then Some (fault (double_free s) 3)
        else do {
          let s1 = set_used s frame False;
          n \<leftarrow> add64 (free_count s1) 1;
          let s2 = set_free s1 n;
          Some (0, if frame < next_hint s2 then s2\<lparr>next_hint := frame\<rparr> else s2)
        })"

section \<open>Extents\<close>

function extend_extent ::
  "phys_state \<Rightarrow> nat \<Rightarrow> nat \<Rightarrow> nat \<Rightarrow> nat \<Rightarrow> (nat \<times> phys_state) outcome" where
  "extend_extent s start bound maximum_count count =
     (if count < maximum_count \<and> start + count < bound \<and> \<not> used s (start + count)
      then do {
        let s1 = set_used s (start + count) True;
        n \<leftarrow> sub_unsigned (free_count s1) 1;
        extend_extent (set_free s1 n) start bound maximum_count (count + 1)
      }
      else Some (count, s))"
  by pat_completeness auto
termination
  by (relation "measure (\<lambda>(s, start, bound, maximum_count, count). maximum_count - count)") auto

declare extend_extent.simps [simp del]

definition phys_extent ::
  "topology \<Rightarrow> nat \<Rightarrow> phys_state \<Rightarrow> nat \<Rightarrow> (extent option \<times> phys_state) outcome" where
  "phys_extent topo cpu s maximum_count =
     (if maximum_count = 0 then Some (None, s)
      else do {
        (found, s1) \<leftarrow> alloc_one topo cpu s;
        case found of
          None \<Rightarrow> Some (None, s1)
        | Some base \<Rightarrow> do {
            let start = base div FRAME;
            let local_end = (case numa_range_end topo base of
                               None \<Rightarrow> frame_total s1 | Some end \<Rightarrow> end div FRAME);
            (count, s2) \<leftarrow> extend_extent s1 start (min (frame_total s1) local_end) maximum_count 1;
            let st = stats s2;
            Some (Some \<lparr>extent_base = base, extent_count = count\<rparr>,
              s2\<lparr>next_hint := start + count,
                 stats := st\<lparr>extent_allocations := wrapping_add64 (extent_allocations st) 1,
                   extent_allocated_frames := wrapping_add64 (extent_allocated_frames st) count,
                   extent_max_frames := max (extent_max_frames st) count\<rparr>\<rparr>)
          }
      })"

definition note_freed :: "phys_state \<Rightarrow> nat \<Rightarrow> phys_state" where
  "note_freed s count = s\<lparr>stats := (stats s)\<lparr>
     extent_frees := wrapping_add64 (extent_frees (stats s)) 1,
     extent_freed_frames := wrapping_add64 (extent_freed_frames (stats s)) count\<rparr>\<rparr>"

definition phys_free_extent :: "phys_state \<Rightarrow> nat \<Rightarrow> nat \<Rightarrow> phys_state outcome" where
  "phys_free_extent s address count =
     (if count = 0 then Some s
      else do { s1 \<leftarrow> free_contiguous s address count; Some (note_freed s1 count) })"

definition overlaps_extent :: "nat \<Rightarrow> nat \<Rightarrow> extent \<Rightarrow> bool" where
  "overlaps_extent first end earlier =
     (let earlier_first = extent_base earlier div FRAME;
          earlier_end = earlier_first + extent_count earlier
      in first < earlier_end \<and> earlier_first < end)"

fun check_extents ::
  "phys_state \<Rightarrow> nat \<Rightarrow> extent list \<Rightarrow> extent list \<Rightarrow> bool \<times> phys_state" where
  "check_extents s pages earlier [] = (True, s)"
| "check_extents s pages earlier (e # rest) =
     (if extent_base e = 0 \<or> \<not> FRAME dvd extent_base e \<or> extent_count e = 0
         \<or> MAX_EXTENT_PAGES < extent_count e then (False, bad_free s)
      else let pages1 = pages + extent_count e; first = extent_base e div FRAME in
        case checked_add64 first (extent_count e) of
          None \<Rightarrow> (False, bad_free s)
        | Some end \<Rightarrow>
            if MAX_EXTENT_PAGES < pages1 \<or> frame_total s < end then (False, bad_free s)
            else if list_ex (overlaps_extent first end) earlier then (False, double_free s)
            else if list_ex (\<lambda>frame. \<not> used s frame) [first ..< end] then (False, double_free s)
            else check_extents s pages1 (earlier @ [e]) rest)"

definition release_extents_valid :: "phys_state \<Rightarrow> extent list \<Rightarrow> bool \<times> phys_state" where
  "release_extents_valid s extents =
     (if \<not> initialized s then (False, s)
      else if extents = [] \<or> MAX_EXTENT_PAGES < length extents then (False, bad_free s)
      else check_extents s 0 [] extents)"

primrec release_all :: "extent list \<Rightarrow> phys_state \<Rightarrow> phys_state outcome" where
  "release_all [] s = Some s"
| "release_all (e # rest) s = do {
     s1 \<leftarrow> free_contiguous s (extent_base e) (extent_count e);
     release_all rest (note_freed s1 (extent_count e))
   }"

definition release_extents_checked :: "phys_state \<Rightarrow> extent list \<Rightarrow> (bool \<times> phys_state) outcome" where
  "release_extents_checked s extents =
     (let (ok, s1) = release_extents_valid s extents in
      if \<not> ok then Some (False, s1)
      else do { s2 \<leftarrow> release_all extents s1; Some (True, s2) })"

definition phys_stats_view :: "phys_state \<Rightarrow> nat \<Rightarrow> phys_stats outcome" where
  "phys_stats_view s hhdm = do {
     n \<leftarrow> sub_unsigned (frame_total s) (free_count s);
     Some ((stats s)\<lparr>used_frames := n,
       bitmap_base := (if initialized s then bitmap_addr s - hhdm else 0)\<rparr>)
   }"

end
