(* ===== verification/Phys_Scan.thy ===== *)
theory Phys_Scan
  imports Phys_Frames
begin

text \<open>
  The searches of \<open>src/Rust/memory/phys.rs\<close> are optimised: they read the bitmap by 64-bit words,
  mask the ends of the interval, skip full words and wrap around at a hint. This theory gives each
  search a reference definition that looks at the frames one by one, in order, and shows that the
  word scan and the byte scan both compute it (\<open>alloc_between_eq\<close>, \<open>alloc_any_eq\<close>,
  \<open>contiguous_between_eq\<close>).
\<close>

section \<open>Reference searches\<close>

definition first_free_between :: "phys_state \<Rightarrow> nat \<Rightarrow> nat \<Rightarrow> (nat option \<times> phys_state) outcome" where
  "first_free_between s lo hi =
     (case find (\<lambda>f. \<not> used s f) [lo..<hi] of
        None \<Rightarrow> Some (None, s) | Some f \<Rightarrow> take_frame s f)"

definition free_frame :: "phys_state \<Rightarrow> nat \<Rightarrow> bool" where
  "free_frame s f = (f < frame_total s \<and> \<not> used s f)"

definition take_first :: "phys_state \<Rightarrow> nat list \<Rightarrow> (nat option \<times> phys_state) outcome" where
  "take_first s fs =
     (case find (free_frame s) fs of None \<Rightarrow> Some (None, s) | Some f \<Rightarrow> take_frame s f)"

definition hint_order :: "phys_state \<Rightarrow> nat list" where
  "hint_order s = [next_hint s..<frame_total s] @ [0..<min (next_hint s) (frame_total s)]"

fun scan_order :: "nat \<Rightarrow> nat \<Rightarrow> nat \<Rightarrow> nat \<Rightarrow> nat list" where
  "scan_order count 0 index start = []"
| "scan_order count (Suc n) index start =
     (if count \<le> index then [0..<64] @ scan_order count n 1 0
      else [index * 64 + start..<(index + 1) * 64] @ scan_order count n (index + 1) 0)"

definition run_free :: "phys_state \<Rightarrow> nat \<Rightarrow> nat \<Rightarrow> bool" where
  "run_free s count start = list_all (\<lambda>i. \<not> used s (start + i)) [0..<count]"

definition take_run :: "phys_state \<Rightarrow> nat \<Rightarrow> nat \<Rightarrow> (nat option \<times> phys_state) outcome" where
  "take_run s count start = do {
     let s1 = use_frames s [start ..< start + count];
     n \<leftarrow> sub_unsigned (free_count s1) count;
     Some (Some (start * FRAME), (set_free s1 n)\<lparr>next_hint := start + count\<rparr>)
   }"

definition first_run_between :: "phys_state \<Rightarrow> nat \<Rightarrow> nat \<Rightarrow> nat \<Rightarrow> (nat option \<times> phys_state) outcome" where
  "first_run_between s count lo hi =
     (case find (\<lambda>st. st + count \<le> hi \<and> run_free s count st) [lo..<hi] of
        None \<Rightarrow> Some (None, s) | Some st \<Rightarrow> take_run s count st)"

section \<open>Bitmap bits\<close>

lemma used_iff_bit: "used s f \<longleftrightarrow> bit (bitmap s (f div 8)) (f mod 8)"
  by (simp add: used_def bit_iff_and_push_bit_not_eq_0)

lemma used_bitmap_cong: "bitmap s = bitmap t \<Longrightarrow> used s = used t"
  by (simp add: used_def fun_eq_iff)

lemma used_set_used: "used (set_used s f u) g \<longleftrightarrow> (if g = f then u else used s g)"
proof (cases "g div 8 = f div 8")
  case True
  have "g = f" if "g mod 8 = f mod 8"
    using that True by (metis div_mult_mod_eq)
  moreover have "f mod 8 < 8" "g mod 8 < 8" by simp_all
  ultimately show ?thesis using True
    by (auto simp: used_iff_bit set_used_def Let_def bit_or_iff bit_and_iff bit_not_iff bit_exp_iff)
next
  case False
  then show ?thesis by (auto simp: used_iff_bit set_used_def Let_def)
qed

lemma bit_word_at:
  assumes "k < 8" and "n < 8"
  shows "bit (word_at m i) (8 * k + n) \<longleftrightarrow> bit (m (8 * i + k)) n"
proof -
  have j: "j = k" if "8 * j \<le> 8 * k + n" "bit (m (8 * i + j)) (8 * k + n - 8 * j)" for j
    using that(1) bit_u8_lt [OF that(2)] assms by linarith
  have "bit (word_at m i) (8 * k + n) \<longleftrightarrow>
      (\<exists>j \<in> {0..<8}. 8 * j \<le> 8 * k + n \<and> 8 * k + n - 8 * j < 64
        \<and> bit (m (8 * i + j)) (8 * k + n - 8 * j))"
    using assms by (simp add: word_at_def bit_foldr_or bit_push_bit_iff bit_ucast_iff)
  also have "\<dots> \<longleftrightarrow> bit (m (8 * i + k)) n"
    using assms by (auto dest: j intro!: bexI [of _ k])
  finally show ?thesis .
qed

lemma bit_word_at_used:
  assumes "b < 64"
  shows "bit (word_at (bitmap s) i) b \<longleftrightarrow> used s (i * 64 + b)"
proof -
  have "b = 8 * (b div 8) + b mod 8" by simp
  moreover have "b div 8 < 8" "b mod 8 < 8" using assms by simp_all
  ultimately show ?thesis using bit_word_at [of "b div 8" "b mod 8" "bitmap s" i]
    by (simp add: used_iff_bit frame_of_bit)
qed

lemma write_word_bit:
  assumes k: "k < 8" and n: "n < 8" and b: "b < 64"
  shows "bit (write_word m i (word_at m i OR push_bit b 1) (8 * i + k)) n
       \<longleftrightarrow> bit (m (8 * i + k)) n \<or> 8 * k + n = b"
proof -
  have "(8 * i + k) div 8 = i" "(8 * i + k) mod 8 = k" using k by simp_all
  then have "bit (write_word m i (word_at m i OR push_bit b 1) (8 * i + k)) n
      \<longleftrightarrow> bit (word_at m i OR push_bit b 1) (8 * k + n)"
    using n by (simp add: write_word_def bit_ucast_iff bit_drop_bit_eq bit_or_iff)
  then show ?thesis
    using k n b bit_word_at [OF k n, of m i] by (auto simp: bit_or_iff bit_exp_iff)
qed

lemma write_word_or_bit:
  assumes k: "k < 8" and n: "n < 8"
  shows "write_word m i (word_at m i OR push_bit (8 * k + n) 1)
       = m(8 * i + k := m (8 * i + k) OR push_bit n 1)"
proof
  fix j
  let ?w = "write_word m i (word_at m i OR push_bit (8 * k + n) 1)"
  show "?w j = (m(8 * i + k := m (8 * i + k) OR push_bit n 1)) j"
  proof (cases "j div 8 = i")
    case False
    with k have "j \<noteq> 8 * i + k" by auto
    with False show ?thesis by (simp add: write_word_def)
  next
    case True
    then have j: "j = 8 * i + j mod 8" using div_mult_mod_eq [of j 8] by (simp add: mult.commute)
    have "bit (?w j) p = bit ((m(8 * i + k := m (8 * i + k) OR push_bit n 1)) j) p" if p: "p < 8" for p
    proof -
      have "bit (?w j) p \<longleftrightarrow> bit (m j) p \<or> 8 * (j mod 8) + p = 8 * k + n"
        using write_word_bit [of "j mod 8" p "8 * k + n" m i] p k n j by auto
      moreover have "8 * (j mod 8) + p = 8 * k + n \<longleftrightarrow> j mod 8 = k \<and> p = n"
        using p n by (rule digit8_eq)
      moreover have "j mod 8 = k \<longleftrightarrow> j = 8 * i + k"
        using j by auto
      ultimately show ?thesis using n by (auto simp: bit_or_iff bit_exp_iff)
    qed
    then show ?thesis by (intro bit_word_eqI) auto
  qed
qed

lemma write_bit_set_used:
  assumes "b < 64"
  shows "s\<lparr>bitmap := write_word (bitmap s) i (word_at (bitmap s) i OR push_bit b 1)\<rparr>
       = set_used s (i * 64 + b) True"
proof -
  have "8 * (b div 8) + b mod 8 = b" by simp
  moreover have "b div 8 < 8" "b mod 8 < 8" using assms by simp_all
  ultimately show ?thesis
    using write_word_or_bit [of "b div 8" "b mod 8" "bitmap s" i] by (simp add: set_used_def Let_def frame_of_bit)
qed

lemma bit_scan_word:
  assumes "b < 64" and "frame < last1"
  shows "bit (scan_word s frame last1) b \<longleftrightarrow>
     used s (frame div 64 * 64 + b) \<or> b < frame mod 64 \<or> last1 \<le> frame div 64 * 64 + b"
proof -
  have "frame mod 64 < 64" by simp
  moreover have "frame div 64 * 64 \<le> frame" by simp
  then have "frame div 64 * 64 < last1" using assms(2) by linarith
  ultimately show ?thesis using assms(1)
    by (auto simp: scan_word_def Let_def bit_or_iff bit_low_mask bit_high_mask bit_word_at_used
        min_def simp del: push_bit_of_1)
qed

lemma scan_word_full:
  assumes "scan_word s frame last1 = - 1" and lt: "frame < last1"
    and f: "frame \<le> f" "f < (frame div 64 + 1) * 64" "f < last1"
  shows "used s f"
proof -
  define base where "base = frame div 64 * 64"
  have base: "base + frame mod 64 = frame" by (simp add: base_def)
  define b where "b = f - base"
  have "f < base + 64" using f(2) by (simp add: base_def)
  then have b: "f = base + b" "b < 64" "\<not> b < frame mod 64"
    using f(1) base unfolding b_def by linarith+
  show ?thesis
    using assms(1) b f(3) bit_scan_word [OF b(2) lt, of s] by (auto simp: all_ones_iff base_def)
qed

lemma scan_word_first:
  assumes "scan_word s frame last1 \<noteq> - 1" and lt: "frame < last1"
  defines "f \<equiv> frame div 64 * 64 + trailing_zeros (NOT (scan_word s frame last1))"
  shows "frame \<le> f" and "f < last1" and "\<not> used s f"
    and "\<And>g. frame \<le> g \<Longrightarrow> g < f \<Longrightarrow> used s g"
proof -
  define base where "base = frame div 64 * 64"
  define b where "b = trailing_zeros (NOT (scan_word s frame last1))"
  have base: "base + frame mod 64 = frame" by (simp add: base_def)
  have f: "f = base + b" by (simp add: f_def base_def b_def)
  note fc = first_clear [OF assms(1), folded b_def]
  have b: "\<not> used s f" "frame mod 64 \<le> b" "f < last1"
    using fc(2) bit_scan_word [OF fc(1) lt, of s] by (auto simp: f base_def)
  from b show "frame \<le> f" and "f < last1" and "\<not> used s f" using base f by linarith+
  fix g assume g: "frame \<le> g" "g < f"
  define c where "c = g - base"
  have c: "g = base + c" "c < b" "\<not> c < frame mod 64"
    using g base f by (auto simp: c_def)
  then have "c < 64" using fc(1) by linarith
  then show "used s g"
    using c b(3) g fc(3) [OF c(2)] bit_scan_word [OF \<open>c < 64\<close> lt, of s] by (auto simp: base_def f)
qed

lemma alloc_between_eq: "alloc_between s lo hi = first_free_between s lo hi"
proof (induction s lo hi rule: alloc_between.induct)
  case (1 s frame last1)
  note unfold = alloc_between.simps [of s frame] first_free_between_def Let_def
  show ?case
  proof (cases "frame < last1")
    case False
    then show ?thesis by (simp add: unfold)
  next
    case lt: True
    consider (word) "words s" "scan_word s frame last1 = - 1"
      | (hit) "words s" "scan_word s frame last1 \<noteq> - 1"
      | (skip) "\<not> words s" "used s frame" | (byte) "\<not> words s" "\<not> used s frame" by blast
    then show ?thesis
    proof cases
      case word
      have "find (\<lambda>f. \<not> used s f) [frame..<last1]
          = find (\<lambda>f. \<not> used s f) [(frame div 64 + 1) * 64..<last1]"
        using less_next_word [of frame] scan_word_full [OF word(2) lt] by (intro find_upt_skip) auto
      with 1(1) [OF lt word(1) refl word(2)] lt word show ?thesis by (simp add: unfold)
    next
      case hit
      then have "find (\<lambda>f. \<not> used s f) [frame..<last1]
          = Some (frame div 64 * 64 + trailing_zeros (NOT (scan_word s frame last1)))"
        using scan_word_first [OF hit(2) lt] by (auto simp: find_upt_Some)
      with lt hit show ?thesis by (simp add: unfold)
    next
      case skip
      then have "find (\<lambda>f. \<not> used s f) [frame..<last1] = find (\<lambda>f. \<not> used s f) [frame + 1..<last1]"
        by (intro find_upt_skip) (auto simp: less_Suc_eq_le dest: le_antisym)
      with 1(2) [OF lt skip] lt skip show ?thesis by (simp add: unfold)
    next
      case byte
      then have "find (\<lambda>f. \<not> used s f) [frame..<last1] = Some frame"
        using lt by (auto simp: find_upt_Some)
      with lt byte show ?thesis by (simp add: unfold)
    qed
  qed
qed

lemma take_first_skip:
  "find (free_frame s) fs = None \<Longrightarrow> take_first s (fs @ gs) = take_first s gs"
  by (simp add: take_first_def find_append)

lemma take_first_hit:
  "find (free_frame s) fs = Some f \<Longrightarrow> take_first s (fs @ gs) = take_frame s f"
  by (simp add: take_first_def find_append)

lemma scan_word_whole:
  assumes "start < 64"
  shows "scan_word s (index * 64 + start) ((index + 1) * 64) =
     (if start \<noteq> 0 then word_at (bitmap s) index OR (push_bit start 1 - 1) else word_at (bitmap s) index)"
  using assms by (simp add: scan_word_def Let_def)

lemma word_find:
  fixes s :: phys_state and index start :: nat
  assumes "start < 64"
  defines "w \<equiv> (if start \<noteq> 0 then word_at (bitmap s) index OR (push_bit start 1 - 1)
                else word_at (bitmap s) index)"
  shows "find (free_frame s) [index * 64 + start..<(index + 1) * 64] =
     (if w \<noteq> - 1 \<and> index * 64 + trailing_zeros (NOT w) < frame_total s
      then Some (index * 64 + trailing_zeros (NOT w)) else None)"
proof -
  let ?lo = "index * 64 + start" and ?hi = "(index + 1) * 64"
  have lt: "?lo < ?hi" using assms(1) by simp
  have w: "scan_word s ?lo ?hi = w" unfolding w_def by (rule scan_word_whole [OF assms(1)])
  have base: "?lo div 64 * 64 = index * 64" "?lo div 64 = index" using assms(1) by simp_all
  show ?thesis
  proof (cases "w = - 1")
    case True
    then have "find (free_frame s) [?lo..<?hi] = None"
      using scan_word_full [of s ?lo ?hi] w lt base by (auto simp: find_upt_None free_frame_def)
    with True show ?thesis by simp
  next
    case False
    define f where "f = index * 64 + trailing_zeros (NOT w)"
    have f: "?lo \<le> f" "f < ?hi" "\<not> used s f" "\<And>g. ?lo \<le> g \<Longrightarrow> g < f \<Longrightarrow> used s g"
      using scan_word_first [of s ?lo ?hi] False lt unfolding w base f_def by auto
    show ?thesis
    proof (cases "f < frame_total s")
      case True
      then have "find (free_frame s) [?lo..<?hi] = Some f"
        using f by (auto simp: find_upt_Some free_frame_def)
      with True False show ?thesis by (simp add: f_def)
    next
      case ge: False
      have "\<not> free_frame s g" if "?lo \<le> g" for g
        using f(4) [OF that] ge by (cases "g < f") (auto simp: free_frame_def)
      then have "find (free_frame s) [?lo..<?hi] = None" by (auto simp: find_upt_None)
      with ge show ?thesis by (simp add: f_def)
    qed
  qed
qed

lemma alloc_any_loop_eq:
  assumes "used s 0" and "start < 64"
  shows "alloc_any_loop s count scanned index start =
     take_first s (scan_order count (Suc count - scanned) index start)"
  using assms
proof (induction s count scanned index start rule: alloc_any_loop.induct)
  case (1 s count scanned index0 start0)
  show ?case
  proof (cases "scanned \<le> count")
    case False
    then show ?thesis by (simp add: alloc_any_loop.simps take_first_def)
  next
    case True
    define index where "index = (if count \<le> index0 then 0 else index0)"
    define start where "start = (if count \<le> index0 then 0 else start0)"
    define w where "w = (if start \<noteq> 0 then word_at (bitmap s) index OR (push_bit start 1 - 1)
       else word_at (bitmap s) index)"
    define b where "b = trailing_zeros (NOT w)"
    have start: "start < 64" using 1(4) by (simp add: start_def)
    have rest: "Suc count - scanned = Suc (Suc count - (scanned + 1))" using True by simp
    have order: "scan_order count (Suc count - scanned) index0 start0 =
        [index * 64 + start..<(index + 1) * 64] @
        scan_order count (Suc count - (scanned + 1)) (index + 1) 0"
      unfolding rest by (simp add: index_def start_def)
    note wf = word_find [OF start, of s index, folded w_def b_def]
    have f0: "\<not> (w \<noteq> - 1 \<and> index * 64 + b = 0)"
    proof
      assume h: "w \<noteq> - 1 \<and> index * 64 + b = 0"
      then have "\<not> bit w 0" using first_clear(2) [of w] by (simp add: b_def)
      then have "\<not> bit (word_at (bitmap s) index) 0" by (auto simp: w_def bit_or_iff split: if_splits)
      then show False using h 1(3) bit_word_at_used [of 0 s 0] by simp
    qed
    have step: "alloc_any_loop s count scanned index0 start0 =
       (if w \<noteq> - 1 \<and> index * 64 + b < frame_total s then take_frame s (index * 64 + b)
        else alloc_any_loop s count (scanned + 1) (index + 1) 0)"
      using True f0 first_clear(1) [of w, folded b_def]
      unfolding alloc_any_loop.simps [of s count scanned index0 start0] Let_def
        index_def [symmetric] start_def [symmetric] w_def [symmetric] b_def [symmetric]
      by (auto simp: write_bit_set_used take_frame_def Let_def simp del: push_bit_of_1)
    show ?thesis
    proof (cases "w \<noteq> - 1 \<and> index * 64 + b < frame_total s")
      case hit: True
      then show ?thesis using wf unfolding step order
        by (simp add: take_first_hit)
    next
      case miss: False
      have "alloc_any_loop s count (scanned + 1) (index + 1) 0 =
         take_first s (scan_order count (Suc count - (scanned + 1)) (index + 1) 0)"
        using 1(2) [OF True index_def start_def refl w_def b_def refl f0] miss 1(3) by auto
      with miss wf show ?thesis unfolding step order by (auto simp: take_first_skip)
    qed
  qed
qed

lemma scan_order_run:
  "index + n \<le> count \<Longrightarrow> scan_order count n index 0 = [index * 64..<(index + n) * 64]"
proof (induction n arbitrary: index)
  case 0
  then show ?case by simp
next
  case (Suc n)
  have "scan_order count n (index + 1) 0 = [(index + 1) * 64..<(index + 1 + n) * 64]"
    using Suc.prems by (intro Suc.IH) simp
  then have "scan_order count (Suc n) index 0
      = [index * 64..<(index + 1) * 64] @ [(index + 1) * 64..<(index + 1 + n) * 64]"
    using Suc.prems by simp
  also have "\<dots> = [index * 64..<(index + 1 + n) * 64]"
    by (rule upt_append) simp_all
  finally show ?case by simp
qed

lemma scan_order_wrap:
  "index \<le> count \<Longrightarrow> count - index \<le> n \<Longrightarrow>
   scan_order count n index 0 =
     [index * 64..<count * 64] @ scan_order count (n - (count - index)) count 0"
proof (induction "count - index" arbitrary: index n)
  case 0
  then show ?case by simp
next
  case (Suc d)
  then obtain m where m: "n = Suc m" by (cases n) auto
  have "scan_order count m (index + 1) 0 =
     [(index + 1) * 64..<count * 64] @ scan_order count (m - (count - (index + 1))) count 0"
    using Suc m by (intro Suc(1)) auto
  then have "scan_order count n index 0 = ([index * 64..<(index + 1) * 64] @ [(index + 1) * 64..<count * 64])
       @ scan_order count (m - (count - (index + 1))) count 0"
  proof -
    have "\<not> count \<le> index" using Suc(2) by linarith
    then show ?thesis using \<open>scan_order count m (index + 1) 0 = _\<close> m by simp
  qed
  also have "[index * 64..<(index + 1) * 64] @ [(index + 1) * 64..<count * 64] = [index * 64..<count * 64]"
    using Suc(2) by (intro upt_append) auto
  finally show ?case using Suc(2) m by simp
qed

lemma scan_order_restart:
  assumes "m \<le> count"
  shows "scan_order count m count 0 = [0..<m * 64]"
proof (cases m)
  case (Suc k)
  then have "scan_order count m count 0 = [0..<64] @ [64..<m * 64]"
    using assms scan_order_run [of 1 k count] by simp
  also have "\<dots> = [0..<m * 64]" using Suc by (intro upt_append) auto
  finally show ?thesis .
qed simp

lemma scan_order_full:
  assumes "start < 64"
  shows "scan_order count (Suc count) index start =
     (if index < count then [index * 64 + start..<count * 64] @ [0..<(index + 1) * 64]
      else [0..<max count 1 * 64] @ [0..<min count 1 * 64])"
proof (cases "index < count")
  case True
  have "scan_order count count (index + 1) 0 = [(index + 1) * 64..<count * 64] @ [0..<(index + 1) * 64]"
    using True scan_order_wrap [of "index + 1" count count] scan_order_restart [of "index + 1" count] by simp
  moreover have "[index * 64 + start..<(index + 1) * 64] @ [(index + 1) * 64..<count * 64]
      = [index * 64 + start..<count * 64]"
    using True assms by (intro upt_append) auto
  ultimately show ?thesis using True by (simp flip: append.assoc)
next
  case False
  show ?thesis
  proof (cases count)
    case (Suc c)
    have "scan_order count count 1 0 = [64..<count * 64] @ [0..<64]"
      using Suc scan_order_wrap [of 1 count count] scan_order_restart [of 1 count] by simp
    moreover have "[0..<64] @ [64..<count * 64] = [0..<count * 64]"
      using Suc by (intro upt_append) auto
    ultimately show ?thesis using False Suc by (simp flip: append.assoc)
  qed (use False in simp)
qed

lemma find_free_cut: "frame_total s \<le> b \<Longrightarrow> find (free_frame s) [a..<b] = find (free_frame s) [a..<frame_total s]"
proof (cases "find (free_frame s) [a..<frame_total s]")
  case None
  assume "frame_total s \<le> b"
  with None have "find (free_frame s) [a..<b] = None"
    by (auto simp: find_upt_None free_frame_def not_le)
  with None show ?thesis by simp
next
  case (Some f)
  assume "frame_total s \<le> b"
  with Some have "find (free_frame s) [a..<b] = Some f"
    by (auto simp: find_upt_Some free_frame_def not_le)
  with Some show ?thesis by simp
qed

lemma find_hint_order:
  assumes "min (next_hint s) (frame_total s) \<le> c" and "frame_total s \<le> b"
  shows "find (free_frame s) ([next_hint s..<b] @ [0..<c]) = find (free_frame s) (hint_order s)"
proof (cases "find (free_frame s) [next_hint s..<frame_total s]")
  case None
  then have "\<not> free_frame s f" if "min (next_hint s) (frame_total s) \<le> f" for f
    using that by (auto simp: find_upt_None free_frame_def min_def split: if_splits)
  then have "find (free_frame s) [0..<c] = find (free_frame s) [0..<min (next_hint s) (frame_total s)]"
    using assms(1) by (intro find_upt_prefix) auto
  with None show ?thesis by (simp add: hint_order_def find_append find_free_cut [OF assms(2)])
next
  case (Some f)
  then show ?thesis by (simp add: hint_order_def find_append find_free_cut [OF assms(2)])
qed

lemma alloc_any_words_eq:
  assumes "initialized s" and "words s" and "used s 0"
    and bytes: "frame_total s \<le> 8 * bitmap_bytes (stats s)"
  shows "alloc_any s = take_first s (hint_order s)"
proof -
  define count where "count = div_ceil (bitmap_bytes (stats s)) 8"
  define h where "h = next_hint s"
  have cnt: "frame_total s \<le> count * 64"
    using bytes div_ceil_bounds(1) [of 8 "bitmap_bytes (stats s)"] by (simp add: count_def)
  have h: "h div 64 * 64 + h mod 64 = h" "h mod 64 < 64" "h < (h div 64 + 1) * 64"
    using less_next_word [of h] by simp_all
  have "alloc_any s = take_first s (scan_order count (Suc count) (h div 64) (h mod 64))"
    using assms h alloc_any_loop_eq [of s "h mod 64" count 0 "h div 64"]
    by (simp add: alloc_any_def count_def h_def)
  also have "find (free_frame s) (scan_order count (Suc count) (h div 64) (h mod 64))
      = find (free_frame s) (hint_order s)"
  proof (cases "h div 64 < count")
    case True
    then show ?thesis unfolding scan_order_full [OF h(2)]
      using h(1,3) cnt find_hint_order [of s "(h div 64 + 1) * 64" "count * 64"] by (simp add: h_def)
  next
    case False
    then have "count * 64 \<le> h div 64 * 64" by simp
    then have "frame_total s \<le> h" using cnt h(1) by linarith
    then have order: "hint_order s = [0..<frame_total s]" by (simp add: hint_order_def h_def)
    have "find (free_frame s) [0..<max count 1 * 64] = find (free_frame s) [0..<frame_total s]"
      using cnt by (intro find_free_cut) (auto simp: max_def)
    moreover have "find (free_frame s) [0..<min count 1 * 64] = None"
      if "find (free_frame s) [0..<frame_total s] = None"
      using that by (auto simp: find_upt_None free_frame_def)
    ultimately show ?thesis unfolding scan_order_full [OF h(2)] order
      using False by (auto simp: find_append split: option.splits)
  qed
  then have "take_first s (scan_order count (Suc count) (h div 64) (h mod 64)) = take_first s (hint_order s)"
    by (simp add: take_first_def)
  finally show ?thesis .
qed

lemma alloc_linear_run:
  assumes "1 \<le> f" and "f + n \<le> frame_total s"
  shows "alloc_linear_loop n s f = take_first s [f..<f + n]"
  using assms
proof (induction n arbitrary: f)
  case 0
  then show ?case by (simp add: take_first_def)
next
  case (Suc n)
  have "[f..<f + Suc n] = f # [f + 1..<f + 1 + n]" by (simp add: upt_conv_Cons)
  with Suc show ?case by (auto simp: take_first_def free_frame_def)
qed

lemma alloc_linear_wrap:
  assumes "1 \<le> f" and "f \<le> frame_total s"
  shows "alloc_linear_loop (Suc (frame_total s - f + k)) s f =
     (case find (free_frame s) [f..<frame_total s] of
        Some g \<Rightarrow> take_frame s g | None \<Rightarrow> alloc_linear_loop k s 1)"
  using assms
proof (induction "frame_total s - f" arbitrary: f)
  case 0
  then show ?case by simp
next
  case (Suc d)
  then have lt: "f < frame_total s" and f0: "f \<noteq> 0" by auto
  have order: "[f..<frame_total s] = f # [f + 1..<frame_total s]" using lt by (simp add: upt_conv_Cons)
  have n: "frame_total s - f + k = Suc (frame_total s - (f + 1) + k)" using lt by simp
  have "alloc_linear_loop (frame_total s - f + k) s (f + 1) =
     (case find (free_frame s) [f + 1..<frame_total s] of
        Some g \<Rightarrow> take_frame s g | None \<Rightarrow> alloc_linear_loop k s 1)"
    unfolding n using Suc lt by (intro Suc(1)) auto
  then show ?case using lt f0 by (simp add: order free_frame_def Let_def)
qed

lemma alloc_linear_eq:
  assumes "used s 0"
  shows "alloc_linear s = take_first s (hint_order s)"
proof (cases "frame_total s = 0")
  case True
  then show ?thesis by (simp add: alloc_linear_def hint_order_def take_first_def)
next
  case pos: False
  then obtain m where m: "frame_total s = Suc m" by (cases "frame_total s") auto
  have z: "find (free_frame s) [0..<k] = find (free_frame s) [1..<k]" for k
    using assms find_upt_skip [of 0 1 k "free_frame s"] by (auto simp: free_frame_def)
  have from1: "alloc_linear_loop k s 1 = take_first s [0..<Suc k]" if "Suc k \<le> frame_total s" for k
    using that alloc_linear_run [of 1 k s] z [of "Suc k"] by (simp add: take_first_def)
  show ?thesis
  proof (cases "next_hint s = 0 \<or> frame_total s \<le> next_hint s")
    case True
    then have "alloc_linear s = alloc_linear_loop m s 1"
      using m by (auto simp: alloc_linear_def)
    moreover have "hint_order s = [0..<frame_total s]" using True by (auto simp: hint_order_def)
    ultimately show ?thesis using from1 [of m] m by simp
  next
    case False
    define h where "h = next_hint s"
    have h: "1 \<le> h" "h < frame_total s" using False by (auto simp: h_def)
    have "alloc_linear s = (case find (free_frame s) [h..<frame_total s] of
        Some g \<Rightarrow> take_frame s g | None \<Rightarrow> alloc_linear_loop (h - 1) s 1)"
    proof -
      have "frame_total s = Suc (frame_total s - h + (h - 1))" using h by simp
      with h alloc_linear_wrap [of h s "h - 1"] show ?thesis
        by (simp add: alloc_linear_def h_def)
    qed
    also have "\<dots> = take_first s ([h..<frame_total s] @ [0..<h])"
      using h from1 [of "h - 1"] by (simp add: take_first_def find_append split: option.splits)
    finally show ?thesis using h by (simp add: hint_order_def h_def)
  qed
qed

lemma alloc_any_eq:
  assumes "initialized s" and "used s 0" and "frame_total s \<le> 8 * bitmap_bytes (stats s)"
  shows "alloc_any s = take_first s (hint_order s)"
  using assms alloc_any_words_eq alloc_linear_eq by (cases "words s") (auto simp: alloc_any_def)

lemma run_free_iff: "run_free s count start \<longleftrightarrow> (\<forall>i<count. \<not> used s (start + i))"
  by (auto simp: run_free_def list_all_iff)

lemma free_run_props:
  assumes "offset \<le> count"
  shows "offset \<le> free_run s start count offset" and "free_run s start count offset \<le> count"
    and "\<And>i. offset \<le> i \<Longrightarrow> i < free_run s start count offset \<Longrightarrow> \<not> used s (start + i)"
    and "free_run s start count offset < count \<Longrightarrow> used s (start + free_run s start count offset)"
proof -
  have "offset \<le> free_run s start count offset \<and> free_run s start count offset \<le> count
     \<and> (\<forall>i. offset \<le> i \<and> i < free_run s start count offset \<longrightarrow> \<not> used s (start + i))
     \<and> (free_run s start count offset < count \<longrightarrow> used s (start + free_run s start count offset))"
    using assms
  proof (induction s start count offset rule: free_run.induct)
    case (1 s start count offset)
    show ?case
    proof (cases "offset < count \<and> \<not> used s (start + offset)")
      case True
      then have eq: "free_run s start count offset = free_run s start count (offset + 1)"
        by (subst free_run.simps) simp
      have "i = offset \<or> offset + 1 \<le> i" if "offset \<le> i" for i using that by auto
      with 1 True show ?thesis unfolding eq by (metis Suc_eq_plus1 Suc_leI Suc_leD)
    next
      case False
      then have "free_run s start count offset = offset" by (subst free_run.simps) auto
      with False 1(2) show ?thesis by auto
    qed
  qed
  then show "offset \<le> free_run s start count offset" and "free_run s start count offset \<le> count"
    and "\<And>i. offset \<le> i \<Longrightarrow> i < free_run s start count offset \<Longrightarrow> \<not> used s (start + i)"
    and "free_run s start count offset < count \<Longrightarrow> used s (start + free_run s start count offset)"
    by blast+
qed

lemma full_word_used:
  assumes "start AND 63 = 0" and "word_at (bitmap s) (start div 64) = - 1" and "b < 64"
  shows "used s (start + b)"
proof -
  have "start mod 64 = 0" using assms(1) by (simp add: and_63_mod)
  then have "start div 64 * 64 = start" using div_mult_mod_eq [of start 64] by linarith
  then show ?thesis using assms(2,3) bit_word_at_used [OF assms(3), of s "start div 64"]
    by (auto simp: all_ones_iff)
qed

lemma contiguous_loop_eq:
  assumes "0 < count" and "count \<le> last1"
  shows "contiguous_loop s count last1 start =
     (case find (run_free s count) [start..<Suc (last1 - count)] of
        None \<Rightarrow> Some (None, s) | Some st \<Rightarrow> take_run s count st)"
  using assms
proof (induction s count last1 start rule: contiguous_loop.induct)
  case (1 s count last1 start)
  note unfold = contiguous_loop.simps [of s count last1 start] Let_def
  show ?case
  proof (cases "start \<le> last1 - count")
    case False
    then show ?thesis by (simp add: unfold)
  next
    case le: True
    let ?full = "words s \<and> used s start \<and> start AND 63 = 0 \<and> word_at (bitmap s) (start div 64) = - 1"
    let ?off = "free_run s start count 0"
    note fr = free_run_props [where offset = 0 and count = count and s = s and start = start, simplified]
    consider (full) "?full" | (hit) "\<not> ?full" "?off = count" | (skip) "\<not> ?full" "?off \<noteq> count" by blast
    then show ?thesis
    proof cases
      case full
      have "\<not> run_free s count f" if "start \<le> f" "f < start + 64" for f
        using full_word_used [of start s "f - start"] that full 1(3)
        by (auto simp: run_free_iff intro!: exI [of _ 0])
      then have "find (run_free s count) [start..<Suc (last1 - count)]
          = find (run_free s count) [start + 64..<Suc (last1 - count)]"
        by (intro find_upt_skip) auto
      with 1(1) [OF le full 1(3,4)] le full show ?thesis by (simp add: unfold)
    next
      case hit
      then have "run_free s count start" using fr(3) hit(2) by (auto simp: run_free_iff)
      then have "find (run_free s count) [start..<Suc (last1 - count)] = Some start"
        using le by (auto simp: find_upt_Some simp del: upt_Suc)
      moreover have "contiguous_loop s count last1 start = take_run s count start"
        using le hit by (auto simp: unfold take_run_def)
      ultimately show ?thesis by simp
    next
      case skip
      then have u: "used s (start + ?off)" "?off < count" using fr(2,4) by auto
      have "\<not> run_free s count f" if "start \<le> f" "f < start + ?off + 1" for f
        using u that by (auto simp: run_free_iff intro!: exI [of _ "start + ?off - f"])
      then have "find (run_free s count) [start..<Suc (last1 - count)]
          = find (run_free s count) [start + ?off + 1..<Suc (last1 - count)]"
        by (intro find_upt_skip) auto
      with 1(2) [OF le skip(1) refl skip(2) 1(3,4)] le skip show ?thesis by (auto simp: unfold)
    qed
  qed
qed

lemma contiguous_between_eq:
  assumes "0 < count"
  shows "contiguous_between s count lo hi = first_run_between s count lo hi"
proof (cases "hi \<le> lo \<or> hi - lo < count")
  case True
  then have "find (\<lambda>st. st + count \<le> hi \<and> run_free s count st) [lo..<hi] = None"
    by (auto simp: find_upt_None)
  with True show ?thesis by (simp add: contiguous_between_def first_run_between_def)
next
  case False
  have "find (\<lambda>st. st + count \<le> hi \<and> run_free s count st) [lo..<hi]
      = find (run_free s count) [lo..<Suc (hi - count)]"
    using False assms by (intro find_cong_upt) auto
  moreover have "count \<le> hi" using False by linarith
  ultimately show ?thesis using False assms
    by (simp add: contiguous_between_def first_run_between_def contiguous_loop_eq del: upt_Suc)
qed

end
