(* ===== verification/Phys_Alloc.thy ===== *)
theory Phys_Alloc
  imports Phys_Scan
begin

text \<open>
  The contract of the frame allocator of \<open>src/Rust/memory/phys.rs\<close>: a pool of free frames with an
  exact count. \<open>takes s F t\<close> and \<open>gives s F t\<close> say that an operation moved exactly the frames \<open>F\<close>
  out of and into the free set of \<open>s\<close>; every operation is shown to be one of them, or to leave
  the pool alone, without panicking. The locale \<open>frame_pool\<close> is the interface the rest of the
  kernel relies on; its interpretation \<open>pmm\<close> on \<open>alloc_one\<close> and \<open>free_one\<close> gives the ownership
  theorem over every sequence of calls.
\<close>

section \<open>The abstract pool\<close>

definition free_set :: "phys_state \<Rightarrow> nat set" where
  "free_set s = {f. free_frame s f}"

definition phys_inv :: "phys_state \<Rightarrow> bool" where
  "phys_inv s \<longleftrightarrow> free_count s = card (free_set s) \<and> frame_total s \<le> 8 * bitmap_bytes (stats s)
     \<and> frame_total s \<le> 2 ^ 52"

definition same_shape :: "phys_state \<Rightarrow> phys_state \<Rightarrow> bool" where
  "same_shape s t \<longleftrightarrow> frame_total t = frame_total s \<and> bitmap_bytes (stats t) = bitmap_bytes (stats s)
     \<and> initialized t = initialized s \<and> bitmap_addr t = bitmap_addr s"

definition takes :: "phys_state \<Rightarrow> nat set \<Rightarrow> phys_state \<Rightarrow> bool" where
  "takes s F t \<longleftrightarrow> F \<subseteq> free_set s \<and> same_shape s t \<and> used t = (\<lambda>f. used s f \<or> f \<in> F)
     \<and> free_count t = free_count s - card F"

definition gives :: "phys_state \<Rightarrow> nat set \<Rightarrow> phys_state \<Rightarrow> bool" where
  "gives s F t \<longleftrightarrow> F \<inter> free_set s = {} \<and> F \<subseteq> {..<frame_total s} \<and> same_shape s t
     \<and> used t = (\<lambda>f. used s f \<and> f \<notin> F) \<and> free_count t = free_count s + card F"

definition alloc_spec :: "phys_state \<Rightarrow> (nat option \<times> phys_state) outcome \<Rightarrow> bool" where
  "alloc_spec s r \<longleftrightarrow>
     (\<exists>t. r = Some (None, t) \<and> takes s {} t) \<or>
     (\<exists>f t. r = Some (Some (f * FRAME), t) \<and> takes s {f} t)"

definition topo_ok :: "topology \<Rightarrow> bool" where
  "topo_ok t \<longleftrightarrow> (\<forall>cpu node. cpu_node t cpu = Some node \<longrightarrow> node < MAX_NODES)"

definition phys_ok :: "phys_state \<Rightarrow> bool" where
  "phys_ok s \<longleftrightarrow> phys_inv s \<and> initialized s \<and> used s 0"

definition extent_frames :: "extent \<Rightarrow> nat set" where
  "extent_frames e = {extent_base e div FRAME..<extent_base e div FRAME + extent_count e}"

fun extents_disjoint :: "extent list \<Rightarrow> bool" where
  "extents_disjoint [] = True"
| "extents_disjoint (e # es) =
     ((\<forall>d \<in> set es. extent_frames e \<inter> extent_frames d = {}) \<and> extents_disjoint es)"

definition releasable :: "phys_state \<Rightarrow> extent \<Rightarrow> bool" where
  "releasable s e \<longleftrightarrow> FRAME dvd extent_base e \<and> extent_base e \<noteq> 0 \<and> 0 < extent_count e
     \<and> extent_base e div FRAME + extent_count e \<le> frame_total s \<and> (\<forall>f \<in> extent_frames e. used s f)"


definition sample_phys :: phys_state where
  "sample_phys = (STATE_EMPTY 0 (\<lambda>i. if i = 0 then 0xf1 else 0xff))
     \<lparr>stats := STATS_EMPTY\<lparr>total_frames := 8, free_frames := 3, bitmap_bytes := 1\<rparr>, initialized := True\<rparr>"

definition sample_topology :: topology where
  "sample_topology = \<lparr>topo_reason = Known, node_count = 2, cpu_nodes = [Some 0, Some 1],
     ranges = [\<lparr>nr_base = 0, nr_end = 8192, nr_node = 0\<rparr>, \<lparr>nr_base = 8192, nr_end = 32768, nr_node = 1\<rparr>],
     range_count = 2, distances = (\<lambda>i j. if i = j then 10 else 20), slit_valid = True\<rparr>"

section \<open>Laws\<close>

lemma finite_free_set [simp]: "finite (free_set s)"
  by (rule finite_subset [of _ "{..<frame_total s}"]) (auto simp: free_set_def free_frame_def)

lemma free_set_iff: "f \<in> free_set s \<longleftrightarrow> f < frame_total s \<and> \<not> used s f"
  by (simp add: free_set_def free_frame_def)

lemma free_set_le: "card (free_set s) \<le> frame_total s"
proof -
  have "card (free_set s) \<le> card {..<frame_total s}"
    by (rule card_mono) (auto simp: free_set_iff)
  then show ?thesis by simp
qed

lemma same_shape_refl [simp]: "same_shape s s"
  by (simp add: same_shape_def)

lemma same_shape_trans: "same_shape s t \<Longrightarrow> same_shape t u \<Longrightarrow> same_shape s u"
  by (simp add: same_shape_def)

lemma takes_free_set: "takes s F t \<Longrightarrow> free_set t = free_set s - F"
  by (auto simp: takes_def same_shape_def free_set_iff)

lemma takes_inv: "takes s F t \<Longrightarrow> phys_inv s \<Longrightarrow> phys_inv t"
  using takes_free_set [of s F t]
  by (auto simp: takes_def phys_inv_def same_shape_def card_Diff_subset finite_subset [OF _ finite_free_set])

lemma gives_free_set: "gives s F t \<Longrightarrow> free_set t = free_set s \<union> F"
  by (auto simp: gives_def same_shape_def free_set_iff)

lemma gives_inv: "gives s F t \<Longrightarrow> phys_inv s \<Longrightarrow> phys_inv t"
proof -
  assume g: "gives s F t" and i: "phys_inv s"
  then have "finite F" by (auto simp: gives_def intro: finite_subset)
  then have "card (free_set s \<union> F) = card (free_set s) + card F"
    using g by (intro card_Un_disjoint) (auto simp: gives_def)
  then show ?thesis using g i gives_free_set [OF g]
    by (auto simp: gives_def phys_inv_def same_shape_def)
qed

lemma takes_refl [simp]: "takes s {} s"
  by (simp add: takes_def)

lemma gives_refl [simp]: "gives s {} s"
  by (simp add: gives_def)

lemma takes_trans: "takes s F t \<Longrightarrow> takes t G u \<Longrightarrow> takes s (F \<union> G) u"
proof -
  assume a: "takes s F t" "takes t G u"
  have "F \<inter> G = {}" using a takes_free_set [OF a(1)] by (auto simp: takes_def)
  moreover have "finite F" "finite G" using a finite_free_set by (auto simp: takes_def intro: finite_subset)
  ultimately have "card (F \<union> G) = card F + card G" by (simp add: card_Un_disjoint)
  then show ?thesis using a takes_free_set [OF a(1)]
    by (auto simp: takes_def intro: same_shape_trans)
qed

lemma gives_trans: "gives s F t \<Longrightarrow> gives t G u \<Longrightarrow> gives s (F \<union> G) u"
proof -
  assume a: "gives s F t" "gives t G u"
  have "F \<inter> G = {}" using a gives_free_set [OF a(1)] by (auto simp: gives_def)
  moreover have "finite F" "finite G" using a by (auto simp: gives_def intro: finite_subset)
  ultimately have "card (F \<union> G) = card F + card G" by (simp add: card_Un_disjoint)
  then show ?thesis using a gives_free_set [OF a(1)]
    by (auto simp: gives_def same_shape_def)
qed

text \<open>Updates that leave the bitmap and the counters of the pool alone.\<close>

lemma used_ignore [simp]:
  "used (s\<lparr>next_hint := h\<rparr>) = used s"
  "used (s\<lparr>local_hints := lh\<rparr>) = used s"
  "used (s\<lparr>local_exhausted := x\<rparr>) = used s"
  "used (s\<lparr>fault_reported := b\<rparr>) = used s"
  "used (s\<lparr>stats := st\<rparr>) = used s"
  by (simp_all add: used_def fun_eq_iff)

lemma set_free_simps [simp]:
  "used (set_free s n) = used s" "frame_total (set_free s n) = frame_total s"
  "free_count (set_free s n) = n" "same_shape s (set_free t n) = same_shape s t"
  "next_hint (set_free s n) = next_hint s"
  by (simp_all add: set_free_def same_shape_def)

lemma same_shape_ignore [simp]:
  "same_shape s (t\<lparr>next_hint := h\<rparr>) = same_shape s t"
  "same_shape s (t\<lparr>local_hints := lh\<rparr>) = same_shape s t"
  "same_shape s (t\<lparr>local_exhausted := x\<rparr>) = same_shape s t"
  "same_shape s (t\<lparr>fault_reported := b\<rparr>) = same_shape s t"
  by (simp_all add: same_shape_def)

lemma takes_ignore [simp]:
  "takes s F (t\<lparr>next_hint := h\<rparr>) = takes s F t"
  "takes s F (t\<lparr>local_hints := lh\<rparr>) = takes s F t"
  "takes s F (t\<lparr>local_exhausted := x\<rparr>) = takes s F t"
  by (simp_all add: takes_def)

lemma gives_ignore [simp]:
  "gives s F (t\<lparr>next_hint := h\<rparr>) = gives s F t"
  by (simp_all add: gives_def)

lemma set_used_simps [simp]:
  "frame_total (set_used s f u) = frame_total s" "free_count (set_used s f u) = free_count s"
  "same_shape s (set_used t f u) = same_shape s t"
  "next_hint (set_used s f u) = next_hint s"
  by (simp_all add: set_used_def Let_def same_shape_def)

lemma free_count_pos: "phys_inv s \<Longrightarrow> f \<in> free_set s \<Longrightarrow> 0 < free_count s"
  by (auto simp: phys_inv_def card_gt_0_iff)

lemma take_frame_takes:
  assumes "phys_inv s" and "f \<in> free_set s"
  shows "\<exists>t. take_frame s f = Some (Some (f * FRAME), t) \<and> takes s {f} t"
  using assms free_count_pos [OF assms]
  by (auto simp: take_frame_def takes_def used_set_used fun_eq_iff Let_def)

lemma take_first_takes:
  assumes "phys_inv s"
  shows "case find (free_frame s) fs of
       None \<Rightarrow> take_first s fs = Some (None, s) \<and> free_set s \<inter> set fs = {}
     | Some f \<Rightarrow> \<exists>t. take_first s fs = Some (Some (f * FRAME), t) \<and> takes s {f} t"
proof (cases "find (free_frame s) fs")
  case None
  then have "free_set s \<inter> set fs = {}" by (auto simp: find_None_iff free_set_def)
  with None show ?thesis by (simp add: take_first_def)
next
  case (Some f)
  then have "free_frame s f" by (auto simp: find_Some_iff)
  with Some show ?thesis using take_frame_takes [OF assms, of f]
    by (simp add: take_first_def free_set_def)
qed

text \<open>What every single-frame search promises.\<close>

lemma alloc_any_spec:
  assumes "phys_inv s" "initialized s" "used s 0"
  shows "free_set s = {} \<Longrightarrow> alloc_any s = Some (None, s)"
    and "free_set s \<noteq> {} \<Longrightarrow> \<exists>f t. alloc_any s = Some (Some (f * FRAME), t) \<and> takes s {f} t"
proof -
  have eq: "alloc_any s = take_first s (hint_order s)"
    using assms by (intro alloc_any_eq) (auto simp: phys_inv_def)
  have all: "set (hint_order s) = {..<frame_total s}" by (auto simp: hint_order_def)
  note tf = take_first_takes [OF assms(1), of "hint_order s"]
  show "alloc_any s = Some (None, s)" if "free_set s = {}"
    using tf that by (auto simp: eq takes_def split: option.splits)
  show "\<exists>f t. alloc_any s = Some (Some (f * FRAME), t) \<and> takes s {f} t" if "free_set s \<noteq> {}"
    using tf that all by (auto simp: eq free_set_iff split: option.splits)
qed

lemma alloc_between_spec:
  assumes "phys_inv s" and "hi \<le> frame_total s"
  shows "alloc_spec s (alloc_between s lo hi)"
proof (cases "find (\<lambda>f. \<not> used s f) [lo..<hi]")
  case None
  then show ?thesis by (auto simp: alloc_between_eq first_free_between_def alloc_spec_def)
next
  case (Some f)
  then have "f \<in> free_set s" using assms(2) by (auto simp: find_upt_Some free_set_iff)
  with Some show ?thesis using take_frame_takes [OF assms(1)]
    by (auto simp: alloc_between_eq first_free_between_def alloc_spec_def)
qed

lemma alloc_ranges_spec:
  assumes "phys_inv s" and "node < MAX_NODES"
  shows "alloc_spec s (alloc_ranges s second hint node rs)"
proof (induction rs)
  case Nil
  then show ?case by (auto simp: alloc_spec_def)
next
  case (Cons r rs)
  show ?case
  proof (cases "nr_node r = node")
    case False
    with Cons show ?thesis by simp
  next
    case True
    define lo where "lo = (if second then max (div_ceil (nr_base r) FRAME) 1
       else max (max (div_ceil (nr_base r) FRAME) 1) hint)"
    define hi where "hi = (if second then min (min (nr_end r div FRAME) (frame_total s)) hint
       else min (nr_end r div FRAME) (frame_total s))"
    have eq: "alloc_ranges s second hint node (r # rs) = do {
             (found, s1) \<leftarrow> alloc_between s lo hi;
             case found of
               Some frame \<Rightarrow> do {
                 hints \<leftarrow> index_set MAX_NODES (local_hints s1) node (frame div FRAME + 1);
                 Some (Some frame, s1\<lparr>local_hints := hints\<rparr>)
               }
             | None \<Rightarrow> alloc_ranges s1 second hint node rs
           }"
      using True by (simp add: lo_def hi_def Let_def)
    have "hi \<le> frame_total s" by (auto simp: hi_def)
    show ?thesis
    proof (cases "find (\<lambda>f. \<not> used s f) [lo..<hi]")
      case None
      then have "alloc_between s lo hi = Some (None, s)"
        by (simp add: alloc_between_eq first_free_between_def)
      then show ?thesis using Cons unfolding eq by simp
    next
      case (Some f)
      then have "f \<in> free_set s" using \<open>hi \<le> frame_total s\<close> by (auto simp: find_upt_Some free_set_iff)
      then obtain t where t: "take_frame s f = Some (Some (f * FRAME), t)" "takes s {f} t"
        using take_frame_takes [OF assms(1)] by blast
      have "alloc_between s lo hi = Some (Some (f * FRAME), t)"
        using Some t by (simp add: alloc_between_eq first_free_between_def)
      then show ?thesis using assms(2) t unfolding eq alloc_spec_def by auto
    qed
  qed
qed

lemma local_memory_node:
  "topo_ok t \<Longrightarrow> local_memory_of t cpu = Some loc \<Longrightarrow> local_node loc < MAX_NODES"
  by (auto simp: topo_ok_def local_memory_of_def split: if_splits option.splits)

lemma alloc_local_spec:
  assumes "phys_inv s" and node: "local_node loc < MAX_NODES"
  shows "alloc_spec s (alloc_local s loc)"
proof (cases "local_exhausted s AND push_bit (local_node loc) 1 = 0")
  case False
  then show ?thesis using node by (simp add: alloc_local_def alloc_spec_def Let_def)
next
  case True
  let ?hint = "local_hints s (local_node loc)"
  have "alloc_spec s (alloc_ranges s False ?hint (local_node loc) (local_ranges loc))"
    by (rule alloc_ranges_spec [OF assms])
  then consider (miss) t where
      "alloc_ranges s False ?hint (local_node loc) (local_ranges loc) = Some (None, t)" "takes s {} t"
    | (hit) f t where "alloc_ranges s False ?hint (local_node loc) (local_ranges loc)
        = Some (Some (f * FRAME), t)" "takes s {f} t"
    unfolding alloc_spec_def by blast
  then show ?thesis
  proof cases
    case hit
    then show ?thesis using True node by (auto simp: alloc_local_def alloc_spec_def Let_def)
  next
    case (miss t)
    then have inv: "phys_inv t" using takes_inv assms(1) by blast
    have "alloc_spec t (alloc_ranges t True ?hint (local_node loc) (local_ranges loc))"
      by (rule alloc_ranges_spec [OF inv node])
    then consider (miss2) u where
        "alloc_ranges t True ?hint (local_node loc) (local_ranges loc) = Some (None, u)" "takes t {} u"
      | (hit2) f u where "alloc_ranges t True ?hint (local_node loc) (local_ranges loc)
          = Some (Some (f * FRAME), u)" "takes t {f} u"
      unfolding alloc_spec_def by blast
    then show ?thesis
    proof cases
      case miss2
      then have "takes s {} u" using takes_trans [OF miss(2)] by fastforce
      with miss miss2 True node show ?thesis by (auto simp: alloc_local_def alloc_spec_def Let_def)
    next
      case (hit2 f u)
      then have "takes s {f} u" using takes_trans [OF miss(2)] by fastforce
      with miss hit2 True node show ?thesis by (auto simp: alloc_local_def alloc_spec_def Let_def)
    qed
  qed
qed

lemma phys_ok_takes: "phys_ok s \<Longrightarrow> takes s F t \<Longrightarrow> phys_ok t"
  using takes_inv [of s F t] by (auto simp: phys_ok_def takes_def same_shape_def)

lemma alloc_one_hit:
  assumes "topo_ok topo" and "phys_ok s" and "free_set s \<noteq> {}"
  shows "\<exists>f t. alloc_one topo cpu s = Some (Some (f * FRAME), t) \<and> takes s {f} t"
proof -
  have inv: "phys_inv s" and ini: "initialized s" and z: "used s 0" using assms(2) by (auto simp: phys_ok_def)
  have fc: "free_count s \<noteq> 0" using assms(3) free_count_pos [OF inv] by auto
  show ?thesis
  proof (cases "local_memory_of topo cpu")
    case None
    then show ?thesis using alloc_any_spec(2) [OF inv ini z assms(3)] fc ini by (auto simp: alloc_one_def)
  next
    case (Some loc)
    have "alloc_spec s (alloc_local s loc)"
      using alloc_local_spec [OF inv local_memory_node [OF assms(1) Some]] .
    then consider (miss) t where "alloc_local s loc = Some (None, t)" "takes s {} t"
      | (hit) f t where "alloc_local s loc = Some (Some (f * FRAME), t)" "takes s {f} t"
      unfolding alloc_spec_def by blast
    then show ?thesis
    proof cases
      case hit
      then show ?thesis using Some fc ini by (auto simp: alloc_one_def)
    next
      case (miss t)
      then have "phys_ok t" "free_set t \<noteq> {}"
        using phys_ok_takes [OF assms(2)] takes_free_set assms(3) by auto
      then obtain f u where u: "alloc_any t = Some (Some (f * FRAME), u)" "takes t {f} u"
        using alloc_any_spec(2) [of t] by (auto simp: phys_ok_def)
      have "takes s {f} u" using takes_trans [OF miss(2) u(2)] by simp
      then show ?thesis using Some fc ini miss u by (auto simp: alloc_one_def)
    qed
  qed
qed

lemma alloc_one_miss:
  assumes "phys_ok s" and "free_set s = {}"
  shows "alloc_one topo cpu s = Some (None, s)"
  using assms by (auto simp: alloc_one_def phys_ok_def phys_inv_def)

lemma free_one_gives:
  assumes "phys_ok s" and "f < frame_total s" and "used s f"
  shows "\<exists>t. free_one s (f * FRAME) = Some (0, t) \<and> gives s {f} t"
proof -
  have "free_count s + 1 \<le> U64_MAX"
    using assms(1) free_set_le [of s] by (simp add: phys_ok_def phys_inv_def)
  then show ?thesis using assms
    by (auto simp: free_one_def phys_ok_def Let_def gives_def used_set_used fun_eq_iff free_set_iff)
qed

lemma phys_ok_gives: "phys_ok s \<Longrightarrow> gives s F t \<Longrightarrow> 0 \<notin> F \<Longrightarrow> phys_ok t"
  using gives_inv [of s F t] by (auto simp: phys_ok_def gives_def same_shape_def)

text \<open>A double free, a misaligned address and an address past the last frame change nothing.\<close>

lemma free_one_error:
  assumes "initialized s" and "\<not> FRAME dvd a \<or> frame_total s \<le> a div FRAME \<or> \<not> used s (a div FRAME)"
  shows "\<exists>k t. free_one s a = Some (k, t) \<and> used t = used s \<and> free_count t = free_count s \<and> same_shape s t"
  using assms
  by (auto simp: free_one_def fault_def bad_free_def double_free_def same_shape_def Let_def)

lemma use_frames_simps [simp]:
  "frame_total (use_frames s fs) = frame_total s" "free_count (use_frames s fs) = free_count s"
  "same_shape s (use_frames t fs) = same_shape s t"
  by (induction fs arbitrary: s t) simp_all




lemma clear_frames_gives:
  assumes "phys_inv s" and "distinct fs" and "set fs \<subseteq> {..<frame_total s}"
  shows "\<exists>t. clear_frames fs s = Some t \<and> gives s {f \<in> set fs. used s f} t"
  using assms
proof (induction fs arbitrary: s)
  case Nil
  then show ?case by auto
next
  case (Cons f fs)
  show ?case
  proof (cases "used s f")
    case False
    then have "{g \<in> set (f # fs). used s g} = {g \<in> set fs. used s g}" by auto
    then show ?thesis using Cons False by simp
  next
    case True
    let ?s1 = "set_free (set_used s f False) (free_count s + 1)"
    have b: "free_count s + 1 \<le> U64_MAX"
      using Cons.prems(1) free_set_le [of s] by (simp add: phys_inv_def)
    have g1: "gives s {f} ?s1"
      using Cons.prems(3) True by (auto simp: gives_def used_set_used fun_eq_iff free_set_iff)
    then have "phys_inv ?s1" using Cons.prems(1) gives_inv by blast
    then obtain t where t: "clear_frames fs ?s1 = Some t" "gives ?s1 {g \<in> set fs. used ?s1 g} t"
      using Cons.IH [of ?s1] Cons.prems by auto
    have "{g \<in> set fs. used ?s1 g} = {g \<in> set fs. used s g}"
      using Cons.prems(2) by (auto simp: used_set_used)
    then have "gives s ({f} \<union> {g \<in> set fs. used s g}) t" using gives_trans [OF g1] t(2) by simp
    moreover have "{f} \<union> {g \<in> set fs. used s g} = {g \<in> set (f # fs). used s g}" using True by auto
    ultimately show ?thesis using t(1) b True by (auto simp: Let_def)
  qed
qed

lemma free_contiguous_gives:
  assumes "phys_inv s" and "initialized s" and "FRAME dvd a" and "0 < count"
    and "a div FRAME + count \<le> frame_total s"
  shows "\<exists>t. free_contiguous s a count = Some t
      \<and> gives s {f. a div FRAME \<le> f \<and> f < a div FRAME + count \<and> used s f} t"
proof -
  let ?fs = "[a div FRAME..<a div FRAME + count]"
  have "a div FRAME + count \<le> U64_MAX" using assms(1,5) by (simp add: phys_inv_def)
  moreover obtain t where "clear_frames ?fs s = Some t" "gives s {f \<in> set ?fs. used s f} t"
  proof -
    have "set ?fs \<subseteq> {..<frame_total s}" using assms(5) by auto
    with clear_frames_gives [OF assms(1), of ?fs] that show ?thesis by auto
  qed
  moreover have "{f \<in> set ?fs. used s f} = {f. a div FRAME \<le> f \<and> f < a div FRAME + count \<and> used s f}"
    by auto
  ultimately show ?thesis using assms by (auto simp: free_contiguous_def Let_def)
qed

lemma overlaps_extent_iff:
  assumes "0 < extent_count d" "0 < extent_count e"
  shows "overlaps_extent (extent_base e div FRAME) (extent_base e div FRAME + extent_count e) d
     \<longleftrightarrow> extent_frames e \<inter> extent_frames d \<noteq> {}"
proof -
  define a b where "a = extent_base e div FRAME" and "b = extent_base d div FRAME"
  have "a < b + extent_count d \<and> b < a + extent_count e \<longleftrightarrow>
     (\<exists>x. a \<le> x \<and> x < a + extent_count e \<and> b \<le> x \<and> x < b + extent_count d)"
    using assms by (auto intro!: exI [of _ "max a b"])
  then show ?thesis
    by (auto simp: overlaps_extent_def extent_frames_def Let_def a_def b_def)
qed

lemma check_extents_True:
  assumes "check_extents s pages earlier es = (True, t)" and "frame_total s \<le> 2 ^ 52"
    and "\<forall>d \<in> set earlier. 0 < extent_count d"
  shows "t = s \<and> (\<forall>e \<in> set es. releasable s e) \<and> extents_disjoint es
     \<and> (\<forall>d \<in> set earlier. \<forall>e \<in> set es. extent_frames d \<inter> extent_frames e = {})
     \<and> pages + sum_list (map extent_count es) \<le> max pages MAX_EXTENT_PAGES"
  using assms
proof (induction s pages earlier es rule: check_extents.induct)
  case (1 s pages earlier)
  then show ?case by auto
next
  case (2 s pages earlier e rest)
  let ?first = "extent_base e div FRAME"
  have ok: "extent_base e \<noteq> 0" "FRAME dvd extent_base e" "0 < extent_count e"
    using 2(2) by (auto simp: Let_def split: if_splits option.splits)
  obtain fin where e: "checked_add64 ?first (extent_count e) = Some fin"
    using 2(2) ok by (auto simp: Let_def split: if_splits option.splits)
  then have fin: "fin = ?first + extent_count e" by (simp add: checked_add64_eq_Some)
  have c: "\<not> MAX_EXTENT_PAGES < pages + extent_count e" "fin \<le> frame_total s"
    "\<not> list_ex (overlaps_extent ?first fin) earlier"
    "\<not> list_ex (\<lambda>frame. \<not> used s frame) [?first ..< fin]"
    and rec: "check_extents s (pages + extent_count e) (earlier @ [e]) rest = (True, t)"
    using 2(2) ok e by (auto simp: Let_def split: if_splits option.splits)
  have rel: "releasable s e"
    using ok c fin by (auto simp: releasable_def extent_frames_def list_ex_iff)
  have dis: "extent_frames d \<inter> extent_frames e = {}" if "d \<in> set earlier" for d
    using overlaps_extent_iff [of d e] c(3) that 2(4) ok(3) fin by (auto simp: list_ex_iff)
  have "t = s \<and> (\<forall>e \<in> set rest. releasable s e) \<and> extents_disjoint rest
     \<and> (\<forall>d \<in> set (earlier @ [e]). \<forall>e \<in> set rest. extent_frames d \<inter> extent_frames e = {})
     \<and> pages + extent_count e + sum_list (map extent_count rest)
        \<le> max (pages + extent_count e) MAX_EXTENT_PAGES"
  proof (rule 2(1) [OF _ refl refl e])
    show "\<not> (extent_base e = 0 \<or> \<not> FRAME dvd extent_base e \<or> extent_count e = 0 \<or>
        MAX_EXTENT_PAGES < extent_count e)" using ok c(1) by auto
  qed (use c rec 2(3,4) ok in auto)
  then show ?case using rel dis c(1) by auto
qed

lemma check_extents_used: "check_extents s pages earlier es = (b, t) \<Longrightarrow>
    used t = used s \<and> same_shape s t \<and> free_count t = free_count s \<and> next_hint t = next_hint s"
proof (induction s pages earlier es rule: check_extents.induct)
  case (2 s pages earlier e rest)
  then show ?case
    by (auto simp: Let_def bad_free_def double_free_def same_shape_def split: if_splits option.splits)
qed auto

lemma note_freed_simps [simp]:
  "used (note_freed s n) = used s" "gives s F (note_freed t n) = gives s F t"
  "free_count (note_freed s n) = free_count s" "frame_total (note_freed s n) = frame_total s"
  by (simp_all add: note_freed_def gives_def same_shape_def)

lemma release_all_gives:
  assumes "phys_inv s" and "initialized s" and "\<forall>e \<in> set es. releasable s e" and "extents_disjoint es"
  shows "\<exists>t. release_all es s = Some t \<and> gives s (\<Union>(extent_frames ` set es)) t"
  using assms
proof (induction es arbitrary: s)
  case Nil
  then show ?case by simp
next
  case (Cons e es)
  have rel: "releasable s e" using Cons.prems(3) by simp
  then have fr: "{f. extent_base e div FRAME \<le> f \<and> f < extent_base e div FRAME + extent_count e \<and> used s f}
      = extent_frames e" by (auto simp: releasable_def extent_frames_def)
  obtain t where t: "free_contiguous s (extent_base e) (extent_count e) = Some t" "gives s (extent_frames e) t"
    using free_contiguous_gives [OF Cons.prems(1,2), of "extent_base e" "extent_count e"] rel
    unfolding fr by (auto simp: releasable_def)
  let ?t = "note_freed t (extent_count e)"
  have g: "gives s (extent_frames e) ?t" using t(2) by simp
  then have "phys_inv ?t" "initialized ?t"
    using Cons.prems(1,2) gives_inv by (auto simp: gives_def same_shape_def)
  moreover have "\<forall>d \<in> set es. releasable ?t d"
    using Cons.prems(3,4) t(2) by (fastforce simp: releasable_def gives_def same_shape_def)
  ultimately obtain u where "release_all es ?t = Some u" "gives ?t (\<Union>(extent_frames ` set es)) u"
    using Cons.IH [of ?t] Cons.prems(4) by auto
  then show ?case using t(1) gives_trans [OF g] by auto
qed

lemma release_extents_valid_cases:
  assumes "phys_inv s"
  obtains (ok) "release_extents_valid s es = (True, s)" "\<forall>e \<in> set es. releasable s e"
      "extents_disjoint es" "sum_list (map extent_count es) \<le> MAX_EXTENT_PAGES" "initialized s"
    | (bad) t where "release_extents_valid s es = (False, t)" "used t = used s" "same_shape s t"
      "free_count t = free_count s"
proof (cases "initialized s \<and> es \<noteq> [] \<and> length es \<le> MAX_EXTENT_PAGES")
  case False
  show ?thesis
  proof (cases "initialized s")
    case True
    with False have "release_extents_valid s es = (False, bad_free s)"
      by (auto simp: release_extents_valid_def)
    then show ?thesis by (rule bad) (auto simp: bad_free_def fault_def same_shape_def used_def fun_eq_iff)
  next
    case False
    then have "release_extents_valid s es = (False, s)" by (simp add: release_extents_valid_def)
    then show ?thesis by (rule bad) (auto simp: same_shape_def)
  qed
next
  case True
  then have eq: "release_extents_valid s es = check_extents s 0 [] es"
    by (simp add: release_extents_valid_def)
  obtain b t where bt: "check_extents s 0 [] es = (b, t)" by fastforce
  show ?thesis
  proof (cases b)
    case b: True
    then show ?thesis using ok True bt eq check_extents_True [of s 0 "[]" es t] assms
      by (auto simp: phys_inv_def)
  next
    case False
    then show ?thesis using bad bt eq check_extents_used [OF bt] by auto
  qed
qed

lemma extend_extent_takes:
  assumes "phys_inv s" and "bound \<le> frame_total s" and "count \<le> m"
  shows "\<exists>n t. extend_extent s start bound m count = Some (n, t) \<and> count \<le> n \<and> n \<le> m
     \<and> (start + count \<le> bound \<longrightarrow> start + n \<le> bound) \<and> takes s {start + count..<start + n} t"
  using assms
proof (induction s start bound m count rule: extend_extent.induct)
  case (1 s start bound m count)
  show ?case
  proof (cases "count < m \<and> start + count < bound \<and> \<not> used s (start + count)")
    case False
    then have "extend_extent s start bound m count = Some (count, s)"
      by (subst extend_extent.simps) auto
    then show ?thesis using 1(4) by auto
  next
    case True
    let ?f = "start + count"
    let ?s1 = "set_free (set_used s ?f True) (free_count s - 1)"
    have f: "?f \<in> free_set s" using True 1(3) by (simp add: free_set_iff)
    have pos: "0 < free_count s" by (rule free_count_pos [OF 1(2) f])
    have t1: "takes s {?f} ?s1" using f by (auto simp: takes_def used_set_used fun_eq_iff)
    have eq: "extend_extent s start bound m count = extend_extent ?s1 start bound m (count + 1)"
      using True pos by (subst extend_extent.simps) (simp add: Let_def)
    have sub: "sub_unsigned (free_count (set_used s ?f True)) 1 = Some (free_count s - 1)" using pos by simp
    have "\<exists>n t. extend_extent ?s1 start bound m (count + 1) = Some (n, t) \<and> count + 1 \<le> n \<and> n \<le> m
       \<and> (start + (count + 1) \<le> bound \<longrightarrow> start + n \<le> bound)
       \<and> takes ?s1 {start + (count + 1)..<start + n} t"
      using 1(1) [OF True refl sub] takes_inv [OF t1 1(2)] 1(3) True by simp
    then obtain n t where nt: "extend_extent ?s1 start bound m (count + 1) = Some (n, t)"
        "count + 1 \<le> n" "n \<le> m" "start + (count + 1) \<le> bound \<longrightarrow> start + n \<le> bound"
        "takes ?s1 {start + (count + 1)..<start + n} t" by blast
    have "{?f} \<union> {start + (count + 1)..<start + n} = {start + count..<start + n}" using nt(2) by auto
    with takes_trans [OF t1 nt(5)] have "takes s {start + count..<start + n} t" by simp
    with nt eq True show ?thesis by auto
  qed
qed



lemma check_extents_complete:
  assumes "\<forall>e \<in> set es. releasable s e" and "extents_disjoint es" and "frame_total s \<le> 2 ^ 52"
    and "\<forall>d \<in> set earlier. 0 < extent_count d \<and> (\<forall>e \<in> set es. extent_frames d \<inter> extent_frames e = {})"
    and "pages + sum_list (map extent_count es) \<le> MAX_EXTENT_PAGES"
  shows "check_extents s pages earlier es = (True, s)"
  using assms
proof (induction s pages earlier es rule: check_extents.induct)
  case (1 s pages earlier)
  then show ?case by auto
next
  case (2 s pages earlier e rest)
  let ?first = "extent_base e div FRAME"
  have rel: "releasable s e" using 2(2) by simp
  then have e: "checked_add64 ?first (extent_count e) = Some (?first + extent_count e)"
    using 2(4) by (auto simp: checked_add64_def releasable_def)
  have no: "\<not> list_ex (overlaps_extent ?first (?first + extent_count e)) earlier"
    using overlaps_extent_iff [of _ e] 2(5) rel by (fastforce simp: list_ex_iff releasable_def)
  have us: "\<not> list_ex (\<lambda>frame. \<not> used s frame) [?first ..< ?first + extent_count e]"
    using rel by (auto simp: list_ex_iff releasable_def extent_frames_def)
  have pg: "pages + extent_count e + sum_list (map extent_count rest) \<le> MAX_EXTENT_PAGES"
    using 2(6) by simp
  have g: "\<not> (extent_base e = 0 \<or> \<not> FRAME dvd extent_base e \<or> extent_count e = 0
      \<or> MAX_EXTENT_PAGES < extent_count e)" using rel pg by (auto simp: releasable_def)
  have b: "\<not> (MAX_EXTENT_PAGES < pages + extent_count e \<or> frame_total s < ?first + extent_count e)"
    using rel pg by (auto simp: releasable_def)
  have "check_extents s (pages + extent_count e) (earlier @ [e]) rest = (True, s)"
    by (rule 2(1) [OF g refl refl e b no us]) (use 2 rel pg in \<open>auto simp: releasable_def\<close>)
  then show ?case using g e b no us by (simp add: Let_def)
qed

lemma release_extents_valid_complete:
  assumes "phys_inv s" and "initialized s" and "es \<noteq> []" and "\<forall>e \<in> set es. releasable s e"
    and "extents_disjoint es" and "sum_list (map extent_count es) \<le> MAX_EXTENT_PAGES"
  shows "release_extents_valid s es = (True, s)"
proof -
  have "length es \<le> sum_list (map extent_count es)"
    using assms(4) by (induction es) (auto simp: releasable_def)
  then show ?thesis
    using assms check_extents_complete [of es s "[]" 0]
    by (auto simp: release_extents_valid_def phys_inv_def)
qed

lemma release_extents_checked_ok:
  assumes "phys_inv s" and "initialized s" and "es \<noteq> []" and "\<forall>e \<in> set es. releasable s e"
    and "extents_disjoint es" and "sum_list (map extent_count es) \<le> MAX_EXTENT_PAGES"
  shows "\<exists>t. release_extents_checked s es = Some (True, t) \<and> gives s (\<Union>(extent_frames ` set es)) t"
  using release_extents_valid_complete [OF assms] release_all_gives [OF assms(1,2,4,5)]
  by (auto simp: release_extents_checked_def)

lemma release_extents_checked_cases:
  assumes "phys_inv s"
  shows "(\<exists>t. release_extents_checked s es = Some (True, t) \<and> gives s (\<Union>(extent_frames ` set es)) t
            \<and> (\<forall>e \<in> set es. releasable s e) \<and> extents_disjoint es)
       \<or> (\<exists>t. release_extents_checked s es = Some (False, t) \<and> used t = used s \<and> same_shape s t
            \<and> free_count t = free_count s)"
proof (cases rule: release_extents_valid_cases [OF assms, of es, case_names ok bad])
  case ok
  then show ?thesis using release_all_gives [OF assms, of es] by (auto simp: release_extents_checked_def)
next
  case (bad t)
  then show ?thesis by (auto simp: release_extents_checked_def)
qed




lemma takes_stats [simp]:
  "takes s F (t\<lparr>next_hint := h, stats := (stats t)\<lparr>extent_allocations := a, extent_allocated_frames := b, extent_max_frames := c\<rparr>\<rparr>)
     = takes s F t"
  by (simp add: takes_def same_shape_def used_def [abs_def])

lemma phys_extent_spec:
  assumes "topo_ok topo" and "phys_ok s" and "0 < maximum" and "free_set s \<noteq> {}"
  shows "\<exists>st n t. phys_extent topo cpu s maximum = Some (Some \<lparr>extent_base = st * FRAME, extent_count = n\<rparr>, t)
     \<and> 0 < n \<and> n \<le> maximum \<and> takes s {st..<st + n} t"
proof -
  obtain f t where t: "alloc_one topo cpu s = Some (Some (f * FRAME), t)" "takes s {f} t"
    using alloc_one_hit [OF assms(1,2,4)] by blast
  have inv: "phys_inv t" using t(2) takes_inv assms(2) by (auto simp: phys_ok_def)
  let ?le = "case numa_range_end topo (f * FRAME) of None \<Rightarrow> frame_total t | Some fin \<Rightarrow> fin div FRAME"
  obtain n u where u: "extend_extent t f (min (frame_total t) ?le) maximum 1 = Some (n, u)" "1 \<le> n" "n \<le> maximum"
      "takes t {f + 1..<f + n} u"
    using extend_extent_takes [OF inv, of "min (frame_total t) ?le" 1 maximum f] assms(3) by auto
  have "{f} \<union> {f + 1..<f + n} = {f..<f + n}" using u(2) by auto
  with takes_trans [OF t(2) u(4)] have "takes s {f..<f + n} u" by simp
  then show ?thesis using t(1) u assms(3)
    by (auto simp: phys_extent_def Let_def intro!: exI [of _ f] exI [of _ n])
qed

section \<open>A sample pool\<close>

lemma sample_used: "f < 8 \<Longrightarrow> used sample_phys f \<longleftrightarrow> f \<notin> {1, 2, 3}"
proof -
  assume "f < 8"
  then have "f \<in> {0, 1, 2, 3, 4, 5, 6, 7}" by auto
  then show ?thesis by (elim insertE emptyE) (simp_all add: used_iff_bit sample_phys_def STATE_EMPTY_def)
qed

lemma sample_free_set: "free_set sample_phys = {1, 2, 3}"
proof -
  have "f < frame_total sample_phys \<longleftrightarrow> f < 8" for f by (simp add: sample_phys_def)
  then show ?thesis using sample_used by (auto simp: free_set_iff)
qed

lemma sample_phys_ok: "phys_ok sample_phys"
  using sample_used [of 0] sample_free_set by (simp add: phys_ok_def phys_inv_def) (simp add: sample_phys_def)

lemma sample_topo_ok: "topo_ok sample_topology"
  by (auto simp: topo_ok_def cpu_node_def sample_topology_def less_Suc_eq split: if_splits)

section \<open>Properties\<close>



text \<open>
  C12. A single-frame allocation never panics. While the pool has a free frame it returns one and
  takes exactly that frame, whatever the CPU, the NUMA topology and the state of the hints and of
  the exhausted-node mask; only an empty pool makes it return nothing.
\<close>

theorem alloc_one_correct:
  assumes "topo_ok topo" and "phys_ok s"
  shows "if free_set s = {} then alloc_one topo cpu s = Some (None, s)
     else \<exists>f t. alloc_one topo cpu s = Some (Some (f * FRAME), t) \<and> f \<in> free_set s
            \<and> free_set t = free_set s - {f} \<and> phys_ok t"
proof (cases "free_set s = {}")
  case True
  then show ?thesis using alloc_one_miss [OF assms(2)] by simp
next
  case False
  then obtain f t where t: "alloc_one topo cpu s = Some (Some (f * FRAME), t)" "takes s {f} t"
    using alloc_one_hit [OF assms] by blast
  moreover have "f \<in> free_set s" using t(2) by (simp add: takes_def)
  ultimately show ?thesis using False takes_free_set [OF t(2)] phys_ok_takes [OF assms(2) t(2)] by auto
qed

theorem alloc_one_correct_witness:
  "\<exists>f t. alloc_one sample_topology 1 sample_phys = Some (Some (f * FRAME), t) \<and> f \<in> {1, 2, 3} \<and> phys_ok t"
  using alloc_one_correct [OF sample_topo_ok sample_phys_ok, of 1] sample_free_set by auto

text \<open>
  C15. The masked 64-bit word scan inside one interval, and the byte scan used when the bitmap is
  not word aligned, both return the lowest free frame of the interval, and nothing when it has
  none.
\<close>

theorem alloc_between_lowest:
  "alloc_between s first last1 =
     (case find (\<lambda>f. \<not> used s f) [first..<last1] of
        None \<Rightarrow> Some (None, s) | Some f \<Rightarrow> take_frame s f)"
  by (simp add: alloc_between_eq first_free_between_def)

text \<open>
  C16. The wrapping search from the next-fit hint visits the frames from the hint to the last one
  and then from frame 1 up to the hint, and takes the first free one, in both its word form and
  its byte form.
\<close>

theorem alloc_any_next_fit:
  assumes "phys_ok s"
  shows "alloc_any s = take_first s (hint_order s)"
  using assms alloc_any_eq [of s] by (simp add: phys_ok_def phys_inv_def)

theorem alloc_any_next_fit_witness: "alloc_any sample_phys = take_first sample_phys (hint_order sample_phys)"
  by (rule alloc_any_next_fit [OF sample_phys_ok])



text \<open>
  C14. Releasing a batch of extents is all or nothing. A non-empty batch of allocated, pairwise
  disjoint, aligned extents of at most 64 pages is released completely; any other batch is
  refused, and a refusal leaves every frame and the free count as they were.
\<close>

theorem release_extents_atomic:
  assumes "phys_ok s"
  shows "if es \<noteq> [] \<and> (\<forall>e \<in> set es. releasable s e) \<and> extents_disjoint es
            \<and> sum_list (map extent_count es) \<le> MAX_EXTENT_PAGES
     then \<exists>t. release_extents_checked s es = Some (True, t) \<and> phys_ok t
            \<and> free_set t = free_set s \<union> (\<Union>(extent_frames ` set es))
     else \<exists>t. release_extents_checked s es = Some (False, t) \<and> phys_ok t \<and> free_set t = free_set s"
proof -
  have inv: "phys_inv s" and ini: "initialized s" using assms by (auto simp: phys_ok_def)
  show ?thesis
  proof (cases rule: release_extents_valid_cases [OF inv, of es, case_names ok bad])
    case ok
    then have ne: "es \<noteq> []" using ini by (auto simp: release_extents_valid_def)
    obtain t where t: "release_extents_checked s es = Some (True, t)" "gives s (\<Union>(extent_frames ` set es)) t"
      using release_extents_checked_ok [OF inv ini ne ok(2-4)] by blast
    have "0 \<notin> \<Union>(extent_frames ` set es)" using ok(2) by (auto simp: releasable_def extent_frames_def elim!: dvdE)
    then show ?thesis using ok ne t phys_ok_gives [OF assms t(2)] gives_free_set [OF t(2)] by auto
  next
    case (bad t)
    then have "release_extents_checked s es = Some (False, t)" by (simp add: release_extents_checked_def)
    moreover have "phys_ok t" "free_set t = free_set s"
      using assms bad by (auto simp: phys_ok_def phys_inv_def same_shape_def free_set_def free_frame_def)
    ultimately show ?thesis
      using release_extents_valid_complete [OF inv ini, of es] bad(1) by auto
  qed
qed

theorem release_extents_atomic_witness:
  "\<exists>t. release_extents_checked sample_phys [\<lparr>extent_base = 16384, extent_count = 2\<rparr>] = Some (True, t)
     \<and> free_set t = {1, 2, 3, 4, 5}"
proof -
  let ?e = "\<lparr>extent_base = 16384, extent_count = 2\<rparr>"
  have "{4..<4 + 2} = {4, 5::nat}" by auto
  then have f: "extent_frames ?e = {4, 5}" by (simp add: extent_frames_def)
  have "releasable sample_phys ?e"
    using sample_used [of 4] sample_used [of 5] f by (simp add: releasable_def) (simp add: sample_phys_def)
  then show ?thesis
    using release_extents_atomic [OF sample_phys_ok, of "[?e]"] f sample_free_set by auto
qed

text \<open>
  C18. Returning one frame: an allocated frame goes back to the pool; a misaligned address, an
  address past the last frame and a second release of the same frame are refused, counted, and
  change neither the bitmap nor the free count.
\<close>

theorem free_one_correct:
  assumes "phys_ok s"
  shows "if FRAME dvd a \<and> a div FRAME < frame_total s \<and> used s (a div FRAME)
     then \<exists>t. free_one s a = Some (0, t) \<and> gives s {a div FRAME} t
     else \<exists>k t. free_one s a = Some (k, t) \<and> used t = used s \<and> free_count t = free_count s
            \<and> same_shape s t \<and> (\<not> fault_reported s \<longrightarrow> k \<noteq> 0)"
proof (cases "FRAME dvd a \<and> a div FRAME < frame_total s \<and> used s (a div FRAME)")
  case True
  then show ?thesis using free_one_gives [OF assms, of "a div FRAME"] by auto
next
  case False
  then show ?thesis using assms
    by (auto simp: phys_ok_def free_one_def fault_def bad_free_def double_free_def same_shape_def Let_def)
qed

theorem free_one_correct_witness:
  "(\<exists>t. free_one sample_phys 16384 = Some (0, t) \<and> gives sample_phys {4} t) \<and>
   (\<exists>k t. free_one sample_phys 4096 = Some (k, t) \<and> used t = used sample_phys \<and> k \<noteq> 0)"
proof -
  have "frame_total sample_phys = 8" "\<not> fault_reported sample_phys"
    by (simp_all add: sample_phys_def STATE_EMPTY_def)
  then show ?thesis
    using free_one_correct [OF sample_phys_ok, of 16384] free_one_correct [OF sample_phys_ok, of 4096]
      sample_used [of 4] sample_used [of 1] by auto
qed

text \<open>
  C17. An extent allocation returns between one and the requested number of adjacent frames and
  takes exactly those; it returns nothing only if none was asked for or the pool is empty.
\<close>

theorem phys_extent_correct:
  assumes "topo_ok topo" and "phys_ok s"
  shows "if maximum = 0 \<or> free_set s = {} then phys_extent topo cpu s maximum = Some (None, s)
     else \<exists>e t. phys_extent topo cpu s maximum = Some (Some e, t) \<and> 0 < extent_count e
            \<and> extent_count e \<le> maximum \<and> FRAME dvd extent_base e \<and> takes s (extent_frames e) t \<and> phys_ok t"
proof (cases "maximum = 0 \<or> free_set s = {}")
  case True
  then show ?thesis using alloc_one_miss [OF assms(2)] by (auto simp: phys_extent_def)
next
  case False
  then obtain st n t where t: "phys_extent topo cpu s maximum =
      Some (Some \<lparr>extent_base = st * FRAME, extent_count = n\<rparr>, t)" "0 < n" "n \<le> maximum"
      "takes s {st..<st + n} t"
    using phys_extent_spec [OF assms, of maximum cpu] by blast
  then show ?thesis using False phys_ok_takes [OF assms(2) t(4)] by (auto simp: extent_frames_def)
qed

theorem phys_extent_correct_witness:
  "\<exists>e t. phys_extent sample_topology 0 sample_phys 2 = Some (Some e, t) \<and> takes sample_phys (extent_frames e) t"
  using phys_extent_correct [OF sample_topo_ok sample_phys_ok, of 2 0] sample_free_set by auto

end
