(* ===== verification/Memory_Map.thy ===== *)
theory Memory_Map
  imports Kernel_Prelude
begin

text \<open>
  The boot memory map: the normalisation of the bootloader's entries
  (\<open>src/Rust/boot/info.rs\<close>, \<open>normalize\<close> and the memory loop of \<open>r4os_rust_boot_info_init\<close>), the
  accounting \<open>summarize\<close> and the device-extent check \<open>covers\<close> of \<open>src/Rust/memory/map.rs\<close>.
  An entry carries the raw region, its checked end, and the page-aligned window inside it.
\<close>

section \<open>Entries\<close>

record memory_entry =
  me_base :: nat
  me_length :: nat
  me_end :: nat
  me_usable_base :: nat
  me_usable_len :: nat
  me_kind :: nat
  me_valid :: bool

definition MEMORY_ENTRY_EMPTY :: memory_entry where
  "MEMORY_ENTRY_EMPTY = \<lparr>me_base = 0, me_length = 0, me_end = 0, me_usable_base = 0,
     me_usable_len = 0, me_kind = 8, me_valid = False\<rparr>"

definition normalize_entry :: "nat \<Rightarrow> nat \<Rightarrow> nat \<Rightarrow> memory_entry option" where
  "normalize_entry base len raw_kind =
     (if len = 0 then None
      else do {
        end0 \<leftarrow> checked_add64 base len;
        let kind = (if raw_kind \<le> 7 then raw_kind else 8);
        let entry = MEMORY_ENTRY_EMPTY\<lparr>me_base := base, me_length := len, me_end := end0,
                      me_kind := kind, me_valid := True\<rparr>;
        if kind = 0 then do {
          up \<leftarrow> checked_add64 base 4095;
          let ub = up AND not64 4095;
          Some (entry\<lparr>me_usable_base := ub, me_usable_len := (end0 AND not64 4095) - ub\<rparr>)
        } else Some entry
      })"

text \<open>
  The loop over the first 128 raw entries of the bootloader's response: accepted entries are
  stored in order, the others are counted.
\<close>

primrec normalize_all :: "(nat \<times> nat \<times> nat) list \<Rightarrow> memory_entry list \<times> nat" where
  "normalize_all [] = ([], 0)"
| "normalize_all (r # rs) =
     (let (stored, invalid) = normalize_all rs in
      case normalize_entry (fst r) (fst (snd r)) (snd (snd r)) of
        Some entry \<Rightarrow> (entry # stored, invalid)
      | None \<Rightarrow> (stored, invalid + 1))"

definition boot_memory :: "(nat \<times> nat \<times> nat) list \<Rightarrow> memory_entry list \<times> nat" where
  "boot_memory raw = normalize_all (take 128 raw)"

section \<open>Accounting\<close>

record map_summary =
  sum_entries :: nat
  invalid_entries :: nat
  usable_bytes :: nat
  usable_page_bytes :: nat
  largest_usable_base :: nat
  largest_usable_len :: nat
  sum_overflow :: bool

definition add_total :: "nat \<Rightarrow> nat \<Rightarrow> nat \<times> bool" where
  "add_total sum0 value =
     (case checked_add64 sum0 value of Some sum1 \<Rightarrow> (sum1, False) | None \<Rightarrow> (U64_MAX, True))"

definition summarize_step :: "memory_entry \<Rightarrow> map_summary \<Rightarrow> map_summary" where
  "summarize_step e r =
     (if \<not> me_valid e then r\<lparr>invalid_entries := invalid_entries r + 1\<rparr>
      else if me_kind e = 0 then
        let (bytes, over1) = add_total (usable_bytes r) (me_length e);
            (pages, over2) = add_total (usable_page_bytes r) (me_usable_len e);
            r1 = r\<lparr>usable_bytes := bytes, usable_page_bytes := pages,
                   sum_overflow := sum_overflow r \<or> over1 \<or> over2\<rparr>
        in if largest_usable_len r1 < me_usable_len e
           then r1\<lparr>largest_usable_base := me_usable_base e, largest_usable_len := me_usable_len e\<rparr>
           else r1
      else r)"

definition summarize :: "memory_entry list \<Rightarrow> map_summary" where
  "summarize es = fold summarize_step es
     \<lparr>sum_entries = length es, invalid_entries = 0, usable_bytes = 0, usable_page_bytes = 0,
      largest_usable_base = 0, largest_usable_len = 0, sum_overflow = False\<rparr>"

section \<open>Device extents\<close>

primrec covers_admits :: "nat \<Rightarrow> nat \<Rightarrow> bool \<Rightarrow> memory_entry list \<Rightarrow> bool" where
  "covers_admits base fin exclude_system [] = True"
| "covers_admits base fin exclude_system (e # es) =
     (if me_length e = 0 then covers_admits base fin exclude_system es
      else case checked_add64 (me_base e) (me_length e) of
        None \<Rightarrow> False
      | Some last1 \<Rightarrow>
          if exclude_system \<and> (\<not> me_valid e \<or> me_end e \<noteq> last1) then False
          else if fin \<le> me_base e \<or> last1 \<le> base then covers_admits base fin exclude_system es
          else if \<not> me_valid e \<or> me_end e \<noteq> last1 \<or> (me_kind e \<noteq> 1 \<and> me_kind e \<noteq> 7) then False
          else covers_admits base fin exclude_system es)"

primrec covers_next :: "nat \<Rightarrow> nat \<Rightarrow> memory_entry list \<Rightarrow> nat \<Rightarrow> nat" where
  "covers_next fin cursor [] next1 = next1"
| "covers_next fin cursor (e # es) next1 =
     covers_next fin cursor es
       (if me_valid e \<and> me_base e \<le> cursor \<and> cursor < me_end e
        then max next1 (min fin (me_end e)) else next1)"

definition in_entry :: "memory_entry \<Rightarrow> nat \<Rightarrow> bool" where
  "in_entry e a \<longleftrightarrow> me_valid e \<and> me_base e \<le> a \<and> a < me_end e"

definition entry_wf :: "memory_entry \<Rightarrow> bool" where
  "entry_wf e \<longleftrightarrow> me_valid e \<and> 0 < me_length e \<and> me_end e = me_base e + me_length e \<and> me_end e \<le> U64_MAX
     \<and> me_kind e \<le> 8 \<and> 4096 dvd me_usable_base e \<and> 4096 dvd me_usable_len e
     \<and> (0 < me_usable_len e \<longrightarrow> me_kind e = 0 \<and> me_base e \<le> me_usable_base e
          \<and> me_usable_base e + me_usable_len e \<le> me_end e)"

definition admits :: "nat \<Rightarrow> nat \<Rightarrow> bool \<Rightarrow> memory_entry \<Rightarrow> bool" where
  "admits base fin exclude_system e \<longleftrightarrow> me_length e = 0 \<or>
     (me_base e + me_length e \<le> U64_MAX
      \<and> (exclude_system \<longrightarrow> me_valid e \<and> me_end e = me_base e + me_length e)
      \<and> (me_base e < fin \<and> base < me_base e + me_length e \<longrightarrow>
           me_valid e \<and> me_end e = me_base e + me_length e \<and> me_kind e \<in> {1, 7}))"

definition usable :: "memory_entry \<Rightarrow> bool" where
  "usable e \<longleftrightarrow> me_valid e \<and> me_kind e = 0"

definition usable_sum :: "(memory_entry \<Rightarrow> nat) \<Rightarrow> memory_entry list \<Rightarrow> nat" where
  "usable_sum f es = sum_list (map f (filter usable es))"

lemma covers_next_ge: "next1 \<le> covers_next fin cursor es next1"
  by (induction es arbitrary: next1) (auto intro: order_trans [OF max.cobounded1])

function covers_loop :: "memory_entry list \<Rightarrow> nat \<Rightarrow> nat \<Rightarrow> bool" where
  "covers_loop es fin cursor =
     (if cursor < fin then
        let next1 = covers_next fin cursor es cursor in
        if next1 = cursor then False else covers_loop es fin next1
      else True)"
  by pat_completeness auto

termination
proof (relation "measure (\<lambda>(es, fin, cursor). fin - cursor)", goal_cases)
  case (2 es fin cursor next1)
  then show ?case using covers_next_ge [of cursor fin cursor es] by (auto simp: le_less)
qed auto

declare covers_loop.simps [simp del]

definition covers :: "nat \<Rightarrow> nat \<Rightarrow> memory_entry list \<Rightarrow> bool \<Rightarrow> bool" where
  "covers base bytes es exclude_system =
     (if (exclude_system \<and> es = []) \<or> base = 0 \<or> bytes = 0 \<or> (base OR bytes) AND 4095 \<noteq> 0 then False
      else case checked_add64 base bytes of
        None \<Rightarrow> False
      | Some fin \<Rightarrow>
          if 2 ^ 52 < fin then False
          else if \<not> covers_admits base fin exclude_system es then False
          else if exclude_system then True
          else covers_loop es fin base)"

section \<open>Facts\<close>

lemma normalize_entry_Some:
  assumes "normalize_entry base len kind = Some e"
  shows "entry_wf e \<and> me_base e = base \<and> me_length e = len"
proof -
  define up where "up = ((base + 4095) div 4096) * 4096"
  define dn where "dn = ((base + len) div 4096) * 4096"
  have up: "base \<le> up" "4096 dvd up" unfolding up_def by auto
  have dn: "dn \<le> base + len" "4096 dvd dn" unfolding dn_def by auto
  show ?thesis
    using assms up dn dvd_diff_nat [OF dn(2) up(2)]
    by (auto simp: normalize_entry_def entry_wf_def MEMORY_ENTRY_EMPTY_def checked_add64_eq_Some
        and_not64_4095 Let_def up_def [symmetric] dn_def [symmetric] bind_eq_Some_conv split: if_splits)
qed

lemma normalize_entry_pages:
  assumes "normalize_entry base len 0 = Some e" and "base \<le> f * 4096" and "f * 4096 + 4096 \<le> base + len"
  shows "me_usable_base e \<le> f * 4096 \<and> f * 4096 + 4096 \<le> me_usable_base e + me_usable_len e"
proof -
  have "(base + 4095) div 4096 < Suc f" using assms(2) by (intro less_mult_imp_div_less) simp
  then have up: "((base + 4095) div 4096) * 4096 \<le> f * 4096" by simp
  have "(f + 1) * 4096 div 4096 \<le> (base + len) div 4096" using assms(3) by (intro div_le_mono) simp
  then have dn: "f * 4096 + 4096 \<le> ((base + len) div 4096) * 4096" by simp
  show ?thesis
    using assms(1) up dn
    by (auto simp: normalize_entry_def MEMORY_ENTRY_EMPTY_def checked_add64_eq_Some
        and_not64_4095 Let_def bind_eq_Some_conv split: if_splits)
qed

lemma normalize_all_wf: "normalize_all raw = (es, n) \<Longrightarrow>
    (\<forall>e \<in> set es. entry_wf e) \<and> length es + n = length raw"
  by (induction raw arbitrary: es n)
    (auto simp: normalize_entry_Some split: option.splits prod.splits)

lemma covers_next_iff:
  "covers_next fin cursor es next1 \<le> m \<longleftrightarrow>
     next1 \<le> m \<and> (\<forall>e \<in> set es. in_entry e cursor \<longrightarrow> min fin (me_end e) \<le> m)"
  by (induction es arbitrary: next1) (auto simp: in_entry_def)

lemma covers_next_cases:
  "covers_next fin cursor es next1 = next1 \<or>
     (\<exists>e \<in> set es. in_entry e cursor \<and> covers_next fin cursor es next1 = min fin (me_end e))"
proof (induction es arbitrary: next1)
  case (Cons e es)
  show ?case
  proof (cases "in_entry e cursor")
    case True
    then show ?thesis using Cons.IH [of "max next1 (min fin (me_end e))"]
      by (auto simp: in_entry_def max_def split: if_splits)
  next
    case False
    then show ?thesis using Cons.IH [of next1] by (auto simp: in_entry_def)
  qed
qed simp

lemma covers_loop_iff:
  "covers_loop es fin cursor \<longleftrightarrow> (\<forall>a. cursor \<le> a \<and> a < fin \<longrightarrow> (\<exists>e \<in> set es. in_entry e a))"
proof (induction es fin cursor rule: covers_loop.induct)
  case (1 es fin cursor)
  let ?n = "covers_next fin cursor es cursor"
  show ?case
  proof (cases "cursor < fin \<and> ?n \<noteq> cursor")
    case True
    then obtain e where e: "e \<in> set es" "in_entry e cursor" "?n = min fin (me_end e)"
      using covers_next_cases [of fin cursor es cursor] by auto
    then have seg: "in_entry e a" if "cursor \<le> a" "a < ?n" for a
      using that by (auto simp: in_entry_def)
    have "covers_loop es fin cursor = covers_loop es fin ?n"
      using True by (subst covers_loop.simps) (simp add: Let_def)
    also have "\<dots> \<longleftrightarrow> (\<forall>a. ?n \<le> a \<and> a < fin \<longrightarrow> (\<exists>e \<in> set es. in_entry e a))"
      using 1 True by simp
    also have "\<dots> \<longleftrightarrow> (\<forall>a. cursor \<le> a \<and> a < fin \<longrightarrow> (\<exists>e \<in> set es. in_entry e a))"
      using seg e(1) covers_next_ge [of cursor fin cursor es] by (meson not_le order_trans)
    finally show ?thesis .
  next
    case False
    show ?thesis
    proof (cases "cursor < fin")
      case True
      with False have "?n = cursor" by simp
      then have "\<not> in_entry e cursor" if "e \<in> set es" for e
        using covers_next_iff [of fin cursor es cursor cursor] that True by (auto simp: in_entry_def)
      with True \<open>?n = cursor\<close> show ?thesis
        by (subst covers_loop.simps) (auto simp: Let_def)
    qed (subst covers_loop.simps, auto)
  qed
qed

lemma covers_admits_iff: "covers_admits base fin x es \<longleftrightarrow> (\<forall>e \<in> set es. admits base fin x e)"
proof (induction es)
  case (Cons e es)
  show ?case
  proof (cases "me_base e + me_length e \<le> U64_MAX")
    case True
    then show ?thesis using Cons by (auto simp: checked_add64_def admits_def not_le)
  next
    case False
    then show ?thesis using Cons by (auto simp: checked_add64_def admits_def not_le)
  qed
qed simp

lemma page_multiples: "((a::nat) OR b) AND 4095 = 0 \<longleftrightarrow> 4096 dvd a \<and> 4096 dvd b"
proof -
  have m: "x AND 4095 = take_bit 12 x" for x :: nat
    by (simp add: take_bit_eq_mask mask_eq_exp_minus_1)
  have "(a OR b) AND 4095 = take_bit 12 a OR take_bit 12 b" by (simp add: m)
  then have "(a OR b) AND 4095 = 0 \<longleftrightarrow> take_bit 12 a = 0 \<and> take_bit 12 b = 0"
    by (auto simp: bit_eq_iff bit_or_iff)
  then show ?thesis by (simp add: take_bit_eq_mod mod_eq_0_iff_dvd)
qed

lemma add_total_min: "add_total (min U64_MAX a) b = (min U64_MAX (a + b), U64_MAX < min U64_MAX a + b)"
  by (auto simp: add_total_def checked_add64_def)

lemma summarize_fold:
  assumes "usable_bytes r = min U64_MAX a" and "usable_page_bytes r = min U64_MAX b"
    and "sum_overflow r \<longleftrightarrow> U64_MAX < a \<or> U64_MAX < b"
  shows "usable_bytes (fold summarize_step es r) = min U64_MAX (a + usable_sum me_length es)
    \<and> usable_page_bytes (fold summarize_step es r) = min U64_MAX (b + usable_sum me_usable_len es)
    \<and> (sum_overflow (fold summarize_step es r) \<longleftrightarrow>
         U64_MAX < a + usable_sum me_length es \<or> U64_MAX < b + usable_sum me_usable_len es)"
  using assms
proof (induction es arbitrary: r a b)
  case (Cons e es)
  let ?r = "summarize_step e r"
  let ?a = "a + usable_sum me_length [e]" and ?b = "b + usable_sum me_usable_len [e]"
  have st: "usable e \<Longrightarrow> usable_bytes ?r = fst (add_total (usable_bytes r) (me_length e))
      \<and> usable_page_bytes ?r = fst (add_total (usable_page_bytes r) (me_usable_len e))
      \<and> (sum_overflow ?r \<longleftrightarrow> sum_overflow r \<or> snd (add_total (usable_bytes r) (me_length e))
           \<or> snd (add_total (usable_page_bytes r) (me_usable_len e)))"
    "\<not> usable e \<Longrightarrow> usable_bytes ?r = usable_bytes r \<and> usable_page_bytes ?r = usable_page_bytes r
      \<and> sum_overflow ?r = sum_overflow r"
    by (auto simp: summarize_step_def usable_def Let_def split: prod.splits)
  have "usable_bytes ?r = min U64_MAX ?a" "usable_page_bytes ?r = min U64_MAX ?b"
    "sum_overflow ?r \<longleftrightarrow> U64_MAX < ?a \<or> U64_MAX < ?b"
  proof -
    have u: "usable_sum f [e] = (if usable e then f e else 0)" for f by (simp add: usable_sum_def)
    have "sum_overflow ?r \<longleftrightarrow> (U64_MAX < a \<or> U64_MAX < b) \<or> U64_MAX < min U64_MAX a + me_length e
        \<or> U64_MAX < min U64_MAX b + me_usable_len e" if "usable e"
      using st(1) [OF that] Cons.prems by (simp only: add_total_min snd_conv)
    then have "sum_overflow ?r \<longleftrightarrow> U64_MAX < a + me_length e \<or> U64_MAX < b + me_usable_len e" if "usable e"
      using that by linarith
    with st(2) Cons.prems(3) show "sum_overflow ?r \<longleftrightarrow> U64_MAX < ?a \<or> U64_MAX < ?b"
      by (simp only: u split: if_split) simp
    show "usable_bytes ?r = min U64_MAX ?a" "usable_page_bytes ?r = min U64_MAX ?b"
      using st Cons.prems(1,2) by (simp_all only: u add_total_min fst_conv split: if_split) simp_all
  qed
  from Cons.IH [OF this] show ?case by (simp add: usable_sum_def add.assoc)
qed (simp add: usable_sum_def)

lemma Max_insert_max: "finite M \<Longrightarrow> Max (insert (max (x::nat) y) M) = Max (insert x (insert y M))"
  by (cases "M = {}") (auto simp: max.assoc)

lemma largest_fold:
  "let r' = fold summarize_step es r in
     largest_usable_len r' = Max (insert (largest_usable_len r) (me_usable_len ` {e \<in> set es. usable e}))
     \<and> (largest_usable_base r' = largest_usable_base r \<and> largest_usable_len r' = largest_usable_len r
        \<or> (\<exists>e \<in> set es. usable e \<and> largest_usable_base r' = me_usable_base e
             \<and> largest_usable_len r' = me_usable_len e))"
proof (induction es arbitrary: r)
  case (Cons e es)
  let ?r = "summarize_step e r"
  have step: "usable e \<Longrightarrow> largest_usable_len ?r = max (largest_usable_len r) (me_usable_len e)"
      "\<not> usable e \<Longrightarrow> largest_usable_len ?r = largest_usable_len r"
    by (auto simp: summarize_step_def usable_def Let_def split: prod.splits)
  have base: "largest_usable_base ?r = largest_usable_base r \<and> largest_usable_len ?r = largest_usable_len r
     \<or> usable e \<and> largest_usable_base ?r = me_usable_base e \<and> largest_usable_len ?r = me_usable_len e"
    by (auto simp: summarize_step_def usable_def Let_def split: prod.splits)
  let ?M = "me_usable_len ` {e \<in> set es. usable e}"
  have im: "me_usable_len ` {d \<in> set (e # es). usable d} = (if usable e then insert (me_usable_len e) ?M else ?M)"
    by auto
  have "Max (insert (largest_usable_len ?r) ?M)
      = Max (insert (largest_usable_len r) (me_usable_len ` {d \<in> set (e # es). usable d}))"
    unfolding im using step Max_insert_max [of ?M] by simp
  with Cons.IH [of ?r] base show ?case by (auto simp: Let_def)
qed simp

lemma summarize_largest:
  assumes "0 < largest_usable_len (summarize es)"
  shows "\<exists>e \<in> set es. usable e \<and> largest_usable_base (summarize es) = me_usable_base e
     \<and> largest_usable_len (summarize es) = me_usable_len e"
  using assms largest_fold [of es "\<lparr>sum_entries = length es, invalid_entries = 0, usable_bytes = 0,
      usable_page_bytes = 0, largest_usable_base = 0, largest_usable_len = 0, sum_overflow = False\<rparr>"]
  by (auto simp: summarize_def Let_def)

section \<open>Properties\<close>

text \<open>
  C19. The device-extent check decides exactly this: the extent is a non-empty page-aligned range
  below the 52-bit physical limit, every map entry that touches it is a well-formed reserved or
  framebuffer entry, and (unless system memory is excluded) every one of its addresses lies in some
  valid entry. In particular the cursor loop terminates and misses no hole.
\<close>

theorem covers_iff:
  "covers base bytes es x \<longleftrightarrow>
     base \<noteq> 0 \<and> bytes \<noteq> 0 \<and> 4096 dvd base \<and> 4096 dvd bytes \<and> base + bytes \<le> 2 ^ 52
     \<and> (\<forall>e \<in> set es. admits base (base + bytes) x e)
     \<and> (if x then es \<noteq> []
        else \<forall>a. base \<le> a \<and> a < base + bytes \<longrightarrow> (\<exists>e \<in> set es. in_entry e a))"
  by (auto simp: covers_def page_multiples covers_admits_iff covers_loop_iff checked_add64_def)

theorem covers_iff_witness:
  "covers 4096 8192 [\<lparr>me_base = 0, me_length = 16384, me_end = 16384, me_usable_base = 0,
     me_usable_len = 0, me_kind = 1, me_valid = True\<rparr>] False"
  unfolding covers_iff by (simp add: admits_def in_entry_def)

text \<open>
  C20. The boot-map totals saturate at the largest 64-bit value exactly when the true sum does not
  fit, the overflow flag records this, and the reported largest window is a usable entry's window
  of maximal size.
\<close>

theorem summarize_totals:
  "usable_bytes (summarize es) = min U64_MAX (usable_sum me_length es)
   \<and> usable_page_bytes (summarize es) = min U64_MAX (usable_sum me_usable_len es)
   \<and> (sum_overflow (summarize es) \<longleftrightarrow>
        U64_MAX < usable_sum me_length es \<or> U64_MAX < usable_sum me_usable_len es)
   \<and> largest_usable_len (summarize es) = Max (insert 0 (me_usable_len ` {e \<in> set es. usable e}))"
proof -
  let ?r = "\<lparr>sum_entries = length es, invalid_entries = 0, usable_bytes = 0, usable_page_bytes = 0,
      largest_usable_base = 0, largest_usable_len = 0, sum_overflow = False\<rparr>"
  show ?thesis
    using summarize_fold [of ?r 0 0 es] largest_fold [of es ?r] by (simp add: summarize_def Let_def)
qed

end
