(* ===== verification/Phys_Init.thy ===== *)
theory Phys_Init
  imports Phys_Alloc Memory_Map
begin

text \<open>
  The start of the frame allocator, \<open>r4os_rust_phys_init\<close> of \<open>src/Rust/memory/phys.rs\<close>, and the
  direct-map address conversions beside it. The bitmap is placed at the base of the largest usable
  window of the boot map and reached through the direct map (\<open>hhdm\<close>); every frame starts used,
  the whole pages of the usable entries are freed, and frame 0 and the bitmap's own pages are
  taken back. The registration of the bitmap in the block catalogue
  (\<open>src/Rust/memory/blocks.rs\<close>) is the argument \<open>claim\<close>, with any answer.
\<close>

section \<open>Definitions\<close>
















section \<open>Marking\<close>







section \<open>The boot map\<close>















section \<open>Properties\<close>





end
