(* ===== verification/Probe_Ring.thy ===== *)
theory Probe_Ring
  imports Kernel_Prelude
begin

text \<open>
  Open addressing on a ring of \<open>N\<close> cells, the part that the identity tables of
  \<open>src/Rust/memory/vm_index.rs\<close> and \<open>src/Rust/memory/blocks.rs\<close> and the budget ledger of
  \<open>src/Rust/memory/vm_budget.rs\<close> share. A
  key is looked for from its home cell forwards, wrapping at the end, until its cell or a cell that
  stops the search is met. \<open>ring_dist N a b\<close> is the number of forward steps from cell \<open>a\<close> to cell
  \<open>b\<close>; \<open>on_path N a c b\<close> says that the search from \<open>a\<close> meets \<open>c\<close> no later than \<open>b\<close>.
\<close>

section \<open>Distances and search order\<close>

definition ring_dist :: "nat \<Rightarrow> nat \<Rightarrow> nat \<Rightarrow> nat" where
  "ring_dist N a b = (if a \<le> b then b - a else b + N - a)"

definition on_path :: "nat \<Rightarrow> nat \<Rightarrow> nat \<Rightarrow> nat \<Rightarrow> bool" where
  "on_path N a c b \<longleftrightarrow> ring_dist N a c \<le> ring_dist N a b"

definition ring_order :: "nat \<Rightarrow> nat \<Rightarrow> nat list" where
  "ring_order N a = map (\<lambda>d. (a + d) mod N) [0..<N]"

text \<open>
  A table is searchable when the search for the key of every live cell meets only busy cells before
  it (\<open>reachable\<close>), and no two live cells have the same key (\<open>one_cell\<close>). \<open>quiet\<close> says that some cell
  lies on no other cell's search path; a full ring needs it for deletion.
\<close>

definition reachable :: "nat \<Rightarrow> ('k \<Rightarrow> nat) \<Rightarrow> (nat \<Rightarrow> bool) \<Rightarrow> (nat \<Rightarrow> bool) \<Rightarrow> (nat \<Rightarrow> 'k) \<Rightarrow> bool" where
  "reachable N home live busy key \<longleftrightarrow>
     (\<forall>p < N. live p \<longrightarrow> (\<forall>c < N. on_path N (home (key p)) c p \<longrightarrow> busy c))"

definition one_cell :: "nat \<Rightarrow> (nat \<Rightarrow> bool) \<Rightarrow> (nat \<Rightarrow> 'k) \<Rightarrow> bool" where
  "one_cell N live key \<longleftrightarrow> (\<forall>p < N. \<forall>q < N. live p \<and> live q \<and> key p = key q \<longrightarrow> p = q)"

definition quiet :: "nat \<Rightarrow> ('k \<Rightarrow> nat) \<Rightarrow> (nat \<Rightarrow> bool) \<Rightarrow> (nat \<Rightarrow> 'k) \<Rightarrow> nat \<Rightarrow> bool" where
  "quiet N home live key l \<longleftrightarrow> l < N \<and>
     (\<forall>p < N. live p \<and> p \<noteq> l \<longrightarrow> \<not> on_path N (home (key p)) l p)"

text \<open>
  The state of a deletion that closes the gap it left: the search from \<open>at\<close> has looked at the cells at
  distance below \<open>d\<close>, the gap has moved to \<open>hole\<close>, and only cells not looked at yet may have the gap
  on their path.
\<close>

definition gap :: "nat \<Rightarrow> ('k \<Rightarrow> nat) \<Rightarrow> (nat \<Rightarrow> bool) \<Rightarrow> (nat \<Rightarrow> 'k) \<Rightarrow> nat \<Rightarrow> nat \<Rightarrow> nat \<Rightarrow> nat \<Rightarrow> bool" where
  "gap N home live key at hole d l \<longleftrightarrow>
     at < N \<and> hole < N \<and> ring_dist N at hole < d \<and> \<not> live hole
     \<and> (\<forall>p < N. live p \<longrightarrow> (\<forall>c < N. on_path N (home (key p)) c p \<longrightarrow> c = hole \<or> live c))
     \<and> (\<forall>p < N. live p \<and> ring_dist N at hole < ring_dist N at p \<and> ring_dist N at p < d \<longrightarrow>
          \<not> on_path N (home (key p)) hole p)
     \<and> quiet N home live key l \<and> ring_dist N at hole \<le> ring_dist N at l"

definition ring_seg :: "nat \<Rightarrow> nat \<Rightarrow> nat \<Rightarrow> nat list" where
  "ring_seg N a n = map (\<lambda>d. (a + d) mod N) [0..<n]"

datatype ('k, 'v) map_op = Put 'k 'v | Drop 'k

fun map_apply :: "('k, 'v) map_op \<Rightarrow> ('k \<Rightarrow> 'v option) \<Rightarrow> ('k \<Rightarrow> 'v option)" where
  "map_apply (Put k v) m = m(k \<mapsto> v)"
| "map_apply (Drop k) m = m(k := None)"

primrec map_run :: "('k \<Rightarrow> 'v \<Rightarrow> 's \<Rightarrow> 's outcome) \<Rightarrow> ('k \<Rightarrow> 's \<Rightarrow> 's outcome) \<Rightarrow> ('k, 'v) map_op list \<Rightarrow> 's \<Rightarrow> 's outcome" where
  "map_run put del [] s = Some s"
| "map_run put del (op # ops) s = do {
     s1 \<leftarrow> (case op of Put k v \<Rightarrow> put k v s | Drop k \<Rightarrow> del k s);
     map_run put del ops s1
   }"

primrec within_capacity :: "nat \<Rightarrow> ('k, 'v) map_op list \<Rightarrow> ('k \<Rightarrow> 'v option) \<Rightarrow> bool" where
  "within_capacity cap [] m = True"
| "within_capacity cap (op # ops) m =
     (card (dom (map_apply op m)) \<le> cap \<and> within_capacity cap ops (map_apply op m))"

text \<open>
  Deletion that inserts the rest of the cluster again. The cell \<open>at\<close> was emptied; \<open>m\<close> is the distance
  to the next empty cell and the cells at distance \<open>d\<close> to \<open>m\<close> are still to be inserted again. Only they
  may have an emptied cell on their path, and only one at a distance below \<open>d\<close>.
\<close>

definition cluster :: "nat \<Rightarrow> ('k \<Rightarrow> nat) \<Rightarrow> (nat \<Rightarrow> bool) \<Rightarrow> (nat \<Rightarrow> 'k) \<Rightarrow> nat \<Rightarrow> nat \<Rightarrow> nat \<Rightarrow> bool" where
  "cluster N home live key at m d \<longleftrightarrow>
     at < N \<and> m < N \<and> d \<le> m \<and> (\<forall>e. d \<le> e \<and> e < m \<longrightarrow> live ((at + e) mod N)) \<and> \<not> live ((at + m) mod N)
     \<and> (\<forall>p < N. live p \<longrightarrow> (\<forall>c < N. on_path N (home (key p)) c p \<longrightarrow>
          live c \<or> d \<le> ring_dist N at p \<and> ring_dist N at p < m \<and> ring_dist N at c < d))"

section \<open>Geometry\<close>

lemma ring_dist_lt: "a < N \<Longrightarrow> b < N \<Longrightarrow> ring_dist N a b < N"
  by (auto simp: ring_dist_def)

lemma ring_step: "(a::nat) < N \<Longrightarrow> d < N \<Longrightarrow> (a + d) mod N = (if a + d < N then a + d else a + d - N)"
  by (auto simp: not_less le_mod_geq)

lemma ring_dist_step: "a < N \<Longrightarrow> d < N \<Longrightarrow> ring_dist N a ((a + d) mod N) = d"
  by (auto simp: ring_step ring_dist_def)

lemma ring_step_dist: "a < N \<Longrightarrow> b < N \<Longrightarrow> (a + ring_dist N a b) mod N = b"
  by (auto simp: ring_dist_def)

lemma ring_dist_self [simp]: "ring_dist N a a = 0"
  by (simp add: ring_dist_def)

lemma ring_dist_zero: "a < N \<Longrightarrow> b < N \<Longrightarrow> ring_dist N a b = 0 \<longleftrightarrow> a = b"
  by (auto simp: ring_dist_def)

lemma ring_dist_inj: "a < N \<Longrightarrow> b < N \<Longrightarrow> c < N \<Longrightarrow> ring_dist N a b = ring_dist N a c \<longleftrightarrow> b = c"
  by (auto simp: ring_dist_def)

lemma on_path_iff:
  "a < N \<Longrightarrow> b < N \<Longrightarrow> c < N \<Longrightarrow> on_path N a c b \<longleftrightarrow> ring_dist N c b \<le> ring_dist N a b"
  by (auto simp: on_path_def ring_dist_def)

lemma on_path_refl [simp]: "on_path N a b b"
  by (simp add: on_path_def)

lemma on_path_trans:
  "a < N \<Longrightarrow> b < N \<Longrightarrow> c < N \<Longrightarrow> e < N \<Longrightarrow> on_path N a c b \<Longrightarrow> on_path N c e b \<Longrightarrow> on_path N a e b"
  by (auto simp: on_path_def ring_dist_def split: if_splits)

lemma on_path_prefix:
  "on_path N a c b \<Longrightarrow> on_path N a e c \<Longrightarrow> on_path N a e b"
  by (simp add: on_path_def)

lemma on_path_antisym:
  "a < N \<Longrightarrow> b < N \<Longrightarrow> c < N \<Longrightarrow> on_path N a c b \<Longrightarrow> on_path N a b c \<Longrightarrow> b = c"
  by (auto simp: on_path_def ring_dist_def split: if_splits)

text \<open>
  Seen from a cell \<open>a\<close>: the cells met on the way from \<open>c\<close> to \<open>b\<close> are those between them, or, when
  \<open>b\<close> comes before \<open>c\<close>, those after \<open>c\<close> and those up to \<open>b\<close>.
\<close>

lemma between_on_path:
  assumes "a < N" "b < N" "c < N" "e < N"
    and "ring_dist N a c \<le> ring_dist N a e" and "ring_dist N a e \<le> ring_dist N a b \<or> ring_dist N a b < ring_dist N a c"
  shows "on_path N c e b"
  using assms by (auto simp: on_path_def ring_dist_def split: if_splits)

section \<open>Searching\<close>

lemma set_ring_order: "a < N \<Longrightarrow> set (ring_order N a) = {..<N}"
proof -
  assume a: "a < N"
  have "b \<in> set (ring_order N a)" if "b < N" for b
    using ring_step_dist [OF a that] ring_dist_lt [OF a that] by (force simp: ring_order_def)
  then show ?thesis using a by (auto simp: ring_order_def)
qed

lemma find_ring_Some:
  assumes "a < N"
  shows "find P (ring_order N a) = Some p \<longleftrightarrow>
     p < N \<and> P p \<and> (\<forall>c < N. on_path N a c p \<and> c \<noteq> p \<longrightarrow> \<not> P c)"
proof
  assume "find P (ring_order N a) = Some p"
  then obtain d where d: "d < N" "P ((a + d) mod N)" "p = (a + d) mod N" "\<forall>j<d. \<not> P ((a + j) mod N)"
    by (auto simp: ring_order_def find_Some_iff)
  have "\<not> P c" if "c < N" "on_path N a c p" "c \<noteq> p" for c
  proof -
    have "ring_dist N a c \<noteq> d" using that d(3) ring_step_dist [OF assms that(1)] by auto
    then have "ring_dist N a c < d" using that(2) ring_dist_step [OF assms d(1)] d(3) by (simp add: on_path_def)
    then show ?thesis using d(4) ring_step_dist [OF assms that(1)] by metis
  qed
  then show "p < N \<and> P p \<and> (\<forall>c < N. on_path N a c p \<and> c \<noteq> p \<longrightarrow> \<not> P c)" using d assms by auto
next
  assume r: "p < N \<and> P p \<and> (\<forall>c < N. on_path N a c p \<and> c \<noteq> p \<longrightarrow> \<not> P c)"
  have lt: "ring_dist N a p < N" using ring_dist_lt [OF assms] r by blast
  have "\<not> P ((a + j) mod N)" if "j < ring_dist N a p" for j
  proof -
    have j: "j < N" using that lt by simp
    have "on_path N a ((a + j) mod N) p" "(a + j) mod N \<noteq> p"
      using that ring_dist_step [OF assms j] by (auto simp: on_path_def)
    then show ?thesis using r assms by auto
  qed
  then show "find P (ring_order N a) = Some p"
    using r lt ring_step_dist [OF assms, of p]
    by (auto simp: ring_order_def find_Some_iff intro!: exI [of _ "ring_dist N a p"])
qed

lemma find_ring_None: "a < N \<Longrightarrow> find P (ring_order N a) = None \<longleftrightarrow> (\<forall>c < N. \<not> P c)"
  by (auto simp: find_None_iff set_ring_order)

lemma gapD:
  assumes "gap N home live key at hole d l"
  shows "at < N" and "hole < N" and "ring_dist N at hole < d" and "\<not> live hole"
    and "\<And>p c. p < N \<Longrightarrow> live p \<Longrightarrow> c < N \<Longrightarrow> on_path N (home (key p)) c p \<Longrightarrow> c = hole \<or> live c"
    and "\<And>p. p < N \<Longrightarrow> live p \<Longrightarrow> ring_dist N at hole < ring_dist N at p \<Longrightarrow> ring_dist N at p < d
        \<Longrightarrow> \<not> on_path N (home (key p)) hole p"
    and "quiet N home live key l" and "ring_dist N at hole \<le> ring_dist N at l"
  using assms unfolding gap_def by blast+

lemma quietD:
  assumes "quiet N home live key l"
  shows "l < N" and "\<And>p. p < N \<Longrightarrow> live p \<Longrightarrow> p \<noteq> l \<Longrightarrow> \<not> on_path N (home (key p)) l p"
  using assms unfolding quiet_def by blast+

lemma gap_key_cong:
  assumes "gap N home live key at hole d l" and "\<And>p. p < N \<Longrightarrow> live p \<Longrightarrow> key' p = key p"
  shows "gap N home live key' at hole d l"
proof -
  have q: "quiet N home live key' l"
    using assms unfolding gap_def quiet_def by metis
  show ?thesis using assms q unfolding gap_def by (metis (no_types, lifting))
qed

lemma reachable_key_cong:
  "reachable N home live busy key \<Longrightarrow> (\<And>p. p < N \<Longrightarrow> live p \<Longrightarrow> key' p = key p) \<Longrightarrow> reachable N home live busy key'"
  unfolding reachable_def by metis

lemma ring_seg_0 [simp]: "ring_seg N a 0 = []"
  by (simp add: ring_seg_def)

lemma ring_seg_Suc: "a < N \<Longrightarrow> ring_seg N a (Suc n) = a # ring_seg N ((a + 1) mod N) n"
  unfolding ring_seg_def by (subst upt_conv_Cons) (auto simp: map_Suc_upt [symmetric] mod_simps simp del: upt_Suc)

lemma ring_seg_full: "ring_seg N a N = ring_order N a"
  by (simp add: ring_seg_def ring_order_def)

lemma find_cell:
  assumes "one_cell N live key" and "p < N" and "live p" and "key p = k"
  shows "find (\<lambda>p. live p \<and> key p = k) [0..<N] = Some p"
proof -
  have "\<not> (live j \<and> key j = k)" if "j < p" for j
    using assms that by (metis less_irrefl less_trans one_cell_def)
  then show ?thesis using assms by (auto simp: find_Some_iff intro!: exI [of _ p])
qed

locale probe_ring =
  fixes N :: nat and home :: "'k \<Rightarrow> nat"
  assumes home_lt: "home k < N"
begin

lemma lookup_hit:
  assumes "reachable N home live busy key" and "one_cell N live key"
    and "p < N" and "live p"
  shows "find (\<lambda>c. \<not> busy c \<or> live c \<and> key c = key p) (ring_order N (home (key p))) = Some p"
  unfolding find_ring_Some [OF home_lt]
  using assms by (auto simp: reachable_def one_cell_def)

lemma lookup_miss:
  assumes "\<forall>c < N. live c \<longrightarrow> key c \<noteq> k"
    and "find (\<lambda>c. \<not> busy c \<or> live c \<and> key c = k) (ring_order N (home k)) = Some q"
  shows "q < N \<and> \<not> busy q"
  using assms unfolding find_ring_Some [OF home_lt] by auto

lemma reachable_store:
  assumes "reachable N home live busy key" and "t < N"
    and "\<forall>c < N. on_path N (home k) c t \<and> c \<noteq> t \<longrightarrow> busy c"
  shows "reachable N home (live(t := True)) (busy(t := True)) (key(t := k))"
  using assms unfolding reachable_def by (simp add: fun_upd_apply)

lemma one_cell_store:
  assumes "one_cell N live key" and "\<forall>c < N. live c \<longrightarrow> key c \<noteq> k"
  shows "one_cell N (live(t := True)) (key(t := k))"
  using assms by (auto simp: one_cell_def)

lemma quiet_empty: "reachable N home live live key \<Longrightarrow> l < N \<Longrightarrow> \<not> live l \<Longrightarrow> quiet N home live key l"
  unfolding reachable_def quiet_def by blast

lemma quiet_store:
  assumes "reachable N home live live key" and "t < N" and "\<not> live t"
  shows "quiet N home (live(t := True)) (key(t := k)) t"
proof -
  have "\<not> on_path N (home (key p)) t p" if "p < N" "live p" for p
    using assms that unfolding reachable_def by blast
  then show ?thesis using assms(2) by (simp add: quiet_def)
qed

lemma gap_start:
  assumes "reachable N home live live key" and "at < N" and "quiet N home live key l"
  shows "gap N home (live(at := False)) key at at 1 l"
proof -
  have "\<forall>p < N. (live(at := False)) p \<longrightarrow>
      (\<forall>c < N. on_path N (home (key p)) c p \<longrightarrow> c = at \<or> (live(at := False)) c)"
    using assms(1) unfolding reachable_def by (metis fun_upd_apply)
  moreover have "quiet N home (live(at := False)) key l"
    using assms(3) unfolding quiet_def by (metis fun_upd_apply)
  ultimately show ?thesis using assms(2) unfolding gap_def by (intro conjI) auto
qed

lemma gap_skip:
  assumes "gap N home live key at hole d l" and "d < N"
    and "live ((at + d) mod N) \<longrightarrow> \<not> on_path N (home (key ((at + d) mod N))) hole ((at + d) mod N)"
  shows "gap N home live key at hole (d + 1) l"
proof -
  note g = gapD [OF assms(1)]
  have new: "\<not> on_path N (home (key p)) hole p" if "p < N" "live p" "ring_dist N at p = d" for p
  proof -
    have "(at + d) mod N = p" using ring_step_dist [OF g(1) that(1)] that(3) by simp
    then show ?thesis using that(2) assms(3) by simp
  qed
  have seen: "\<not> on_path N (home (key p)) hole p" if "p < N" "live p" "ring_dist N at hole < ring_dist N at p"
      "ring_dist N at p < d + 1" for p
    using g(6) [OF that(1-3)] new [OF that(1,2)] that(4) by (cases "ring_dist N at p = d") auto
  show ?thesis unfolding gap_def
    using g(1,2,4,7,8) g(5) seen trans_less_add1 [OF g(3)] by blast
qed

lemma gap_far:
  assumes "gap N home live key at hole d l" and "p < N" "live p" and "on_path N (home (key p)) hole p"
    and "e < N" and "d \<le> ring_dist N at e" and "ring_dist N at e \<le> ring_dist N at p \<or> ring_dist N at p < ring_dist N at hole"
  shows "on_path N (home (key p)) e p"
proof -
  note g = gapD [OF assms(1)]
  have "on_path N hole e p"
    by (rule between_on_path [OF g(1) assms(2) g(2) assms(5)]) (use g(3) assms(6,7) in auto)
  then show ?thesis by (rule on_path_trans [OF home_lt assms(2) g(2) assms(5) assms(4)])
qed

lemma gap_move:
  assumes g: "gap N home live key at hole d l" and d: "d < N"
    and n: "n = (at + d) mod N" "live n" "on_path N (home (key n)) hole n"
  shows "gap N home (live(hole := True, n := False)) (key(hole := key n)) at n (d + 1) l"
proof -
  note at = gapD(1-4) [OF g] quietD(1) [OF gapD(7) [OF g]]
  note path = gapD(5) [OF g] and quiet = quietD(2) [OF gapD(7) [OF g]] and hl = gapD(8) [OF g]
  have nN: "n < N" using n(1) at(1) by simp
  have dn: "ring_dist N at n = d" using ring_dist_step [OF at(1) d] n(1) by simp
  have neq: "n \<noteq> hole" using n(2) at(4) by auto
  have dl: "d \<le> ring_dist N at l"
  proof (rule ccontr)
    assume "\<not> d \<le> ring_dist N at l"
    then have "on_path N hole l n"
      using between_on_path [OF at(1) nN at(2) at(5) hl] dn by simp
    then have "on_path N (home (key n)) l n" by (rule on_path_trans [OF home_lt nN at(2) at(5) n(3)])
    moreover have "n \<noteq> l" using \<open>\<not> d \<le> ring_dist N at l\<close> dn by auto
    ultimately show False using quiet nN n(2) by blast
  qed
  have pre: "on_path N (home (key n)) c n" if "on_path N (home (key n)) c hole" for c
    using on_path_prefix [OF n(3) that] .
  have nh: "\<not> on_path N (home (key n)) n hole"
    using on_path_antisym [OF home_lt at(2) nN, of "key n"] n(3) neq by blast
  have q: "quiet N home (live(hole := True, n := False)) (key(hole := key n)) l"
  proof -
    have "\<not> on_path N (home (key n)) l hole" if "hole \<noteq> l"
    proof
      assume "on_path N (home (key n)) l hole"
      then have "on_path N (home (key n)) l n" by (rule pre)
      then have "n = l" using quiet nN n(2) by blast
      with nh \<open>on_path N (home (key n)) l hole\<close> show False by simp
    qed
    then have "\<not> on_path N (home ((key(hole := key n)) p)) l p"
      if "p < N" "(live(hole := True, n := False)) p" "p \<noteq> l" for p
      using that quiet [of p] by (cases "p = hole") (auto split: if_splits)
    then show ?thesis using at(5) unfolding quiet_def by blast
  qed
  have seen': "\<not> on_path N (home ((key(hole := key n)) p)) n p"
    if "p < N" "(live(hole := True, n := False)) p" "ring_dist N at n < ring_dist N at p" "ring_dist N at p < d + 1" for p
    using that dn by simp
  have path': "c = n \<or> (live(hole := True, n := False)) c"
    if "p < N" "(live(hole := True, n := False)) p" "c < N" "on_path N (home ((key(hole := key n)) p)) c p" for p c
  proof (cases "p = hole")
    case True
    then have "on_path N (home (key n)) c n" using that(4) pre by simp
    then show ?thesis using path [OF nN n(2) that(3)] by auto
  next
    case False
    then show ?thesis using that path [of p c] by (auto split: if_splits)
  qed
  show ?thesis
    unfolding gap_def
  proof (intro conjI allI impI)
    show "ring_dist N at n < d + 1" "ring_dist N at n \<le> ring_dist N at l" using dn dl by auto
    show "\<not> (live(hole := True, n := False)) n" by simp
  qed (use at(1) nN q path' seen' in blast)+
qed

lemma gap_break:
  assumes g: "gap N home live key at hole d l" and d: "d < N" and "\<not> live ((at + d) mod N)"
  shows "reachable N home live live key"
proof -
  let ?e = "(at + d) mod N"
  note at = gapD(1-3) [OF g]
  have e: "?e < N" "ring_dist N at ?e = d" using ring_dist_step [OF at(1) d] at by auto
  have "\<not> on_path N (home (key p)) hole p" if p: "p < N" "live p" for p
  proof
    assume a: "on_path N (home (key p)) hole p"
    have "p \<noteq> hole" using gapD(4) [OF g] p by blast
    then have ne: "ring_dist N at p \<noteq> ring_dist N at hole" using ring_dist_inj at p by blast
    have "\<not> (ring_dist N at hole < ring_dist N at p \<and> ring_dist N at p < d)" using gapD(6) [OF g p] a by blast
    with ne have "on_path N (home (key p)) ?e p"
      by (intro gap_far [OF g p a e(1)]) (use e(2) in auto)
    then have "?e = hole \<or> live ?e" using gapD(5) [OF g p e(1)] by blast
    then show False using assms(3) e(2) at(3) by auto
  qed
  then show ?thesis using g unfolding gap_def reachable_def by blast
qed

lemma gap_end:
  assumes g: "gap N home live key at hole N l"
  shows "reachable N home live live key"
proof -
  note at = gapD(1,2) [OF g] quietD(1) [OF gapD(7) [OF g]] gapD(8) [OF g]
  have "\<not> on_path N (home (key p)) hole p" if p: "p < N" "live p" for p
  proof
    assume a: "on_path N (home (key p)) hole p"
    have "p \<noteq> hole" using gapD(4) [OF g] p by blast
    then have ne: "ring_dist N at p \<noteq> ring_dist N at hole" using ring_dist_inj at p by blast
    have "\<not> ring_dist N at hole < ring_dist N at p"
      using gapD(6) [OF g p] a ring_dist_lt [OF at(1) p(1)] by blast
    with ne have lt: "ring_dist N at p < ring_dist N at hole" by simp
    then have "on_path N hole l p"
      using between_on_path [OF at(1) p(1) at(2) at(3) at(4)] by simp
    then have "on_path N (home (key p)) l p" by (rule on_path_trans [OF home_lt p(1) at(2) at(3) a])
    moreover have "p \<noteq> l" using lt at(4) by auto
    ultimately show False using quietD(2) [OF gapD(7) [OF g] p] by blast
  qed
  then show ?thesis using g unfolding gap_def reachable_def by blast
qed

end

text \<open>
  The contract of a table of bounded capacity that stands for a finite map: storing a key succeeds
  while the keys stay within the capacity, removing always does.
\<close>

locale bounded_map =
  fixes holds :: "'s \<Rightarrow> bool" and contents :: "'s \<Rightarrow> 'k \<Rightarrow> 'v option"
    and put :: "'k \<Rightarrow> 'v \<Rightarrow> 's \<Rightarrow> 's outcome" and del :: "'k \<Rightarrow> 's \<Rightarrow> 's outcome" and cap :: nat
  assumes put_law: "holds s \<Longrightarrow> card (dom ((contents s)(k \<mapsto> v))) \<le> cap \<Longrightarrow>
      \<exists>s'. put k v s = Some s' \<and> holds s' \<and> contents s' = (contents s)(k \<mapsto> v)"
    and drop_law: "holds s \<Longrightarrow> \<exists>s'. del k s = Some s' \<and> holds s' \<and> contents s' = (contents s)(k := None)"
begin

lemma run_refines:
  assumes "holds s" and "within_capacity cap ops (contents s)"
  shows "\<exists>s'. map_run put del ops s = Some s' \<and> holds s' \<and> contents s' = fold map_apply ops (contents s)"
  using assms
proof (induction ops arbitrary: s)
  case (Cons op ops)
  have "\<exists>s1. (case op of Put k v \<Rightarrow> put k v s | Drop k \<Rightarrow> del k s) = Some s1 \<and> holds s1
      \<and> contents s1 = map_apply op (contents s)"
    using put_law [OF Cons.prems(1)] drop_law [OF Cons.prems(1)] Cons.prems(2) by (cases op) auto
  then obtain s1 where s1: "(case op of Put k v \<Rightarrow> put k v s | Drop k \<Rightarrow> del k s) = Some s1"
      "holds s1" "contents s1 = map_apply op (contents s)" by blast
  show ?case using Cons.IH [OF s1(2)] Cons.prems(2) s1 by simp
qed simp

end

lemma clusterD:
  assumes "cluster N home live key at m d"
  shows "at < N" and "m < N" and "d \<le> m" and "\<And>e. d \<le> e \<Longrightarrow> e < m \<Longrightarrow> live ((at + e) mod N)"
    and "\<not> live ((at + m) mod N)"
    and "\<And>p c. p < N \<Longrightarrow> live p \<Longrightarrow> c < N \<Longrightarrow> on_path N (home (key p)) c p \<Longrightarrow>
          live c \<or> d \<le> ring_dist N at p \<and> ring_dist N at p < m \<and> ring_dist N at c < d"
  using assms unfolding cluster_def by blast+

lemma cluster_key_cong:
  assumes "cluster N home live key at m d" and "\<And>p. p < N \<Longrightarrow> live p \<Longrightarrow> key' p = key p"
  shows "cluster N home live key' at m d"
  using assms unfolding cluster_def by metis

context probe_ring
begin

lemma crosses_end:
  assumes "at < N" "m < N" "p < N" "r < N" and "ring_dist N at r \<le> m"
    and "ring_dist N at p < ring_dist N at r \<or> m \<le> ring_dist N at p" and "on_path N (home k) r p"
  shows "on_path N (home k) ((at + m) mod N) p"
proof -
  let ?l = "(at + m) mod N"
  have l: "?l < N" "ring_dist N at ?l = m" using assms(1,2) ring_dist_step by auto
  have "on_path N r ?l p" using between_on_path [of at N p r ?l] assms l by auto
  then show ?thesis using on_path_trans [OF home_lt assms(3,4) l(1) assms(7)] by blast
qed

lemma cluster_start:
  assumes r: "reachable N home live live key" and at: "at < N" and m: "1 \<le> m" "m < N"
    and run: "\<And>e. 1 \<le> e \<Longrightarrow> e < m \<Longrightarrow> live ((at + e) mod N)" and stop: "\<not> live ((at + m) mod N)"
  shows "cluster N home (live(at := False)) key at m 1"
proof -
  have ne: "(at + e) mod N \<noteq> at" if "1 \<le> e" "e < N" for e
    using ring_dist_step [OF at that(2)] that(1) by force
  have zone: "1 \<le> ring_dist N at p \<and> ring_dist N at p < m"
    if p: "p < N" "live p" "p \<noteq> at" and c: "on_path N (home (key p)) at p" for p
  proof (rule ccontr)
    assume "\<not> (1 \<le> ring_dist N at p \<and> ring_dist N at p < m)"
    then have "m \<le> ring_dist N at p" using ring_dist_zero [OF at p(1)] p(3) by auto
    then have "on_path N (home (key p)) ((at + m) mod N) p"
      using crosses_end [OF at m(2) p(1) at _ _ c] by simp
    moreover have "(at + m) mod N < N" using at by simp
    ultimately show False using r stop p unfolding reachable_def by blast
  qed
  have path: "c \<noteq> at \<and> live c \<or> 1 \<le> ring_dist N at p \<and> ring_dist N at p < m \<and> ring_dist N at c < 1"
    if "p < N" "live p" "p \<noteq> at" "c < N" "on_path N (home (key p)) c p" for p c
  proof (cases "c = at")
    case True
    then show ?thesis using zone [OF that(1-3)] that(5) by simp
  next
    case False
    then show ?thesis using r that unfolding reachable_def by blast
  qed
  have run1: "(live(at := False)) ((at + e) mod N)" if "1 \<le> e" "e < m" for e
    using run [OF that] ne [of e] that m by simp
  have stop1: "\<not> (live(at := False)) ((at + m) mod N)" using stop by simp
  have path1: "(live(at := False)) c \<or> 1 \<le> ring_dist N at p \<and> ring_dist N at p < m \<and> ring_dist N at c < 1"
    if "p < N" "(live(at := False)) p" "c < N" "on_path N (home (key p)) c p" for p c
  proof -
    have "p \<noteq> at" "live p" using that(2) by (auto split: if_splits)
    then show ?thesis using path [of p c] that by auto
  qed
  show ?thesis unfolding cluster_def using at m run1 stop1 path1 by blast
qed

lemma cluster_done: "cluster N home live key at m m \<Longrightarrow> reachable N home live live key"
  unfolding cluster_def reachable_def by (meson leD)

lemma cluster_step:
  assumes cl: "cluster N home live key at m d" and d: "d < m" and r: "r = (at + d) mod N"
    and q: "q < N" "q = r \<or> \<not> live q" "\<And>c. c < N \<Longrightarrow> on_path N (home (key r)) c q \<Longrightarrow> c \<noteq> q \<Longrightarrow> live c \<and> c \<noteq> r"
  shows "cluster N home (live(r := False, q := True)) (key(q := key r)) at m (d + 1)"
proof -
  note D = clusterD [OF cl]
  have dN: "d < N" using d D(2) by simp
  have rN: "r < N" "ring_dist N at r = d" "live r" using r D(1) ring_dist_step [OF D(1) dN] D(4) [of d] d by auto
  let ?l = "(at + m) mod N"
  have l: "?l < N" "ring_dist N at ?l = m" using D(1) ring_dist_step [OF D(1,2)] by auto
  have qr: "on_path N (home (key r)) q r"
  proof (rule ccontr)
    assume "\<not> ?thesis"
    then have "on_path N (home (key r)) r q" "r \<noteq> q" by (auto simp: on_path_def)
    then show False using q(3) [OF rN(1)] by blast
  qed
  have dq: "ring_dist N at q \<le> d" using D(6) [OF rN(1,3) q(1) qr] q(2) rN(2) by auto
  have run: "(live(r := False, q := True)) ((at + e) mod N)" if "d + 1 \<le> e" "e < m" for e
  proof -
    have "(at + e) mod N \<noteq> r" using ring_dist_step [OF D(1), of e] rN(2) that D(2) by auto
    then show ?thesis using D(4) [of e] that by simp
  qed
  have stop: "\<not> (live(r := False, q := True)) ?l" using D(5) dq l(2) d by auto
  have path: "(live(r := False, q := True)) c \<or> d + 1 \<le> ring_dist N at p \<and> ring_dist N at p < m \<and> ring_dist N at c < d + 1"
    if p: "p < N" "(live(r := False, q := True)) p" "c < N" "on_path N (home ((key(q := key r)) p)) c p" for p c
  proof (cases "p = q")
    case True
    then show ?thesis using q(3) [OF p(3)] p(4) by auto
  next
    case False
    then have pl: "live p" "p \<noteq> r" "on_path N (home (key p)) c p" using p(2,4) by (auto split: if_splits)
    show ?thesis
    proof (cases "d \<le> ring_dist N at p \<and> ring_dist N at p < m")
      case True
      then have "d + 1 \<le> ring_dist N at p" using pl(2) ring_dist_inj [OF D(1) p(1) rN(1)] rN(2) by auto
      then show ?thesis using D(6) [OF p(1) pl(1) p(3) pl(3)] True rN(2) by auto
    next
      case out: False
      then have "live c" using D(6) [OF p(1) pl(1) p(3) pl(3)] by blast
      moreover have "c \<noteq> r"
      proof
        assume c: "c = r"
        have "on_path N (home (key p)) ?l p"
          using crosses_end [OF D(1,2) p(1) rN(1)] out rN(2) d pl(3) c by auto
        then show False using D(6) [OF p(1) pl(1) l(1)] D(5) out by blast
      qed
      ultimately show ?thesis by simp
    qed
  qed
  have "d + 1 \<le> m" using d by simp
  then show ?thesis unfolding cluster_def using D(1,2) run stop path by blast
qed

end

end
