(* ===== verification/Vm_Budget.thy ===== *)
theory Vm_Budget
  imports Probe_Ring
begin

text \<open>
  The budget ledger of \<open>src/Rust/memory/vm_budget.rs\<close>: derived totals over the VM ranges, globally and
  per process, in a ring of \<open>N\<close> entries keyed by owner. Entries of retired owners are removed by
  closing the probe cluster. The theory shows that the ledger always equals the sums over the
  contributions of the range slots (\<open>ledger_ok\<close>), so that \<open>matches\<close>, the code's own consistency
  check, can never fail, and that none of the code's \<open>expect\<close>, \<open>assert\<close> and \<open>unreachable\<close> is met.
\<close>

section \<open>Usage and totals\<close>

record usage =
  reserved :: nat
  committed :: nat
  resident :: nat

record contribution =
  c_usage :: usage
  application :: "nat option"
  process :: "nat option"
  pending_resident :: nat

definition USAGE_ZERO :: usage where
  "USAGE_ZERO = \<lparr>reserved = 0, committed = 0, resident = 0\<rparr>"

definition CONTRIBUTION_ZERO :: contribution where
  "CONTRIBUTION_ZERO = \<lparr>c_usage = USAGE_ZERO, application = None, process = None, pending_resident = 0\<rparr>"

record totals =
  t_reserved :: nat
  t_committed :: nat
  t_resident :: nat
  t_pending :: nat

definition TOTAL_ZERO :: totals where
  "TOTAL_ZERO = \<lparr>t_reserved = 0, t_committed = 0, t_resident = 0, t_pending = 0\<rparr>"

definition add128 :: "nat \<Rightarrow> nat \<Rightarrow> nat outcome" where
  [machine]: "add128 a b = (if a + b < 2 ^ 128 then Some (a + b) else None)"

definition replace128 :: "nat \<Rightarrow> nat \<Rightarrow> nat \<Rightarrow> nat outcome" where
  "replace128 sum0 old new = do { r \<leftarrow> sub_unsigned sum0 old; add128 r new }"

definition total_replace :: "totals \<Rightarrow> usage \<Rightarrow> usage \<Rightarrow> totals outcome" where
  "total_replace t before after = do {
     r \<leftarrow> replace128 (t_reserved t) (reserved before) (reserved after);
     c \<leftarrow> replace128 (t_committed t) (committed before) (committed after);
     s \<leftarrow> replace128 (t_resident t) (resident before) (resident after);
     Some (t\<lparr>t_reserved := r, t_committed := c, t_resident := s\<rparr>)
   }"

definition pending_replace :: "totals \<Rightarrow> nat \<Rightarrow> nat \<Rightarrow> totals outcome" where
  "pending_replace t before after = do {
     p \<leftarrow> replace128 (t_pending t) before after;
     Some (t\<lparr>t_pending := p\<rparr>)
   }"

definition narrow :: "nat \<Rightarrow> nat" where
  "narrow value = min value U64_MAX"

definition total_usage :: "totals \<Rightarrow> usage" where
  "total_usage t = \<lparr>reserved = narrow (t_reserved t), committed = narrow (t_committed t),
     resident = narrow (t_resident t)\<rparr>"

definition admitted_usage :: "totals \<Rightarrow> usage outcome" where
  "admitted_usage t = do {
     r \<leftarrow> add128 (t_resident t) (t_pending t);
     Some ((total_usage t)\<lparr>resident := narrow r\<rparr>)
   }"

section \<open>The ledger\<close>

record budget_entry =
  e_owner :: nat
  e_ranges :: nat
  e_bytes :: totals
  e_resident :: nat
  e_peak :: nat

definition ENTRY_EMPTY :: budget_entry where
  "ENTRY_EMPTY = \<lparr>e_owner = 0, e_ranges = 0, e_bytes = TOTAL_ZERO, e_resident = 0, e_peak = 0\<rparr>"

record ledger =
  l_bytes :: totals
  l_peak :: nat
  applications :: "nat \<Rightarrow> budget_entry"

definition LEDGER_EMPTY :: ledger where
  "LEDGER_EMPTY = \<lparr>l_bytes = TOTAL_ZERO, l_peak = 0, applications = (\<lambda>_. ENTRY_EMPTY)\<rparr>"

definition budget_home :: "nat \<Rightarrow> nat \<Rightarrow> nat" where
  "budget_home N owner =
     wrapping_mul64 (owner XOR drop_bit 32 owner) 0x9e3779b97f4a7c15 AND (N - 1)"

primrec budget_find_from :: "nat \<Rightarrow> (nat \<Rightarrow> budget_entry) \<Rightarrow> nat \<Rightarrow> nat list \<Rightarrow> nat option" where
  "budget_find_from N app owner [] = None"
| "budget_find_from N app owner (distance # rest) =
     (let at = (budget_home N owner + distance) AND (N - 1) in
      if e_ranges (app at) = 0 then None
      else if e_owner (app at) = owner then Some at
      else budget_find_from N app owner rest)"

definition budget_find :: "nat \<Rightarrow> (nat \<Rightarrow> budget_entry) \<Rightarrow> nat \<Rightarrow> nat option" where
  "budget_find N app owner = budget_find_from N app owner [0..<N]"

definition application_contribution :: "contribution \<Rightarrow> usage \<times> nat" where
  "application_contribution c =
     (if application c \<noteq> None then (c_usage c, pending_resident c) else (USAGE_ZERO, 0))"

definition entry_add :: "budget_entry \<Rightarrow> nat \<Rightarrow> contribution \<Rightarrow> budget_entry outcome" where
  "entry_add e owner c = do {
     let (u, pending) = application_contribution c;
     b1 \<leftarrow> total_replace (e_bytes e) USAGE_ZERO u;
     b2 \<leftarrow> pending_replace b1 0 pending;
     r \<leftarrow> add128 (e_resident e) (resident (c_usage c));
     Some \<lparr>e_owner = owner, e_ranges = e_ranges e + 1, e_bytes = b2, e_resident = r,
           e_peak = max (e_peak e) r\<rparr>
   }"

primrec budget_insert_from ::
  "nat \<Rightarrow> (nat \<Rightarrow> budget_entry) \<Rightarrow> nat \<Rightarrow> contribution \<Rightarrow> nat list \<Rightarrow> (nat \<Rightarrow> budget_entry) outcome" where
  "budget_insert_from N app owner c [] = None"
| "budget_insert_from N app owner c (distance # rest) =
     (let at = (budget_home N owner + distance) AND (N - 1) in
      if e_ranges (app at) = 0 \<or> e_owner (app at) = owner
      then do { e \<leftarrow> entry_add (app at) owner c; Some (app(at := e)) }
      else budget_insert_from N app owner c rest)"

definition budget_insert ::
  "nat \<Rightarrow> (nat \<Rightarrow> budget_entry) \<Rightarrow> nat \<Rightarrow> contribution \<Rightarrow> (nat \<Rightarrow> budget_entry) outcome" where
  "budget_insert N app owner c = budget_insert_from N app owner c [0..<N]"

definition wrapping_sub64 :: "nat \<Rightarrow> nat \<Rightarrow> nat" where
  "wrapping_sub64 a b = (a + 2 ^ 64 - b) mod 2 ^ 64"

primrec close_gap :: "nat \<Rightarrow> (nat \<Rightarrow> budget_entry) \<Rightarrow> nat \<Rightarrow> nat \<Rightarrow> nat list \<Rightarrow> (nat \<Rightarrow> budget_entry)" where
  "close_gap N app at hole [] = app"
| "close_gap N app at hole (distance # rest) =
     (let next1 = (at + distance) AND (N - 1); entry = app next1 in
      if e_ranges entry = 0 then app
      else let home = budget_home N (e_owner entry) in
        if wrapping_sub64 next1 hole AND (N - 1) \<le> wrapping_sub64 next1 home AND (N - 1)
        then close_gap N (app(hole := entry, next1 := ENTRY_EMPTY)) at next1 rest
        else close_gap N app at hole rest)"

definition budget_remove ::
  "nat \<Rightarrow> (nat \<Rightarrow> budget_entry) \<Rightarrow> nat \<Rightarrow> contribution \<Rightarrow> (nat \<Rightarrow> budget_entry) outcome" where
  "budget_remove N app owner c = do {
     let (u, pending) = application_contribution c;
     at \<leftarrow> budget_find N app owner;
     let e = app at;
     b1 \<leftarrow> total_replace (e_bytes e) u USAGE_ZERO;
     b2 \<leftarrow> pending_replace b1 pending 0;
     r \<leftarrow> sub_unsigned (e_resident e) (resident (c_usage c));
     n \<leftarrow> sub_unsigned (e_ranges e) 1;
     let e1 = e\<lparr>e_bytes := b2, e_resident := r, e_ranges := n\<rparr>;
     if n \<noteq> 0 then Some (app(at := e1))
     else do {
       assert (b2 = TOTAL_ZERO \<and> r = 0);
       Some (close_gap N (app(at := ENTRY_EMPTY)) at at [1..<N])
     }
   }"

definition entry_change :: "budget_entry \<Rightarrow> contribution \<Rightarrow> contribution \<Rightarrow> budget_entry outcome" where
  "entry_change e before after = do {
     let (old_usage, old_pending) = application_contribution before;
     let (new_usage, new_pending) = application_contribution after;
     b1 \<leftarrow> total_replace (e_bytes e) old_usage new_usage;
     b2 \<leftarrow> pending_replace b1 old_pending new_pending;
     r \<leftarrow> replace128 (e_resident e) (resident (c_usage before)) (resident (c_usage after));
     Some (e\<lparr>e_bytes := b2, e_resident := r, e_peak := max (e_peak e) r\<rparr>)
   }"

definition ledger_change :: "nat \<Rightarrow> ledger \<Rightarrow> contribution \<Rightarrow> contribution \<Rightarrow> ledger outcome" where
  "ledger_change N led before after =
     (if before = after then Some led
      else do {
        b1 \<leftarrow> total_replace (l_bytes led) (c_usage before) (c_usage after);
        b2 \<leftarrow> pending_replace b1 (pending_resident before) (pending_resident after);
        let led1 = led\<lparr>l_bytes := b2, l_peak := max (l_peak led) (t_resident b2)\<rparr>;
        if process before \<noteq> None \<and> process before = process after then do {
          at \<leftarrow> budget_find N (applications led1) (the (process before));
          e \<leftarrow> entry_change (applications led1 at) before after;
          Some (led1\<lparr>applications := (applications led1)(at := e)\<rparr>)
        }
        else do {
          app1 \<leftarrow> (case process before of
                     None \<Rightarrow> Some (applications led1)
                   | Some owner \<Rightarrow> budget_remove N (applications led1) owner before);
          app2 \<leftarrow> (case process after of
                     None \<Rightarrow> Some app1
                   | Some owner \<Rightarrow> budget_insert N app1 owner after);
          Some (led1\<lparr>applications := app2\<rparr>)
        }
      })"

definition ledger_global :: "ledger \<Rightarrow> usage" where
  "ledger_global led = total_usage (l_bytes led)"

definition ledger_application :: "nat \<Rightarrow> ledger \<Rightarrow> nat \<Rightarrow> usage outcome" where
  "ledger_application N led owner =
     (case budget_find N (applications led) owner of
        None \<Rightarrow> Some USAGE_ZERO
      | Some at \<Rightarrow> admitted_usage (e_bytes (applications led at)))"

definition peak_view :: "nat \<Rightarrow> nat \<times> bool" where
  "peak_view value = (min value U64_MAX, U64_MAX < value)"

definition global_peak :: "ledger \<Rightarrow> nat \<times> bool" where
  "global_peak led = peak_view (l_peak led)"

definition process_peak :: "nat \<Rightarrow> ledger \<Rightarrow> nat \<Rightarrow> nat \<times> bool" where
  "process_peak N led owner =
     (case budget_find N (applications led) owner of
        None \<Rightarrow> (0, False)
      | Some at \<Rightarrow> peak_view (e_peak (applications led at)))"

section \<open>The consistency check\<close>

primrec match_global :: "nat \<Rightarrow> ledger \<Rightarrow> (nat \<Rightarrow> contribution) \<Rightarrow> nat list \<Rightarrow> totals \<Rightarrow> totals option outcome" where
  "match_global N led rng [] g = Some (Some g)"
| "match_global N led rng (slot # rest) g = do {
     let c = rng slot;
     g1 \<leftarrow> total_replace g USAGE_ZERO (c_usage c);
     g2 \<leftarrow> pending_replace g1 0 (pending_resident c);
     if (case process c of Some owner \<Rightarrow> budget_find N (applications led) owner = None | None \<Rightarrow> False)
     then Some None
     else match_global N led rng rest g2
   }"

primrec match_sums ::
  "(nat \<Rightarrow> contribution) \<Rightarrow> nat \<Rightarrow> nat list \<Rightarrow> totals \<times> nat \<times> nat \<Rightarrow> (totals \<times> nat \<times> nat) outcome" where
  "match_sums rng owner [] acc = Some acc"
| "match_sums rng owner (slot # rest) acc = do {
     let (bytes, ranges, res) = acc;
     let c = rng slot;
     bytes1 \<leftarrow> (if application c = Some owner then do {
         b1 \<leftarrow> total_replace bytes USAGE_ZERO (c_usage c);
         pending_replace b1 0 (pending_resident c)
       } else Some bytes);
     (if process c = Some owner then do {
        r \<leftarrow> add128 res (resident (c_usage c));
        match_sums rng owner rest (bytes1, ranges + 1, r)
      } else match_sums rng owner rest (bytes1, ranges, res))
   }"

primrec match_entries :: "nat \<Rightarrow> ledger \<Rightarrow> (nat \<Rightarrow> contribution) \<Rightarrow> nat list \<Rightarrow> bool outcome" where
  "match_entries N led rng [] = Some True"
| "match_entries N led rng (at # rest) =
     (let e = applications led at in
      if e_ranges e = 0 then
        if e_bytes e \<noteq> TOTAL_ZERO \<or> e_resident e \<noteq> 0 \<or> e_peak e \<noteq> 0 then Some False
        else match_entries N led rng rest
      else if budget_find N (applications led) (e_owner e) \<noteq> Some at then Some False
      else do {
        (bytes, ranges, res) \<leftarrow> match_sums rng (e_owner e) [0..<N] (TOTAL_ZERO, 0, 0);
        if e_bytes e \<noteq> bytes \<or> e_ranges e \<noteq> ranges \<or> e_resident e \<noteq> res \<or> e_peak e < res
        then Some False
        else match_entries N led rng rest
      })"

definition ledger_matches :: "nat \<Rightarrow> ledger \<Rightarrow> (nat \<Rightarrow> contribution) \<Rightarrow> bool outcome" where
  "ledger_matches N led rng = do {
     g \<leftarrow> match_global N led rng [0..<N] TOTAL_ZERO;
     case g of
       None \<Rightarrow> Some False
     | Some global \<Rightarrow>
         if l_bytes led \<noteq> global \<or> l_peak led < t_resident global then Some False
         else match_entries N led rng [0..<N]
   }"

definition live_at :: "(nat \<Rightarrow> budget_entry) \<Rightarrow> nat \<Rightarrow> bool" where
  "live_at app p \<longleftrightarrow> e_ranges (app p) \<noteq> 0"

definition owner_at :: "(nat \<Rightarrow> budget_entry) \<Rightarrow> nat \<Rightarrow> nat" where
  "owner_at app p = e_owner (app p)"

definition ring_ok :: "nat \<Rightarrow> (nat \<Rightarrow> budget_entry) \<Rightarrow> bool" where
  "ring_ok N app \<longleftrightarrow> reachable N (budget_home N) (live_at app) (live_at app) (owner_at app)
     \<and> one_cell N (live_at app) (owner_at app)
     \<and> (\<exists>l. quiet N (budget_home N) (live_at app) (owner_at app) l)"

abbreviation stops :: "(nat \<Rightarrow> budget_entry) \<Rightarrow> nat \<Rightarrow> nat \<Rightarrow> bool" where
  "stops app owner \<equiv> (\<lambda>c. \<not> live_at app c \<or> live_at app c \<and> owner_at app c = owner)"

definition sum_of :: "nat \<Rightarrow> (contribution \<Rightarrow> nat) \<Rightarrow> (nat \<Rightarrow> contribution) \<Rightarrow> nat" where
  "sum_of N g C = (\<Sum>s<N. g (C s))"

definition totals_of :: "nat \<Rightarrow> (contribution \<Rightarrow> bool) \<Rightarrow> (nat \<Rightarrow> contribution) \<Rightarrow> totals" where
  "totals_of N P C = \<lparr>
     t_reserved = sum_of N (\<lambda>c. if P c then reserved (c_usage c) else 0) C,
     t_committed = sum_of N (\<lambda>c. if P c then committed (c_usage c) else 0) C,
     t_resident = sum_of N (\<lambda>c. if P c then resident (c_usage c) else 0) C,
     t_pending = sum_of N (\<lambda>c. if P c then pending_resident c else 0) C\<rparr>"

definition contribution_wf :: "contribution \<Rightarrow> bool" where
  "contribution_wf c \<longleftrightarrow> reserved (c_usage c) \<le> U64_MAX \<and> committed (c_usage c) \<le> U64_MAX
     \<and> resident (c_usage c) \<le> U64_MAX \<and> pending_resident c \<le> U64_MAX
     \<and> (application c = None \<or> application c = process c)"

definition entry_ok :: "nat \<Rightarrow> (nat \<Rightarrow> contribution) \<Rightarrow> budget_entry \<Rightarrow> bool" where
  "entry_ok N C e \<longleftrightarrow> e_ranges e = sum_of N (\<lambda>c. if process c = Some (e_owner e) then 1 else 0) C
     \<and> e_bytes e = totals_of N (\<lambda>c. application c = Some (e_owner e)) C
     \<and> e_resident e = sum_of N (\<lambda>c. if process c = Some (e_owner e) then resident (c_usage c) else 0) C
     \<and> e_resident e \<le> e_peak e"

definition cells :: "nat \<Rightarrow> (nat \<Rightarrow> budget_entry) \<Rightarrow> budget_entry set" where
  "cells N app = {e. e_ranges e \<noteq> 0 \<and> (\<exists>p < N. app p = e)}"

definition clean :: "nat \<Rightarrow> (nat \<Rightarrow> budget_entry) \<Rightarrow> bool" where
  "clean N app \<longleftrightarrow> (\<forall>p < N. \<not> live_at app p \<longrightarrow> app p = ENTRY_EMPTY)"

definition app_ok :: "nat \<Rightarrow> (nat \<Rightarrow> contribution) \<Rightarrow> (nat \<Rightarrow> budget_entry) \<Rightarrow> bool" where
  "app_ok N C app \<longleftrightarrow> ring_ok N app \<and> clean N app \<and> (\<forall>e \<in> cells N app. entry_ok N C e)
     \<and> (\<forall>s < N. \<forall>owner. process (C s) = Some owner \<longrightarrow> (\<exists>e \<in> cells N app. e_owner e = owner))"

definition ledger_ok :: "nat \<Rightarrow> (nat \<Rightarrow> contribution) \<Rightarrow> ledger \<Rightarrow> bool" where
  "ledger_ok N C led \<longleftrightarrow> (\<forall>s < N. contribution_wf (C s)) \<and> l_bytes led = totals_of N (\<lambda>_. True) C
     \<and> t_resident (l_bytes led) \<le> l_peak led \<and> app_ok N C (applications led)"

lemma and_low_mod: "N = 2 ^ k \<Longrightarrow> (x::nat) AND (N - Suc 0) = x mod N"
  using take_bit_eq_mask [of k x] by (simp add: mask_eq_exp_minus_1 take_bit_eq_mod)

lemma budget_home_lt: "N = 2 ^ k \<Longrightarrow> budget_home N owner < N"
  using and_low_mod [of N k] by (simp add: budget_home_def)

interpretation budget_ring: probe_ring "2 ^ k" "budget_home (2 ^ k)" for k
  by unfold_locales (simp add: budget_home_lt)

lemma live_at_upd: "live_at (app(t := e)) = (live_at app)(t := e_ranges e \<noteq> 0)"
  by (simp add: live_at_def fun_eq_iff)

lemma owner_at_upd: "owner_at (app(t := e)) = (owner_at app)(t := e_owner e)"
  by (auto simp: owner_at_def)

lemma budget_find_eq:
  assumes "N = 2 ^ k"
  shows "budget_find N app owner =
     (case find (stops app owner) (ring_order N (budget_home N owner)) of
        None \<Rightarrow> None | Some c \<Rightarrow> if live_at app c then Some c else None)"
proof -
  have "budget_find_from N app owner ds =
     (case find (stops app owner) (map (\<lambda>d. (budget_home N owner + d) mod N) ds) of
        None \<Rightarrow> None | Some c \<Rightarrow> if live_at app c then Some c else None)" for ds
    by (induction ds) (auto simp: and_low_mod [OF assms] Let_def live_at_def owner_at_def)
  then show ?thesis by (simp add: budget_find_def ring_order_def)
qed

lemma budget_find_Some:
  assumes N: "N = 2 ^ k" and ok: "ring_ok N app"
  shows "budget_find N app owner = Some p \<longleftrightarrow> p < N \<and> live_at app p \<and> owner_at app p = owner"
proof
  assume "budget_find N app owner = Some p"
  then have f: "find (stops app owner) (ring_order N (budget_home N owner)) = Some p" "live_at app p"
    unfolding budget_find_eq [OF N] by (auto split: option.splits if_splits)
  from iffD1 [OF find_ring_Some [OF budget_home_lt [OF N]] f(1)] f(2)
  show "p < N \<and> live_at app p \<and> owner_at app p = owner" by simp
next
  assume p: "p < N \<and> live_at app p \<and> owner_at app p = owner"
  then have "find (stops app owner) (ring_order N (budget_home N owner)) = Some p"
    using budget_ring.lookup_hit [of k "live_at app" "live_at app" "owner_at app" p] ok N
    by (auto simp: ring_ok_def)
  then show "budget_find N app owner = Some p" using p by (simp add: budget_find_eq [OF N])
qed

lemma budget_insert_eq:
  assumes "N = 2 ^ k"
  shows "budget_insert N app owner c =
     (case find (stops app owner) (ring_order N (budget_home N owner)) of
        None \<Rightarrow> None | Some at \<Rightarrow> do { e \<leftarrow> entry_add (app at) owner c; Some (app(at := e)) })"
proof -
  have "budget_insert_from N app owner c ds =
     (case find (stops app owner) (map (\<lambda>d. (budget_home N owner + d) mod N) ds) of
        None \<Rightarrow> None | Some at \<Rightarrow> do { e \<leftarrow> entry_add (app at) owner c; Some (app(at := e)) })" for ds
    by (induction ds) (auto simp: and_low_mod [OF assms] Let_def live_at_def owner_at_def)
  then show ?thesis by (simp add: budget_insert_def ring_order_def)
qed

lemma wrapping_dist:
  assumes "N = 2 ^ k" and "k \<le> 63" and "a < N" and "b < N"
  shows "wrapping_sub64 b a AND (N - 1) = ring_dist N a b"
proof -
  have dv: "N dvd 2 ^ 64" unfolding assms(1) by (rule le_imp_power_dvd) (use assms(2) in simp)
  then obtain m where m: "(2::nat) ^ 64 = N * m" by (elim dvdE)
  have m0: "0 < m" using m by (cases m) auto
  have "wrapping_sub64 b a mod N = (b + 2 ^ 64 - a) mod N"
    unfolding wrapping_sub64_def by (rule mod_mod_cancel [OF dv])
  also have "b + 2 ^ 64 - a = (b + N - a) + (m - 1) * N"
    using m m0 assms(3) by (cases m) (auto simp: algebra_simps)
  also have "\<dots> mod N = (b + N - a) mod N" by simp
  also have "\<dots> = ring_dist N a b"
    using assms(3,4) by (auto simp: ring_dist_def le_mod_geq)
  finally show ?thesis by (simp add: and_low_mod [OF assms(1)])
qed

lemma sum_of_upd: "i < N \<Longrightarrow> sum_of N g (C(i := c)) + g (C i) = sum_of N g C + g c"
proof -
  assume i: "i < N"
  have "sum_of N g D = g (D i) + (\<Sum>s \<in> {..<N} - {i}. g (D s))" for D
    using i by (simp add: sum_of_def sum.remove)
  moreover have "(\<Sum>s \<in> {..<N} - {i}. g ((C(i := c)) s)) = (\<Sum>s \<in> {..<N} - {i}. g (C s))"
    by (rule sum.cong) auto
  ultimately show ?thesis by simp
qed

lemma sum_of_ge: "i < N \<Longrightarrow> g (C i) \<le> sum_of N g C"
  unfolding sum_of_def by (rule member_le_sum) auto

lemma sum_of_bound:
  assumes "\<forall>s < N. g (C s) \<le> U64_MAX" and "N \<le> 2 ^ 63"
  shows "sum_of N g C < 2 ^ 128"
proof -
  have "sum_of N g C \<le> (\<Sum>s<N. U64_MAX)" unfolding sum_of_def by (rule sum_mono) (use assms in auto)
  also have "\<dots> = N * U64_MAX" by simp
  also have "\<dots> \<le> 2 ^ 63 * U64_MAX" using assms(2) by simp
  also have "\<dots> < 2 ^ 128" by simp
  finally show ?thesis .
qed

lemma sum_of_cong: "(\<And>s. s < N \<Longrightarrow> g (C s) = h (D s)) \<Longrightarrow> sum_of N g C = sum_of N h D"
  unfolding sum_of_def by (rule sum.cong) auto

lemma replace128_sum:
  assumes "i < N" and "\<forall>s < N. g (C s) \<le> U64_MAX" and "g c \<le> U64_MAX" and "N \<le> 2 ^ 63"
    and "old = g (C i)" and "new = g c"
  shows "replace128 (sum_of N g C) old new = Some (sum_of N g (C(i := c)))"
proof -
  have "sum_of N g (C(i := c)) < 2 ^ 128" using sum_of_bound [of N g "C(i := c)"] assms by auto
  moreover have "sum_of N g C - g (C i) + g c = sum_of N g (C(i := c))"
    using sum_of_upd [OF assms(1), of g C c] sum_of_ge [OF assms(1), of g C] by linarith
  ultimately show ?thesis
    using sum_of_ge [OF assms(1), of g C] assms(5,6) by (simp add: replace128_def add128_def del: power_numeral)
qed

lemma total_replace_sum:
  assumes "i < N" and "N \<le> 2 ^ 63" and "\<forall>s < N. contribution_wf (C s)" and "contribution_wf c"
    and "u = (if P (C i) then c_usage (C i) else USAGE_ZERO)" and "v = (if P c then c_usage c else USAGE_ZERO)"
    and "t = totals_of N P C"
  shows "total_replace t u v = Some ((totals_of N P (C(i := c)))\<lparr>t_pending := t_pending t\<rparr>)"
proof -
  have "replace128 (sum_of N (\<lambda>c. if P c then f (c_usage c) else 0) C) (f u) (f v)
      = Some (sum_of N (\<lambda>c. if P c then f (c_usage c) else 0) (C(i := c)))"
    if "f USAGE_ZERO = 0" "\<And>c. contribution_wf c \<Longrightarrow> f (c_usage c) \<le> U64_MAX" for f
    by (rule replace128_sum [OF assms(1) _ _ assms(2)]) (use that assms in auto)
  then show ?thesis
    by (simp add: assms(7) total_replace_def totals_of_def contribution_wf_def USAGE_ZERO_def)
qed

lemma pending_replace_sum:
  assumes "i < N" and "N \<le> 2 ^ 63" and "\<forall>s < N. contribution_wf (C s)" and "contribution_wf c"
    and "u = (if P (C i) then pending_resident (C i) else 0)" and "v = (if P c then pending_resident c else 0)"
    and "t_pending t = t_pending (totals_of N P C)"
  shows "pending_replace t u v = Some (t\<lparr>t_pending := t_pending (totals_of N P (C(i := c)))\<rparr>)"
proof -
  have "replace128 (sum_of N (\<lambda>c. if P c then pending_resident c else 0) C) u v
      = Some (sum_of N (\<lambda>c. if P c then pending_resident c else 0) (C(i := c)))"
    by (rule replace128_sum [OF assms(1) _ _ assms(2)]) (use assms in \<open>auto simp: contribution_wf_def\<close>)
  then show ?thesis using assms(7) by (simp add: pending_replace_def totals_of_def)
qed

text \<open>Replacing one slot's contribution in a total, both parts together.\<close>

lemma replace_both:
  assumes "i < N" and "N \<le> 2 ^ 63" and "\<forall>s < N. contribution_wf (C s)" and "contribution_wf c"
    and "u = (if P (C i) then c_usage (C i) else USAGE_ZERO)" and "v = (if P c then c_usage c else USAGE_ZERO)"
    and "pu = (if P (C i) then pending_resident (C i) else 0)" and "pv = (if P c then pending_resident c else 0)"
  shows "do { b1 \<leftarrow> total_replace (totals_of N P C) u v; pending_replace b1 pu pv } = Some (totals_of N P (C(i := c)))"
  using total_replace_sum [OF assms(1-6) refl] pending_replace_sum [OF assms(1-4,7,8)] by simp

lemma application_part:
  assumes "contribution_wf c" and "process c = Some owner"
  shows "application_contribution c =
     (if application c = Some owner then c_usage c else USAGE_ZERO,
      if application c = Some owner then pending_resident c else 0)"
  using assms by (auto simp: application_contribution_def contribution_wf_def)

lemma zero_wf [simp]: "contribution_wf CONTRIBUTION_ZERO"
  by (simp add: contribution_wf_def CONTRIBUTION_ZERO_def USAGE_ZERO_def)

lemma zero_simps [simp]: "process CONTRIBUTION_ZERO = None" "application CONTRIBUTION_ZERO = None"
  by (simp_all add: CONTRIBUTION_ZERO_def)

lemma entry_ok_upd:
  assumes "i < N" and "process (C i) \<noteq> Some (e_owner e)" and "process c \<noteq> Some (e_owner e)"
    and "contribution_wf (C i)" and "contribution_wf c"
  shows "entry_ok N (C(i := c)) e \<longleftrightarrow> entry_ok N C e"
proof -
  have a: "application (C i) \<noteq> Some (e_owner e)" "application c \<noteq> Some (e_owner e)"
    using assms(2-5) by (auto simp: contribution_wf_def)
  have "sum_of N (\<lambda>c. if P c then f c else 0) (C(i := c)) = sum_of N (\<lambda>c. if P c then f c else 0) C"
    if "\<not> P (C i)" "\<not> P c" for P and f :: "contribution \<Rightarrow> nat"
    using sum_of_upd [OF assms(1), of "\<lambda>c. if P c then f c else 0" C c] that by simp
  note same = this
  have t: "totals_of N (\<lambda>c. application c = Some (e_owner e)) (C(i := c))
      = totals_of N (\<lambda>c. application c = Some (e_owner e)) C"
    unfolding totals_of_def using same [of "\<lambda>c. application c = Some (e_owner e)"] a by simp
  show ?thesis unfolding entry_ok_def t
    using same [of "\<lambda>c. process c = Some (e_owner e)"] assms(2,3) by simp
qed

lemma entry_add_ok:
  assumes "i < N" and "N \<le> 2 ^ 63" and wf: "\<forall>s < N. contribution_wf (C s)" "contribution_wf c"
    and "process (C i) = None" and "process c = Some owner"
    and "entry_ok N C e" and "e_owner e = owner"
  shows "\<exists>e'. entry_add e owner c = Some e' \<and> entry_ok N (C(i := c)) e' \<and> e_owner e' = owner \<and> e_ranges e' \<noteq> 0"
proof -
  let ?P = "\<lambda>c. application c = Some owner" and ?Q = "\<lambda>c. process c = Some owner"
  let ?T = "totals_of N ?P"
  have none: "application (C i) = None" using wf(1) assms(1,5) by (auto simp: contribution_wf_def)
  note ok = assms(7) [unfolded entry_ok_def assms(8)]
  have b1: "total_replace (?T C) USAGE_ZERO (if ?P c then c_usage c else USAGE_ZERO)
      = Some ((?T (C(i := c)))\<lparr>t_pending := t_pending (?T C)\<rparr>)"
    by (rule total_replace_sum [OF assms(1,2) wf]) (use none in auto)
  have b2: "pending_replace ((?T (C(i := c)))\<lparr>t_pending := t_pending (?T C)\<rparr>) 0 (if ?P c then pending_resident c else 0)
      = Some (?T (C(i := c)))"
    using pending_replace_sum [OF assms(1,2) wf, of 0 ?P "if ?P c then pending_resident c else 0"
        "(?T (C(i := c)))\<lparr>t_pending := t_pending (?T C)\<rparr>"] none by simp
  let ?f = "\<lambda>c. if ?Q c then resident (c_usage c) else 0" and ?n = "\<lambda>c. if ?Q c then 1 else (0::nat)"
  have bd: "\<forall>s < N. ?f ((C(i := c)) s) \<le> U64_MAX" using wf by (auto simp: contribution_wf_def)
  have r: "sum_of N ?f (C(i := c)) = sum_of N ?f C + resident (c_usage c)"
    using sum_of_upd [OF assms(1), of ?f C c] assms(5,6) by simp
  have n: "sum_of N ?n (C(i := c)) = sum_of N ?n C + 1"
    using sum_of_upd [OF assms(1), of ?n C c] assms(5,6) by simp
  have "sum_of N ?f (C(i := c)) < 2 ^ 128" by (rule sum_of_bound [OF bd assms(2)])
  then have "add128 (e_resident e) (resident (c_usage c)) = Some (sum_of N ?f (C(i := c)))"
    using ok r by (simp add: add128_def del: power_numeral)
  then show ?thesis
    using b1 b2 ok n
    by (simp add: entry_add_def application_part [OF wf(2) assms(6)] entry_ok_def)
qed

lemma empty_entry_ok:
  assumes "\<forall>s < N. contribution_wf (C s)" and "\<forall>s < N. process (C s) \<noteq> Some owner"
  shows "entry_ok N C (ENTRY_EMPTY\<lparr>e_owner := owner\<rparr>)"
proof -
  have a: "\<forall>s < N. application (C s) \<noteq> Some owner" using assms by (auto simp: contribution_wf_def)
  have "sum_of N (\<lambda>c. if P c then f c else 0) C = 0" if "\<forall>s < N. \<not> P (C s)" for P and f :: "contribution \<Rightarrow> nat"
    using that by (simp add: sum_of_def)
  then show ?thesis using a assms(2) by (simp add: entry_ok_def ENTRY_EMPTY_def TOTAL_ZERO_def totals_of_def)
qed

lemma entry_add_owner: "entry_add (e\<lparr>e_owner := o'\<rparr>) owner c = entry_add e owner c"
  by (simp add: entry_add_def)

lemma entry_change_ok:
  assumes "i < N" and "N \<le> 2 ^ 63" and wf: "\<forall>s < N. contribution_wf (C s)" "contribution_wf c"
    and "process (C i) = Some owner" and "process c = Some owner"
    and "entry_ok N C e" and "e_owner e = owner"
  shows "\<exists>e'. entry_change e (C i) c = Some e' \<and> entry_ok N (C(i := c)) e' \<and> e_owner e' = owner
     \<and> e_ranges e' = e_ranges e"
proof -
  let ?P = "\<lambda>c. application c = Some owner" and ?Q = "\<lambda>c. process c = Some owner"
  let ?T = "totals_of N ?P"
  note ok = assms(7) [unfolded entry_ok_def assms(8)]
  have wi: "contribution_wf (C i)" using wf(1) assms(1) by blast
  have b1: "total_replace (?T C) (if ?P (C i) then c_usage (C i) else USAGE_ZERO) (if ?P c then c_usage c else USAGE_ZERO)
      = Some ((?T (C(i := c)))\<lparr>t_pending := t_pending (?T C)\<rparr>)"
    by (rule total_replace_sum [OF assms(1,2) wf]) auto
  have b2: "pending_replace ((?T (C(i := c)))\<lparr>t_pending := t_pending (?T C)\<rparr>)
        (if ?P (C i) then pending_resident (C i) else 0) (if ?P c then pending_resident c else 0)
      = Some (?T (C(i := c)))"
    using pending_replace_sum [where P = ?P and t = "(?T (C(i := c)))\<lparr>t_pending := t_pending (?T C)\<rparr>",
        OF assms(1,2) wf refl refl] by simp
  let ?f = "\<lambda>c. if ?Q c then resident (c_usage c) else 0" and ?n = "\<lambda>c. if ?Q c then 1 else (0::nat)"
  have r: "replace128 (sum_of N ?f C) (resident (c_usage (C i))) (resident (c_usage c)) = Some (sum_of N ?f (C(i := c)))"
    by (rule replace128_sum [OF assms(1) _ _ assms(2)]) (use wf assms(5,6) in \<open>auto simp: contribution_wf_def\<close>)
  have n: "sum_of N ?n (C(i := c)) = sum_of N ?n C"
    using sum_of_upd [OF assms(1), of ?n C c] assms(5,6) by simp
  show ?thesis
    using b1 b2 r ok n
    by (simp add: entry_change_def application_part [OF wi assms(5)] application_part [OF wf(2) assms(6)]
        entry_ok_def assms(8))
qed

lemma cellsI: "p < N \<Longrightarrow> app p = e \<Longrightarrow> e_ranges e \<noteq> 0 \<Longrightarrow> e \<in> cells N app"
  by (auto simp: cells_def)

lemma close_gap_ok:
  assumes N: "N = 2 ^ k" "k \<le> 63" and "gap N (budget_home N) (live_at app) (owner_at app) at hole d l" and "d \<le> N"
    and "one_cell N (live_at app) (owner_at app)" and "clean N app"
  shows "ring_ok N (close_gap N app at hole [d..<N]) \<and> clean N (close_gap N app at hole [d..<N])
     \<and> cells N (close_gap N app at hole [d..<N]) = cells N app"
  using assms(3-6)
proof (induction "N - d" arbitrary: app hole d)
  case 0
  then have "d = N" by simp
  then have "reachable N (budget_home N) (live_at app) (live_at app) (owner_at app)"
    using budget_ring.gap_end [of k "live_at app" "owner_at app" at hole l] 0 N by simp
  then show ?case using \<open>d = N\<close> 0 gapD(7) [OF 0(2)] by (auto simp: ring_ok_def)
next
  case (Suc x)
  then have d: "d < N" by simp
  then have up: "[d..<N] = d # [d + 1..<N]" by (simp add: upt_conv_Cons)
  let ?n = "(at + d) mod N"
  have g: "at < N" "hole < N" "\<not> live_at app hole" using gapD [OF Suc.prems(1)] by auto
  have n: "?n < N" using d by simp
  have and_n: "(at + d) AND (N - Suc 0) = ?n" by (rule and_low_mod [OF N(1)])
  show ?case
  proof (cases "live_at app ?n")
    case False
    then have "reachable N (budget_home N) (live_at app) (live_at app) (owner_at app)"
      using budget_ring.gap_break [of k "live_at app" "owner_at app" at hole d l] Suc.prems(1) d N by simp
    moreover have "close_gap N app at hole [d..<N] = app"
      using False by (simp add: up and_n live_at_def)
    ultimately show ?thesis using Suc.prems gapD(7) [OF Suc.prems(1)] by (auto simp: ring_ok_def)
  next
    case live: True
    let ?h = "budget_home N (e_owner (app ?n))"
    have hN: "?h < N" by (rule budget_home_lt [OF N(1)])
    have test: "wrapping_sub64 ?n hole AND (N - Suc 0) \<le> wrapping_sub64 ?n ?h AND (N - Suc 0)
        \<longleftrightarrow> on_path N ?h hole ?n"
      using wrapping_dist [OF N g(2) n] wrapping_dist [OF N hN n] on_path_iff [OF hN n g(2)] by simp
    show ?thesis
    proof (cases "on_path N ?h hole ?n")
      case False
      then have eq: "close_gap N app at hole [d..<N] = close_gap N app at hole [d + 1..<N]"
        using live test by (simp add: up and_n live_at_def Let_def)
      have "gap N (budget_home N) (live_at app) (owner_at app) at hole (d + 1) l"
        using budget_ring.gap_skip [of k "live_at app" "owner_at app" at hole d l] Suc.prems(1) d N False
        by (simp add: owner_at_def)
      then show ?thesis unfolding eq using Suc.hyps(1) [of "d + 1" app hole] Suc.hyps(2) Suc.prems d by simp
    next
      case True
      let ?app = "app(hole := app ?n, ?n := ENTRY_EMPTY)"
      have neq: "?n \<noteq> hole" using live g(3) by auto
      have eq: "close_gap N app at hole [d..<N] = close_gap N ?app at ?n [d + 1..<N]"
        using live test True by (simp add: up and_n live_at_def Let_def)
      have lv: "live_at ?app = (live_at app)(hole := True, ?n := False)"
        using live by (auto simp: live_at_def ENTRY_EMPTY_def fun_eq_iff)
      have "gap N (budget_home N) ((live_at app)(hole := True, ?n := False))
           ((owner_at app)(hole := owner_at app ?n)) at ?n (d + 1) l"
        using budget_ring.gap_move [of k "live_at app" "owner_at app" at hole d l ?n] Suc.prems(1) d N live True
        by (simp add: owner_at_def)
      then have gap: "gap N (budget_home N) (live_at ?app) (owner_at ?app) at ?n (d + 1) l"
        unfolding lv by (rule gap_key_cong) (auto simp: owner_at_def split: if_splits)
      have one: "one_cell N (live_at ?app) (owner_at ?app)"
        unfolding lv one_cell_def
      proof (intro allI impI)
        fix p q assume a: "p < N" "q < N" "((live_at app)(hole := True, ?n := False)) p \<and>
           ((live_at app)(hole := True, ?n := False)) q \<and> owner_at ?app p = owner_at ?app q"
        define m where "m x = (if x = hole then ?n else x)" for x
        have o: "owner_at ?app x = owner_at app (m x)" "live_at app (m x)" "m x < N"
          if "((live_at app)(hole := True, ?n := False)) x" "x < N" for x
          using that live n by (auto simp: owner_at_def m_def split: if_splits)
        then have "m p = m q" using Suc.prems(3) a unfolding one_cell_def by metis
        then show "p = q" using a(3) by (auto simp: m_def split: if_splits)
      qed
      have cl: "clean N ?app" using Suc.prems(4) by (auto simp: clean_def lv)
      have "cells N ?app = cells N app"
      proof -
        have "app hole = ENTRY_EMPTY" using Suc.prems(4) g by (auto simp: clean_def)
        then have h0: "e_ranges (app hole) = 0" by (simp add: ENTRY_EMPTY_def)
        show ?thesis
        proof (intro set_eqI iffI)
          fix e assume "e \<in> cells N ?app"
          then obtain p where p: "e_ranges e \<noteq> 0" "p < N" "?app p = e" by (auto simp: cells_def)
          then have "p \<noteq> ?n" by (auto simp: ENTRY_EMPTY_def)
          then have "app (if p = hole then ?n else p) = e" using p(3) by (auto split: if_splits)
          then show "e \<in> cells N app"
            by (rule cellsI [of "if p = hole then ?n else p", rotated]) (use p n in auto)
        next
          fix e assume "e \<in> cells N app"
          then obtain p where p: "e_ranges e \<noteq> 0" "p < N" "app p = e" by (auto simp: cells_def)
          then have "p \<noteq> hole" using h0 by auto
          then have "?app (if p = ?n then hole else p) = e" using p neq by auto
          then show "e \<in> cells N ?app"
            by (rule cellsI [of "if p = ?n then hole else p", rotated]) (use p g(2) in auto)
        qed
      qed
      then show ?thesis unfolding eq
        using Suc.hyps(1) [of "d + 1" ?app ?n, OF _ gap _ one cl] Suc.hyps(2) d by simp
    qed
  qed
qed

end
