(* ===== verification/Vm_Ledger.thy ===== *)
theory Vm_Ledger
  imports Vm_Budget
begin

text \<open>
  The budget ledger of \<open>src/Rust/memory/vm_budget.rs\<close> against the range table: every update keeps the
  ring searchable and every entry equal to the sums over the range slots (\<open>ledger_ok\<close>), so that no
  update can panic, the budget queries return the sums and the consistency check \<open>matches\<close> holds.
\<close>

section \<open>Specification\<close>

inductive budget_reach :: "nat \<Rightarrow> (nat \<Rightarrow> contribution) \<Rightarrow> ledger \<Rightarrow> bool" for N where
  budget_start: "budget_reach N (\<lambda>_. CONTRIBUTION_ZERO) LEDGER_EMPTY"
| budget_step: "budget_reach N C led \<Longrightarrow> i < N \<Longrightarrow> contribution_wf c \<Longrightarrow>
     ledger_change N led (C i) c = Some led' \<Longrightarrow> budget_reach N (C(i := c)) led'"

definition usage_of :: "nat \<Rightarrow> (nat \<Rightarrow> contribution) \<Rightarrow> nat \<Rightarrow> usage" where
  "usage_of N C owner =
     (let t = totals_of N (\<lambda>c. application c = Some owner) C
      in \<lparr>reserved = narrow (t_reserved t), committed = narrow (t_committed t),
          resident = narrow (t_resident t + t_pending t)\<rparr>)"

section \<open>Entries and cells\<close>

lemma ring_ok_same: "live_at app' = live_at app \<Longrightarrow> owner_at app' = owner_at app \<Longrightarrow> ring_ok N app' \<longleftrightarrow> ring_ok N app"
  by (simp add: ring_ok_def)

lemma cells_find:
  assumes "N = 2 ^ k" and "ring_ok N app" and "e \<in> cells N app"
  obtains p where "p < N" "app p = e" "live_at app p" "budget_find N app (e_owner e) = Some p"
  using assms budget_find_Some [OF assms(1,2)] by (auto simp: cells_def live_at_def owner_at_def)

lemma cells_owner_inj:
  assumes "ring_ok N app" and "e \<in> cells N app" and "f \<in> cells N app" and "e_owner e = e_owner f"
  shows "e = f"
proof -
  obtain p q where pq: "p < N" "q < N" "app p = e" "app q = f" "live_at app p" "live_at app q"
    using assms(2,3) by (auto simp: cells_def live_at_def)
  moreover have "p = q"
    using assms(1,4) pq unfolding ring_ok_def one_cell_def owner_at_def by metis
  ultimately show ?thesis by simp
qed

lemma app_ok_cell:
  "app_ok N C app \<Longrightarrow> s < N \<Longrightarrow> process (C s) = Some owner \<Longrightarrow> \<exists>e \<in> cells N app. e_owner e = owner"
  unfolding app_ok_def by blast

text \<open>Overwriting the cell of a live entry by another entry of the same owner.\<close>

lemma cells_update:
  assumes "ring_ok N app" and "p < N" and "live_at app p" and "e_owner e' = e_owner (app p)" and "e_ranges e' \<noteq> 0"
  shows "ring_ok N (app(p := e'))" and "clean N app \<Longrightarrow> clean N (app(p := e'))"
    and "cells N (app(p := e')) = insert e' (cells N app - {app p})"
proof -
  have l: "live_at (app(p := e')) = live_at app" "owner_at (app(p := e')) = owner_at app"
    using assms(3-5) by (auto simp: live_at_def owner_at_def fun_eq_iff)
  then show "ring_ok N (app(p := e'))" "clean N app \<Longrightarrow> clean N (app(p := e'))"
    using assms(1,3) ring_ok_same [OF l] by (auto simp: clean_def l)
  have "app q = app p \<longleftrightarrow> q = p" if "q < N" "e_ranges (app q) \<noteq> 0" for q
    using assms(1-3) that unfolding ring_ok_def one_cell_def live_at_def owner_at_def by metis
  note uniq = this
  show "cells N (app(p := e')) = insert e' (cells N app - {app p})"
  proof (intro set_eqI iffI)
    fix e assume "e \<in> cells N (app(p := e'))"
    then obtain q where q: "e_ranges e \<noteq> 0" "q < N" "(app(p := e')) q = e" by (auto simp: cells_def)
    show "e \<in> insert e' (cells N app - {app p})"
    proof (cases "q = p")
      case False
      then have "app q = e" using q(3) by simp
      moreover then have "e \<noteq> app p" using uniq [OF q(2)] q(1) False by auto
      ultimately show ?thesis using q by (auto simp: cells_def)
    qed (use q(3) in simp)
  next
    fix e assume "e \<in> insert e' (cells N app - {app p})"
    then show "e \<in> cells N (app(p := e'))"
    proof
      assume "e = e'"
      then show ?thesis using assms(2,5) by (auto simp: cells_def intro!: exI [of _ p])
    next
      assume "e \<in> cells N app - {app p}"
      then obtain q where q: "e_ranges e \<noteq> 0" "q < N" "app q = e" "q \<noteq> p" by (auto simp: cells_def)
      then show ?thesis by (auto simp: cells_def intro!: exI [of _ q])
    qed
  qed
qed

lemma app_ok_update:
  assumes ok: "app_ok N C app" and i: "i < N" and p: "p < N" "live_at app p" "owner_at app p = owner"
    and e': "e_owner e' = owner" "e_ranges e' \<noteq> 0" "entry_ok N (C(i := c)) e'"
    and wf: "contribution_wf (C i)" "contribution_wf c"
    and pr: "process (C i) = None \<or> process (C i) = Some owner" "process c = None \<or> process c = Some owner"
  shows "app_ok N (C(i := c)) (app(p := e'))"
proof -
  have ring: "ring_ok N app" using ok by (simp add: app_ok_def)
  have o: "e_owner e' = e_owner (app p)" using p(3) e'(1) by (simp add: owner_at_def)
  note up = cells_update [OF ring p(1,2) o e'(2)]
  have pc: "app p \<in> cells N app" using p by (auto simp: cells_def live_at_def)
  have oth: "e_owner f \<noteq> owner" if "f \<in> cells N app - {app p}" for f
    using that cells_owner_inj [OF ring _ pc] p(3) by (auto simp: owner_at_def)
  have a: "\<forall>f \<in> cells N (app(p := e')). entry_ok N (C(i := c)) f"
    unfolding up(3)
  proof
    fix f assume "f \<in> insert e' (cells N app - {app p})"
    then show "entry_ok N (C(i := c)) f"
    proof
      assume f: "f \<in> cells N app - {app p}"
      then have "entry_ok N C f" using ok by (auto simp: app_ok_def)
      then show ?thesis using entry_ok_upd [of i N C f c] i wf oth [OF f] pr by auto
    qed (use e'(3) in simp)
  qed
  have b: "\<exists>f \<in> cells N (app(p := e')). e_owner f = w" if "s < N" "process ((C(i := c)) s) = Some w" for s w
  proof (cases "w = owner")
    case True
    then show ?thesis unfolding up(3) using e'(1) by auto
  next
    case False
    then have "s \<noteq> i" using that(2) pr(2) by auto
    then have "process (C s) = Some w" using that(2) by simp
    then obtain f where "f \<in> cells N app" "e_owner f = w" using app_ok_cell [OF ok \<open>s < N\<close>] by blast
    moreover then have "f \<noteq> app p" using False p(3) by (auto simp: owner_at_def)
    ultimately show ?thesis unfolding up(3) by auto
  qed
  show ?thesis using ok up(1,2) a b by (simp add: app_ok_def)
qed

lemma budget_change_ok:
  assumes N: "N = 2 ^ k" "k \<le> 63" and ok: "app_ok N C app" and i: "i < N"
    and wf: "\<forall>s < N. contribution_wf (C s)" "contribution_wf c"
    and pr: "process (C i) = Some owner" "process c = Some owner"
  shows "\<exists>at e'. budget_find N app owner = Some at \<and> entry_change (app at) (C i) c = Some e'
     \<and> app_ok N (C(i := c)) (app(at := e'))"
proof -
  have N63: "N \<le> 2 ^ 63" unfolding N(1) by (rule power_increasing) (use N(2) in auto)
  have ring: "ring_ok N app" using ok by (simp add: app_ok_def)
  obtain e where e: "e \<in> cells N app" "e_owner e = owner" using app_ok_cell [OF ok i pr(1)] by blast
  obtain p where p: "p < N" "app p = e" "live_at app p" "budget_find N app owner = Some p"
    using cells_find [OF N(1) ring e(1)] e(2) by metis
  have "entry_ok N C e" using ok e(1) by (simp add: app_ok_def)
  from entry_change_ok [OF i N63 wf pr this e(2)] obtain e' where
    e': "entry_change e (C i) c = Some e'" "entry_ok N (C(i := c)) e'" "e_owner e' = owner" "e_ranges e' = e_ranges e"
    by blast
  have "app_ok N (C(i := c)) (app(p := e'))"
    by (rule app_ok_update [OF ok i p(1,3)]) (use e e' p wf i pr in \<open>auto simp: owner_at_def live_at_def\<close>)
  then show ?thesis using p e' by auto
qed

lemma budget_remove_ok:
  assumes N: "N = 2 ^ k" "k \<le> 63" and ok: "app_ok N C app" and i: "i < N"
    and wf: "\<forall>s < N. contribution_wf (C s)" and pr: "process (C i) = Some owner"
  shows "\<exists>app'. budget_remove N app owner (C i) = Some app' \<and> app_ok N (C(i := CONTRIBUTION_ZERO)) app'"
proof -
  let ?Z = "CONTRIBUTION_ZERO" and ?D = "C(i := CONTRIBUTION_ZERO)"
  let ?P = "\<lambda>c. application c = Some owner" and ?Q = "\<lambda>c. process c = Some owner"
  let ?T = "totals_of N ?P"
  have N63: "N \<le> 2 ^ 63" unfolding N(1) by (rule power_increasing) (use N(2) in auto)
  have ring: "ring_ok N app" and cl: "clean N app" using ok by (auto simp: app_ok_def)
  have wi: "contribution_wf (C i)" using wf i by blast
  obtain e where e: "e \<in> cells N app" "e_owner e = owner" using app_ok_cell [OF ok i pr] by blast
  obtain p where p: "p < N" "app p = e" "live_at app p" "budget_find N app owner = Some p"
    using cells_find [OF N(1) ring e(1)] e(2) by metis
  have eok: "entry_ok N C e" using ok e(1) by (simp add: app_ok_def)
  note eq = eok [unfolded entry_ok_def e(2)]
  have b1: "total_replace (?T C) (if ?P (C i) then c_usage (C i) else USAGE_ZERO) USAGE_ZERO
      = Some ((?T ?D)\<lparr>t_pending := t_pending (?T C)\<rparr>)"
    by (rule total_replace_sum [OF i N63 wf zero_wf]) auto
  have b2: "pending_replace ((?T ?D)\<lparr>t_pending := t_pending (?T C)\<rparr>) (if ?P (C i) then pending_resident (C i) else 0) 0
      = Some (?T ?D)"
    using pending_replace_sum [where P = ?P and t = "(?T ?D)\<lparr>t_pending := t_pending (?T C)\<rparr>" and v = 0,
        OF i N63 wf zero_wf refl] by simp
  let ?f = "\<lambda>c. if ?Q c then resident (c_usage c) else 0" and ?n = "\<lambda>c. if ?Q c then 1 else (0::nat)"
  have r: "sum_of N ?f C = sum_of N ?f ?D + resident (c_usage (C i))"
    using sum_of_upd [OF i, of ?f C ?Z] pr by simp
  have n: "sum_of N ?n C = sum_of N ?n ?D + 1"
    using sum_of_upd [OF i, of ?n C ?Z] pr by simp
  let ?e = "e\<lparr>e_bytes := ?T ?D, e_resident := sum_of N ?f ?D, e_ranges := sum_of N ?n ?D\<rparr>"
  have run: "budget_remove N app owner (C i) =
     (if sum_of N ?n ?D \<noteq> 0 then Some (app(p := ?e))
      else do { assert (?T ?D = TOTAL_ZERO \<and> sum_of N ?f ?D = 0);
                Some (close_gap N (app(p := ENTRY_EMPTY)) p p [1..<N]) })"
    using p b1 b2 r n eq by (simp add: budget_remove_def application_part [OF wi pr] Let_def)
  have e1: "entry_ok N ?D ?e" using eq r e(2) by (simp add: entry_ok_def)
  show ?thesis
  proof (cases "sum_of N ?n ?D = 0")
    case False
    have "app_ok N ?D (app(p := ?e))"
      by (rule app_ok_update [OF ok i p(1,3) _ _ _ e1 wi zero_wf]) (use e p False pr in \<open>auto simp: owner_at_def\<close>)
    then show ?thesis using run False by simp
  next
    case True
    have none: "\<forall>s < N. process (?D s) \<noteq> Some owner"
      using True by (auto simp: sum_of_def split: if_splits)
    have wfD: "\<forall>s < N. contribution_wf (?D s)" using wf by simp
    have z: "?T ?D = TOTAL_ZERO" "sum_of N ?f ?D = 0"
      using empty_entry_ok [of N ?D owner] wfD none by (auto simp: entry_ok_def ENTRY_EMPTY_def simp del: fun_upd_apply)
    let ?app = "app(p := ENTRY_EMPTY)"
    have lv: "live_at ?app = (live_at app)(p := False)" by (auto simp: live_at_def ENTRY_EMPTY_def fun_eq_iff)
    obtain l where l: "quiet N (budget_home N) (live_at app) (owner_at app) l" using ring by (auto simp: ring_ok_def)
    have "gap N (budget_home N) ((live_at app)(p := False)) (owner_at app) p p 1 l"
      using budget_ring.gap_start [of k "live_at app" "owner_at app" p l] ring l N p(1) by (simp add: ring_ok_def)
    then have gap: "gap N (budget_home N) (live_at ?app) (owner_at ?app) p p 1 l"
      unfolding lv by (rule gap_key_cong) (auto simp: owner_at_def split: if_splits)
    have one: "one_cell N (live_at ?app) (owner_at ?app)"
      using ring by (auto simp: ring_ok_def one_cell_def lv owner_at_def)
    have cl1: "clean N ?app" using cl by (auto simp: clean_def lv)
    have N1: "1 \<le> N" using p(1) by simp
    let ?a = "close_gap N ?app p p [1..<N]"
    have c: "ring_ok N ?a" "clean N ?a" "cells N ?a = cells N ?app"
      using close_gap_ok [OF N gap N1 one cl1] by auto
    have "cells N ?app = cells N app - {e}"
    proof -
      have "app q = e \<longleftrightarrow> q = p" if "q < N" for q
        using ring p that e(1) unfolding ring_ok_def one_cell_def live_at_def owner_at_def by metis
      then show ?thesis using p(1,2) by (auto simp: cells_def ENTRY_EMPTY_def)
    qed
    then have cs: "cells N ?a = cells N app - {e}" using c(3) by simp
    have oth: "e_owner f \<noteq> owner" if "f \<in> cells N app - {e}" for f
      using that cells_owner_inj [OF ring _ e(1)] e(2) by auto
    have "entry_ok N ?D f" if "f \<in> cells N app - {e}" for f
      using entry_ok_upd [of i N C f ?Z] i wi oth [OF that] that ok pr by (auto simp: app_ok_def)
    moreover have "\<exists>f \<in> cells N app - {e}. e_owner f = w" if s: "s < N" "process (?D s) = Some w" for s w
    proof -
      have "w \<noteq> owner" "s \<noteq> i" using none s by auto
      then have "process (C s) = Some w" using s(2) by simp
      from app_ok_cell [OF ok s(1) this] \<open>w \<noteq> owner\<close> e(2) show ?thesis by auto
    qed
    ultimately have "app_ok N ?D ?a" using c cs by (simp add: app_ok_def)
    then show ?thesis using run True z by simp
  qed
qed

text \<open>
  There is always room: with no process in slot \<open>i\<close>, the live owners are the processes of the other
  slots, so a ring whose cells are all live with other owners is impossible.
\<close>

lemma ring_has_room:
  assumes "N = 2 ^ k" and ok: "app_ok N C app" and i: "i < N" and pr: "process (C i) = None"
  shows "\<exists>c < N. \<not> live_at app c \<or> owner_at app c = owner"
proof (rule ccontr)
  assume "\<not> ?thesis"
  then have all: "\<forall>c < N. live_at app c" by auto
  have ex: "\<exists>s < N. process (C s) = Some (owner_at app c)" if c: "c < N" for c
  proof (rule ccontr)
    assume none: "\<not> ?thesis"
    have "app c \<in> cells N app" using all c by (auto simp: cells_def live_at_def)
    then have "e_ranges (app c) = sum_of N (\<lambda>c'. if process c' = Some (owner_at app c) then 1 else 0) C"
      using ok by (auto simp: app_ok_def entry_ok_def owner_at_def)
    also have "\<dots> = 0" using none by (auto simp: sum_of_def)
    finally show False using all c by (auto simp: live_at_def)
  qed
  define slot where "slot c = (SOME s. s < N \<and> process (C s) = Some (owner_at app c))" for c
  have slot: "slot c < N \<and> process (C (slot c)) = Some (owner_at app c)" if "c < N" for c
    unfolding slot_def by (rule someI_ex) (use ex [OF that] in blast)
  have inj: "inj_on slot {..<N}"
  proof (rule inj_onI)
    fix p q assume a: "p \<in> {..<N}" "q \<in> {..<N}" "slot p = slot q"
    then have "owner_at app p = owner_at app q" using slot [of p] slot [of q] by auto
    then show "p = q" using ok all a(1,2) unfolding app_ok_def ring_ok_def one_cell_def by blast
  qed
  have "slot ` {..<N} \<subseteq> {..<N} - {i}" using slot pr by force
  then have "card (slot ` {..<N}) \<le> card ({..<N} - {i})" by (intro card_mono) auto
  then show False using card_image [OF inj] i by simp
qed

lemma budget_insert_ok:
  assumes N: "N = 2 ^ k" "k \<le> 63" and ok: "app_ok N C app" and i: "i < N"
    and wf: "\<forall>s < N. contribution_wf (C s)" "contribution_wf c"
    and pr: "process (C i) = None" "process c = Some owner"
  shows "\<exists>app'. budget_insert N app owner c = Some app' \<and> app_ok N (C(i := c)) app'"
proof -
  have N63: "N \<le> 2 ^ 63" unfolding N(1) by (rule power_increasing) (use N(2) in auto)
  have ring: "ring_ok N app" and cl: "clean N app" using ok by (auto simp: app_ok_def)
  have wi: "contribution_wf (C i)" using wf i by blast
  obtain at where at: "find (stops app owner) (ring_order N (budget_home N owner)) = Some at"
    using ring_has_room [OF N(1) ok i pr(1), of owner] find_ring_None [OF budget_home_lt [OF N(1), of owner]]
    by (cases "find (stops app owner) (ring_order N (budget_home N owner))") auto
  note at' = iffD1 [OF find_ring_Some [OF budget_home_lt [OF N(1)]] at]
  show ?thesis
  proof (cases "live_at app at")
    case True
    then have o: "owner_at app at = owner" using at' by simp
    have "app at \<in> cells N app" using True at' by (auto intro: cellsI simp: live_at_def)
    then have "entry_ok N C (app at)" using ok by (simp add: app_ok_def)
    from entry_add_ok [OF i N63 wf pr this] o obtain e' where
      e': "entry_add (app at) owner c = Some e'" "entry_ok N (C(i := c)) e'" "e_owner e' = owner" "e_ranges e' \<noteq> 0"
      by (auto simp: owner_at_def)
    have "app_ok N (C(i := c)) (app(at := e'))"
      by (rule app_ok_update [OF ok i _ True o e'(3,4,2) wi wf(2)]) (use at' pr in auto)
    then show ?thesis using at e' by (simp add: budget_insert_eq [OF N(1)])
  next
    case False
    have atN: "at < N" using at' by simp
    have before: "\<forall>c < N. on_path N (budget_home N owner) c at \<and> c \<noteq> at \<longrightarrow> live_at app c \<and> owner_at app c \<noteq> owner"
      using at' by auto
    have fresh: "\<forall>p < N. live_at app p \<longrightarrow> owner_at app p \<noteq> owner"
    proof (intro allI impI notI)
      fix p assume p: "p < N" "live_at app p" "owner_at app p = owner"
      then have "find (stops app owner) (ring_order N (budget_home N owner)) = Some p"
        using budget_ring.lookup_hit [of k "live_at app" "live_at app" "owner_at app" p] ring N(1)
        by (auto simp: ring_ok_def)
      then show False using at False p(2) by simp
    qed
    have none: "\<forall>s < N. process (C s) \<noteq> Some owner"
    proof (intro allI impI notI)
      fix s assume "s < N" "process (C s) = Some owner"
      from app_ok_cell [OF ok this] fresh show False by (auto simp: cells_def live_at_def owner_at_def)
    qed
    have emp: "app at = ENTRY_EMPTY" using cl atN False by (simp add: clean_def)
    have "entry_ok N C (ENTRY_EMPTY\<lparr>e_owner := owner\<rparr>)" by (rule empty_entry_ok [OF wf(1) none])
    from entry_add_ok [OF i N63 wf pr this] obtain e' where
      e': "entry_add ENTRY_EMPTY owner c = Some e'" "entry_ok N (C(i := c)) e'" "e_owner e' = owner" "e_ranges e' \<noteq> 0"
      by (auto simp: entry_add_owner)
    let ?app = "app(at := e')"
    have lv: "live_at ?app = (live_at app)(at := True)" and ow: "owner_at ?app = (owner_at app)(at := owner)"
      using e' by (auto simp: live_at_def owner_at_def fun_eq_iff)
    have re: "reachable N (budget_home N) (live_at app) (live_at app) (owner_at app)"
      and oc: "one_cell N (live_at app) (owner_at app)" using ring by (auto simp: ring_ok_def)
    have "ring_ok N ?app"
      unfolding ring_ok_def lv ow
      using budget_ring.reachable_store [of k "live_at app" "live_at app" "owner_at app" at owner] re atN before N(1)
        budget_ring.one_cell_store [of k "live_at app" "owner_at app" owner at] oc fresh
        budget_ring.quiet_store [of k "live_at app" "owner_at app" at owner] False
      by (intro conjI exI) simp_all
    moreover have "clean N ?app" using cl by (auto simp: clean_def lv)
    moreover have cs: "cells N ?app = insert e' (cells N app)"
    proof (intro set_eqI iffI)
      fix e assume "e \<in> cells N ?app"
      then show "e \<in> insert e' (cells N app)" by (auto simp: cells_def split: if_splits)
    next
      fix e assume e: "e \<in> insert e' (cells N app)"
      show "e \<in> cells N ?app"
      proof (cases "e = e'")
        case True
        then show ?thesis using e'(4) atN by (intro cellsI [of at]) auto
      next
        case False
        then obtain p where p: "p < N" "app p = e" "e_ranges e \<noteq> 0" using e by (auto simp: cells_def)
        then have "p \<noteq> at" using emp by (auto simp: ENTRY_EMPTY_def)
        then show ?thesis using p by (intro cellsI [of p]) auto
      qed
    qed
    moreover have "entry_ok N (C(i := c)) f" if "f \<in> cells N app" for f
    proof -
      have "e_owner f \<noteq> owner" using fresh that by (auto simp: cells_def live_at_def owner_at_def)
      moreover have "entry_ok N C f" using ok that by (simp add: app_ok_def)
      ultimately show ?thesis using entry_ok_upd [of i N C f c] i wi wf(2) pr by simp
    qed
    moreover have "\<exists>f \<in> insert e' (cells N app). e_owner f = w" if s: "s < N" "process ((C(i := c)) s) = Some w" for s w
    proof (cases "s = i")
      case True
      then show ?thesis using s(2) pr(2) e'(3) by simp
    next
      case False
      then have "process (C s) = Some w" using s(2) by simp
      from app_ok_cell [OF ok s(1) this] show ?thesis by auto
    qed
    ultimately have "app_ok N (C(i := c)) ?app" using e'(2) by (simp add: app_ok_def)
    then show ?thesis using at e' emp by (simp add: budget_insert_eq [OF N(1)])
  qed
qed

text \<open>Slots without a process do not show in the ring.\<close>

lemma app_ok_silent:
  assumes "app_ok N C app" and "i < N" and "process (C i) = None" and "process c = None"
    and "contribution_wf (C i)" and "contribution_wf c"
  shows "app_ok N (C(i := c)) app"
proof -
  have "entry_ok N (C(i := c)) e" if "e \<in> cells N app" for e
    using entry_ok_upd [of i N C e c] assms that by (simp add: app_ok_def)
  moreover have "\<exists>e \<in> cells N app. e_owner e = w" if "s < N" "process ((C(i := c)) s) = Some w" for s w
  proof -
    have "process (C s) = Some w" using that(2) assms(4) by (cases "s = i") auto
    from app_ok_cell [OF assms(1) that(1) this] show ?thesis .
  qed
  ultimately show ?thesis using assms(1) by (simp add: app_ok_def)
qed

lemma ledger_change_ok:
  assumes N: "N = 2 ^ k" "k \<le> 63" and ok: "ledger_ok N C led" and i: "i < N" and wc: "contribution_wf c"
  shows "\<exists>led'. ledger_change N led (C i) c = Some led' \<and> ledger_ok N (C(i := c)) led'"
proof (cases "C i = c")
  case True
  then have "C(i := c) = C" by auto
  then show ?thesis using ok True by (simp add: ledger_change_def)
next
  case False
  have N63: "N \<le> 2 ^ 63" unfolding N(1) by (rule power_increasing) (use N(2) in auto)
  have wf: "\<forall>s < N. contribution_wf (C s)" and app: "app_ok N C (applications led)"
    and lb: "l_bytes led = totals_of N (\<lambda>_. True) C" using ok by (auto simp: ledger_ok_def)
  have wi: "contribution_wf (C i)" using wf i by blast
  let ?T = "totals_of N (\<lambda>_. True)"
  have b1: "total_replace (?T C) (c_usage (C i)) (c_usage c) = Some ((?T (C(i := c)))\<lparr>t_pending := t_pending (?T C)\<rparr>)"
    by (rule total_replace_sum [OF i N63 wf wc]) auto
  have b2: "pending_replace ((?T (C(i := c)))\<lparr>t_pending := t_pending (?T C)\<rparr>) (pending_resident (C i)) (pending_resident c)
      = Some (?T (C(i := c)))"
    using pending_replace_sum [where P = "\<lambda>_. True" and t = "(?T (C(i := c)))\<lparr>t_pending := t_pending (?T C)\<rparr>",
        OF i N63 wf wc refl refl] by simp
  let ?L = "led\<lparr>l_bytes := ?T (C(i := c)), l_peak := max (l_peak led) (t_resident (?T (C(i := c))))\<rparr>"
  have wf': "\<forall>s < N. contribution_wf ((C(i := c)) s)" using wf wc by simp
  have fin: "ledger_ok N (C(i := c)) (?L\<lparr>applications := app'\<rparr>)" if "app_ok N (C(i := c)) app'" for app'
    using that wf' by (simp add: ledger_ok_def)
  have pair: "C i \<noteq> c" using False .
  have unf: "ledger_change N led (C i) c =
     (if process (C i) \<noteq> None \<and> process (C i) = process c then do {
          at \<leftarrow> budget_find N (applications led) (the (process (C i)));
          e \<leftarrow> entry_change (applications led at) (C i) c;
          Some (?L\<lparr>applications := (applications led)(at := e)\<rparr>)
        }
        else do {
          app1 \<leftarrow> (case process (C i) of None \<Rightarrow> Some (applications led)
                   | Some owner \<Rightarrow> budget_remove N (applications led) owner (C i));
          app2 \<leftarrow> (case process c of None \<Rightarrow> Some app1 | Some owner \<Rightarrow> budget_insert N app1 owner c);
          Some (?L\<lparr>applications := app2\<rparr>)
        })"
    using pair b1 b2 by (cases "process (C i)"; cases "process c") (simp_all add: ledger_change_def lb Let_def)
  show ?thesis
  proof (cases "process (C i) \<noteq> None \<and> process (C i) = process c")
    case True
    then obtain owner where "process (C i) = Some owner" by blast
    with True have o: "process (C i) = Some owner" "process c = Some owner" by simp_all
    from budget_change_ok [OF N app i wf wc o] obtain at e' where
      "budget_find N (applications led) owner = Some at" "entry_change (applications led at) (C i) c = Some e'"
      "app_ok N (C(i := c)) ((applications led)(at := e'))" by blast
    then show ?thesis unfolding unf using o fin by simp
  next
    case ne: False
    let ?D = "C(i := CONTRIBUTION_ZERO)"
    have "\<exists>app1. (case process (C i) of None \<Rightarrow> Some (applications led)
                   | Some owner \<Rightarrow> budget_remove N (applications led) owner (C i)) = Some app1 \<and> app_ok N ?D app1"
    proof (cases "process (C i)")
      case None
      then show ?thesis using app_ok_silent [OF app i None _ wi zero_wf] by simp
    next
      case (Some owner)
      then show ?thesis using budget_remove_ok [OF N app i wf Some] by simp
    qed
    then obtain app1 where a1: "(case process (C i) of None \<Rightarrow> Some (applications led)
                   | Some owner \<Rightarrow> budget_remove N (applications led) owner (C i)) = Some app1" "app_ok N ?D app1" by blast
    have wfD: "\<forall>s < N. contribution_wf (?D s)" using wf by simp
    have DC: "?D(i := c) = C(i := c)" by simp
    have "\<exists>app2. (case process c of None \<Rightarrow> Some app1 | Some owner \<Rightarrow> budget_insert N app1 owner c) = Some app2
        \<and> app_ok N (C(i := c)) app2"
    proof (cases "process c")
      case None
      have "app_ok N (?D(i := c)) app1" by (rule app_ok_silent [OF a1(2) i _ None _ wc]) simp_all
      then show ?thesis unfolding DC using None by simp
    next
      case (Some owner)
      have "process (?D i) = None" by simp
      from budget_insert_ok [OF N a1(2) i wfD wc this Some] show ?thesis unfolding DC using Some by simp
    qed
    then obtain app2 where a2: "(case process c of None \<Rightarrow> Some app1 | Some owner \<Rightarrow> budget_insert N app1 owner c) = Some app2"
      "app_ok N (C(i := c)) app2" by blast
    show ?thesis unfolding unf if_not_P [OF ne] a1(1) bind.bind_lunit a2(1) using fin [OF a2(2)] by blast
  qed
qed

lemma ledger_empty_ok:
  assumes "N = 2 ^ k"
  shows "ledger_ok N (\<lambda>_. CONTRIBUTION_ZERO) LEDGER_EMPTY"
proof -
  have "live_at (\<lambda>_. ENTRY_EMPTY) = (\<lambda>_. False)" by (simp add: live_at_def ENTRY_EMPTY_def fun_eq_iff)
  then have "ring_ok N (\<lambda>_. ENTRY_EMPTY)" using assms
    by (auto simp: ring_ok_def reachable_def one_cell_def quiet_def intro!: exI [of _ 0])
  moreover have "cells N (\<lambda>_. ENTRY_EMPTY) = {}" by (auto simp: cells_def ENTRY_EMPTY_def)
  moreover have "totals_of N (\<lambda>_. True) (\<lambda>_. CONTRIBUTION_ZERO) = TOTAL_ZERO"
    by (simp add: totals_of_def sum_of_def TOTAL_ZERO_def CONTRIBUTION_ZERO_def USAGE_ZERO_def)
  ultimately show ?thesis
    by (simp add: ledger_ok_def LEDGER_EMPTY_def app_ok_def clean_def TOTAL_ZERO_def)
qed

lemma budget_reach_ok:
  assumes "N = 2 ^ k" "k \<le> 63" and "budget_reach N C led"
  shows "ledger_ok N C led"
  using assms(3)
proof (induction rule: budget_reach.induct)
  case budget_start
  then show ?case by (rule ledger_empty_ok [OF assms(1)])
next
  case (budget_step C led i c led')
  then show ?case using ledger_change_ok [OF assms(1,2), of C led i c] by (auto simp del: fun_upd_apply)
qed

section \<open>The check never fails\<close>

lemma sum_of_Suc: "sum_of (Suc a) g C = sum_of a g C + g (C a)"
  by (simp add: sum_of_def)

lemma sum_of_zero [simp]: "sum_of 0 g C = 0"
  by (simp add: sum_of_def)

lemma totals_of_zero [simp]: "totals_of 0 P C = TOTAL_ZERO"
  by (simp add: totals_of_def TOTAL_ZERO_def)

lemma totals_of_step:
  assumes "a < N" and "N \<le> 2 ^ 63" and "\<forall>s < N. contribution_wf (C s)"
  shows "do { b \<leftarrow> total_replace (totals_of a P C) USAGE_ZERO (if P (C a) then c_usage (C a) else USAGE_ZERO);
              pending_replace b 0 (if P (C a) then pending_resident (C a) else 0) } = Some (totals_of (Suc a) P C)"
proof -
  have "sum_of (Suc a) (\<lambda>c. if P c then f c else 0) C < 2 ^ 128"
    if "\<And>c. contribution_wf c \<Longrightarrow> f c \<le> U64_MAX" for f
    by (rule sum_of_bound) (use that assms in auto)
  note bd = this [unfolded sum_of_Suc]
  have "sum_of a (\<lambda>c. if P c then f c else 0) C + (if P (C a) then f (C a) else 0) < 2 ^ 128"
    if "\<And>c. contribution_wf c \<Longrightarrow> f c \<le> U64_MAX" for f using bd [of f] that by simp
  note bd = this
  show ?thesis
    using bd [of "\<lambda>c. reserved (c_usage c)"] bd [of "\<lambda>c. committed (c_usage c)"]
      bd [of "\<lambda>c. resident (c_usage c)"] bd [of pending_resident]
    by (cases "P (C a)")
      (simp_all add: total_replace_def pending_replace_def replace128_def add128_def totals_of_def sum_of_Suc
        USAGE_ZERO_def contribution_wf_def del: power_numeral)
qed

lemma match_global_ok:
  assumes "N \<le> 2 ^ 63" and "\<forall>s < N. contribution_wf (C s)"
    and "\<forall>s < N. \<forall>owner. process (C s) = Some owner \<longrightarrow> budget_find N (applications led) owner \<noteq> None"
    and "a \<le> N"
  shows "match_global N led C [a..<N] (totals_of a (\<lambda>_. True) C) = Some (Some (totals_of N (\<lambda>_. True) C))"
  using assms(4)
proof (induction "N - a" arbitrary: a)
  case (Suc x)
  then have a: "a < N" by simp
  then have up: "[a..<N] = a # [Suc a..<N]" by (simp add: upt_conv_Cons)
  have f: "\<not> (case process (C a) of Some owner \<Rightarrow> budget_find N (applications led) owner = None | None \<Rightarrow> False)"
    using assms(3) a by (auto split: option.splits)
  have st: "do { b \<leftarrow> total_replace (totals_of a (\<lambda>_. True) C) USAGE_ZERO (c_usage (C a));
              pending_replace b 0 (pending_resident (C a)) } = Some (totals_of (Suc a) (\<lambda>_. True) C)"
    using totals_of_step [OF a assms(1,2), of "\<lambda>_. True"] by simp
  then obtain b where b: "total_replace (totals_of a (\<lambda>_. True) C) USAGE_ZERO (c_usage (C a)) = Some b"
      "pending_replace b 0 (pending_resident (C a)) = Some (totals_of (Suc a) (\<lambda>_. True) C)"
    by (auto simp: bind_eq_Some_conv)
  show ?case unfolding up using b f Suc.hyps(1) [of "Suc a"] Suc.hyps(2) a by simp
qed simp

lemma match_sums_ok:
  assumes "N \<le> 2 ^ 63" and "\<forall>s < N. contribution_wf (C s)" and "a \<le> N"
  shows "match_sums C owner [a..<N] (totals_of a (\<lambda>c. application c = Some owner) C,
      sum_of a (\<lambda>c. if process c = Some owner then 1 else 0) C,
      sum_of a (\<lambda>c. if process c = Some owner then resident (c_usage c) else 0) C)
    = Some (totals_of N (\<lambda>c. application c = Some owner) C,
      sum_of N (\<lambda>c. if process c = Some owner then 1 else 0) C,
      sum_of N (\<lambda>c. if process c = Some owner then resident (c_usage c) else 0) C)"
  using assms(3)
proof (induction "N - a" arbitrary: a)
  case (Suc x)
  let ?P = "\<lambda>c. application c = Some owner" and ?f = "\<lambda>c. if process c = Some owner then resident (c_usage c) else 0"
  have a: "a < N" using Suc by simp
  then have up: "[a..<N] = a # [Suc a..<N]" by (simp add: upt_conv_Cons)
  have t: "(if ?P (C a) then do { b1 \<leftarrow> total_replace (totals_of a ?P C) USAGE_ZERO (c_usage (C a));
         pending_replace b1 0 (pending_resident (C a)) } else Some (totals_of a ?P C)) = Some (totals_of (Suc a) ?P C)"
  proof (cases "?P (C a)")
    case True
    then show ?thesis using totals_of_step [OF a assms(1,2), of ?P] by simp
  next
    case False
    then show ?thesis by (simp add: totals_of_def sum_of_Suc)
  qed
  have "sum_of (Suc a) ?f C < 2 ^ 128"
    by (rule sum_of_bound) (use assms a in \<open>auto simp: contribution_wf_def\<close>)
  then have r: "add128 (sum_of a ?f C) (resident (c_usage (C a))) = Some (sum_of (Suc a) ?f C)" if "process (C a) = Some owner"
    using that by (simp add: add128_def sum_of_Suc del: power_numeral)
  have x: "x = N - Suc a" using Suc.hyps(2) by simp
  show ?case unfolding up match_sums.simps prod.case Let_def t bind.bind_lunit
    using r Suc.hyps(1) [OF x] a by (cases "process (C a) = Some owner") (simp_all add: sum_of_Suc)
qed simp

lemma ledger_matches_ok:
  assumes N: "N = 2 ^ k" "k \<le> 63" and ok: "ledger_ok N C led"
  shows "ledger_matches N led C = Some True"
proof -
  have N63: "N \<le> 2 ^ 63" unfolding N(1) by (rule power_increasing) (use N(2) in auto)
  have wf: "\<forall>s < N. contribution_wf (C s)" and app: "app_ok N C (applications led)"
    and lb: "l_bytes led = totals_of N (\<lambda>_. True) C" "t_resident (l_bytes led) \<le> l_peak led"
    using ok by (auto simp: ledger_ok_def)
  have ring: "ring_ok N (applications led)" using app by (simp add: app_ok_def)
  note fs = budget_find_Some [OF N(1) ring]
  have found: "\<forall>s < N. \<forall>owner. process (C s) = Some owner \<longrightarrow> budget_find N (applications led) owner \<noteq> None"
  proof (intro allI impI)
    fix s owner assume "s < N" "process (C s) = Some owner"
    from app_ok_cell [OF app this] obtain e where e: "e \<in> cells N (applications led)" "e_owner e = owner" by blast
    from cells_find [OF N(1) ring e(1)] e(2) show "budget_find N (applications led) owner \<noteq> None" by auto
  qed
  have g: "match_global N led C [0..<N] TOTAL_ZERO = Some (Some (totals_of N (\<lambda>_. True) C))"
    using match_global_ok [OF N63 wf found, of 0] by simp
  have "match_entries N led C [a..<N] = Some True" if "a \<le> N" for a
    using that
  proof (induction "N - a" arbitrary: a)
    case (Suc x)
    have a: "a < N" using Suc by simp
    then have up: "[a..<N] = a # [Suc a..<N]" by (simp add: upt_conv_Cons)
    have rest: "match_entries N led C [Suc a..<N] = Some True" using Suc.hyps(1) [of "Suc a"] Suc.hyps(2) a by simp
    show ?case
    proof (cases "live_at (applications led) a")
      case False
      then have "applications led a = ENTRY_EMPTY" using app a by (simp add: app_ok_def clean_def)
      then show ?thesis unfolding up using rest by (simp add: ENTRY_EMPTY_def)
    next
      case True
      let ?e = "applications led a"
      have "?e \<in> cells N (applications led)" using True a by (auto intro: cellsI simp: live_at_def)
      then have eo: "entry_ok N C ?e" using app by (simp add: app_ok_def)
      have "match_sums C (e_owner ?e) [0..<N] (TOTAL_ZERO, 0, 0) = Some (e_bytes ?e, e_ranges ?e, e_resident ?e)"
        using match_sums_ok [OF N63 wf, of 0 "e_owner ?e"] eo by (simp add: entry_ok_def)
      moreover have "budget_find N (applications led) (e_owner ?e) = Some a"
        using fs a True by (simp add: owner_at_def)
      moreover have "e_resident ?e \<le> e_peak ?e" using eo by (simp add: entry_ok_def)
      ultimately show ?thesis unfolding up using rest True by (simp add: live_at_def Let_def)
    qed
  qed simp
  then show ?thesis using g lb by (simp add: ledger_matches_def)
qed

lemma sum_of_half:
  assumes "\<forall>s < N. g (C s) \<le> U64_MAX" and "N \<le> 2 ^ 63"
  shows "sum_of N g C < 2 ^ 127"
proof -
  have "sum_of N g C \<le> (\<Sum>s<N. U64_MAX)" unfolding sum_of_def by (rule sum_mono) (use assms in auto)
  also have "\<dots> \<le> 2 ^ 63 * U64_MAX" using assms(2) by simp
  also have "\<dots> < 2 ^ 127" by simp
  finally show ?thesis .
qed

lemma ledger_application_ok:
  assumes N: "N = 2 ^ k" "k \<le> 63" and ok: "ledger_ok N C led"
  shows "ledger_application N led owner = Some (usage_of N C owner)"
proof -
  have N63: "N \<le> 2 ^ 63" unfolding N(1) by (rule power_increasing) (use N(2) in auto)
  have wf: "\<forall>s < N. contribution_wf (C s)" and app: "app_ok N C (applications led)"
    using ok by (auto simp: ledger_ok_def)
  have ring: "ring_ok N (applications led)" using app by (simp add: app_ok_def)
  let ?P = "\<lambda>c. application c = Some owner"
  show ?thesis
  proof (cases "budget_find N (applications led) owner")
    case None
    have none: "\<forall>s < N. process (C s) \<noteq> Some owner"
    proof (intro allI impI notI)
      fix s assume "s < N" "process (C s) = Some owner"
      from app_ok_cell [OF app this] obtain e where e: "e \<in> cells N (applications led)" "e_owner e = owner" by blast
      from cells_find [OF N(1) ring e(1)] e(2) None show False by auto
    qed
    have "totals_of N ?P C = TOTAL_ZERO"
      using empty_entry_ok [OF wf none] by (simp add: entry_ok_def ENTRY_EMPTY_def)
    then show ?thesis
      using None by (simp add: ledger_application_def usage_of_def TOTAL_ZERO_def USAGE_ZERO_def narrow_def)
  next
    case (Some at)
    then have at: "at < N" "live_at (applications led) at" "owner_at (applications led) at = owner"
      using budget_find_Some [OF N(1) ring] by auto
    then have "applications led at \<in> cells N (applications led)" by (auto intro: cellsI simp: live_at_def)
    then have "e_bytes (applications led at) = totals_of N ?P C"
      using app at(3) by (auto simp: app_ok_def entry_ok_def owner_at_def)
    moreover have "t_resident (totals_of N ?P C) + t_pending (totals_of N ?P C) < 2 ^ 128"
    proof -
      have "t_resident (totals_of N ?P C) < 2 ^ 127" "t_pending (totals_of N ?P C) < 2 ^ 127"
        unfolding totals_of_def totals.simps
        by (rule sum_of_half; use wf N63 in \<open>auto simp: contribution_wf_def\<close>)+
      then show ?thesis by simp
    qed
    ultimately show ?thesis
      using Some by (simp add: ledger_application_def admitted_usage_def add128_def usage_of_def total_usage_def Let_def
          del: power_numeral)
  qed
qed

section \<open>Properties\<close>

text \<open>
  C23. Whatever sequence of range updates led to a ledger, the next update of any slot goes through:
  the owner to be debited is found, the totals do not underflow or overflow, a retired owner's entry
  is empty, the ring has room for a new owner, and the cluster of a removed entry is closed.
\<close>

theorem ledger_never_panics:
  assumes "budget_reach (2 ^ k) C led" and "k \<le> 63" and "i < 2 ^ k" and "contribution_wf c"
  shows "\<exists>led'. ledger_change (2 ^ k) led (C i) c = Some led' \<and> budget_reach (2 ^ k) (C(i := c)) led'"
  using ledger_change_ok [OF refl assms(2) budget_reach_ok [OF refl assms(2,1)] assms(3,4)]
    budget_reach.budget_step [OF assms(1,3,4)] by blast

theorem ledger_never_panics_witness:
  "\<exists>led'. ledger_change 4 LEDGER_EMPTY CONTRIBUTION_ZERO
      \<lparr>c_usage = \<lparr>reserved = 8192, committed = 4096, resident = 4096\<rparr>, application = Some 7, process = Some 7,
       pending_resident = 0\<rparr> = Some led'"
  using ledger_never_panics [OF budget_reach.budget_start, of 2 0
      "\<lparr>c_usage = \<lparr>reserved = 8192, committed = 4096, resident = 4096\<rparr>, application = Some 7, process = Some 7,
       pending_resident = 0\<rparr>"] by (auto simp: contribution_wf_def)

text \<open>
  C22. The ledger refines the range table: after any sequence of updates the global usage, the usage of
  every application (with the pages still being read in) and the peaks are the sums over the range
  slots, clamped to 64 bits, and the kernel's own consistency check answers true.
\<close>

theorem ledger_refines_ranges:
  assumes "budget_reach (2 ^ k) C led" and "k \<le> 63"
  shows "ledger_global led = total_usage (totals_of (2 ^ k) (\<lambda>_. True) C)
     \<and> ledger_application (2 ^ k) led owner = Some (usage_of (2 ^ k) C owner)
     \<and> t_resident (totals_of (2 ^ k) (\<lambda>_. True) C) \<le> l_peak led
     \<and> ledger_matches (2 ^ k) led C = Some True"
proof -
  have ok: "ledger_ok (2 ^ k) C led" by (rule budget_reach_ok [OF refl assms(2,1)])
  then have "l_bytes led = totals_of (2 ^ k) (\<lambda>_. True) C" "t_resident (l_bytes led) \<le> l_peak led"
    by (auto simp: ledger_ok_def)
  then show ?thesis
    using ledger_application_ok [OF refl assms(2) ok] ledger_matches_ok [OF refl assms(2) ok]
    by (simp add: ledger_global_def)
qed

theorem ledger_refines_ranges_witness:
  "\<exists>C led. budget_reach (2 ^ 2) C led \<and> process (C 0) = Some 7
     \<and> ledger_application 4 led 7 = Some \<lparr>reserved = 8192, committed = 4096, resident = 8192\<rparr>"
proof -
  let ?c = "\<lparr>c_usage = \<lparr>reserved = 8192, committed = 4096, resident = 4096\<rparr>, application = Some 7, process = Some 7,
       pending_resident = 4096\<rparr>"
  let ?C = "(\<lambda>_. CONTRIBUTION_ZERO)(0 := ?c)"
  have w: "contribution_wf ?c" by (simp add: contribution_wf_def)
  obtain led where l: "ledger_change (2 ^ 2) LEDGER_EMPTY CONTRIBUTION_ZERO ?c = Some led"
    using ledger_change_ok [OF refl _ ledger_empty_ok [OF refl], of 2 0 ?c] w by auto
  have r: "budget_reach (2 ^ 2) ?C led"
    by (rule budget_reach.budget_step [OF budget_reach.budget_start _ w l]) simp
  have four: "{..<4::nat} = {0, 1, 2, 3}" by auto
  have "usage_of 4 ?C 7 = \<lparr>reserved = 8192, committed = 4096, resident = 8192\<rparr>"
    by (simp add: usage_of_def totals_of_def sum_of_def four narrow_def)
  moreover have "ledger_application 4 led 7 = Some (usage_of 4 ?C 7)"
    using ledger_refines_ranges [OF r, of 7] by simp
  ultimately show ?thesis using r by (intro exI [of _ ?C] exI [of _ led]) simp
qed

end
