(* ===== verification/Vm_Index.thy ===== *)
theory Vm_Index
  imports Probe_Ring
begin

text \<open>
  The indices over the VM range table, \<open>src/Rust/memory/vm_index.rs\<close>: the address order (slots
  sorted by base, with the inverse position array), the identity table (open addressing with
  tombstones) and the next-fit search for a free slot. The range table itself belongs to
  \<open>src/Rust/memory/vm_ranges.rs\<close>; the operations take its projection \<open>tab\<close> as an argument, as the
  code reads it through \<open>record\<close>. \<open>None\<close> is a panic: an array index out of range, the table
  assertion, or the identity counter running over.
\<close>

section \<open>Data\<close>

definition RANGES :: nat where
  "RANGES = 1024"

definition IDS :: nat where
  "IDS = RANGES * 2"

definition NONE :: nat where
  "NONE = U64_MAX"

definition U16_MAX :: nat where
  "U16_MAX = 65535"

record vm_record =
  rec_id :: nat
  rec_slot_used :: bool
  rec_status :: nat
  rec_window :: nat
  rec_base :: nat
  rec_len :: nat

definition rec_active :: "vm_record \<Rightarrow> bool" where
  "rec_active r = (rec_slot_used r \<and> rec_status r \<noteq> 5)"

definition record_at :: "(nat \<Rightarrow> vm_record) \<Rightarrow> nat \<Rightarrow> vm_record outcome" where
  "record_at tab slot = index_get RANGES tab slot"

record index_stats =
  range_index_capacity :: nat
  range_index_entries :: nat
  range_index_tombstones :: nat
  range_index_lookups :: nat
  range_index_hits :: nat
  range_index_misses :: nat
  range_index_probe_total :: nat
  range_index_probe_max :: nat
  range_index_probe_last :: nat
  range_index_rebuilds :: nat
  range_index_insert_failures :: nat
  range_free_slot_lookups :: nat
  range_free_slot_probe_total :: nat
  range_free_slot_probe_max :: nat
  range_free_slot_probe_last :: nat
  range_address_entries :: nat
  range_address_lookups :: nat
  range_address_probe_total :: nat
  range_address_probe_max :: nat
  range_address_probe_last :: nat

definition INDEX_STATS_EMPTY :: index_stats where
  "INDEX_STATS_EMPTY = \<lparr>range_index_capacity = IDS, range_index_entries = 0, range_index_tombstones = 0,
     range_index_lookups = 0, range_index_hits = 0, range_index_misses = 0, range_index_probe_total = 0,
     range_index_probe_max = 0, range_index_probe_last = 0, range_index_rebuilds = 0,
     range_index_insert_failures = 0, range_free_slot_lookups = 0, range_free_slot_probe_total = 0,
     range_free_slot_probe_max = 0, range_free_slot_probe_last = 0, range_address_entries = 0,
     range_address_lookups = 0, range_address_probe_total = 0, range_address_probe_max = 0,
     range_address_probe_last = 0\<rparr>"

record id_entry =
  id_state :: nat
  id_key :: nat
  id_slot :: nat

definition ID_EMPTY :: id_entry where
  "ID_EMPTY = \<lparr>id_state = 0, id_key = 0, id_slot = 0\<rparr>"

record vm_index =
  ids :: "nat \<Rightarrow> id_entry"
  order :: "nat \<Rightarrow> nat"
  positions :: "nat \<Rightarrow> nat"
  id_entries :: nat
  tombstones :: nat
  addresses :: nat
  free_hint :: nat
  next_id :: nat
  ix_stats :: index_stats

definition VM_INDEX_EMPTY :: vm_index where
  "VM_INDEX_EMPTY = \<lparr>ids = (\<lambda>_. ID_EMPTY), order = (\<lambda>_. 0), positions = (\<lambda>_. U16_MAX), id_entries = 0,
     tombstones = 0, addresses = 0, free_hint = 0, next_id = 1, ix_stats = INDEX_STATS_EMPTY\<rparr>"

definition index_reset :: "vm_index \<Rightarrow> vm_index" where
  "index_reset st = st\<lparr>ids := (\<lambda>_. ID_EMPTY), order := (\<lambda>_. 0), positions := (\<lambda>_. U16_MAX), id_entries := 0,
     tombstones := 0, addresses := 0, free_hint := 0, next_id := 1, ix_stats := INDEX_STATS_EMPTY\<rparr>"

section \<open>Free slots\<close>

definition note_free_probe :: "index_stats \<Rightarrow> nat \<Rightarrow> index_stats" where
  "note_free_probe s count = s\<lparr>range_free_slot_probe_last := count,
     range_free_slot_probe_total := wrapping_add64 (range_free_slot_probe_total s) count,
     range_free_slot_probe_max := max (range_free_slot_probe_max s) count\<rparr>"

primrec free_slot_from :: "(nat \<Rightarrow> vm_record) \<Rightarrow> vm_index \<Rightarrow> nat list \<Rightarrow> (nat \<times> vm_index) outcome" where
  "free_slot_from tab st [] = Some (NONE, st\<lparr>ix_stats := note_free_probe (ix_stats st) RANGES\<rparr>)"
| "free_slot_from tab st (probes # rest) = do {
     sum \<leftarrow> add64 (free_hint st) probes;
     let slot = sum mod RANGES;
     r \<leftarrow> record_at tab slot;
     if \<not> rec_slot_used r \<or> rec_status r = 5
     then Some (slot, st\<lparr>ix_stats := note_free_probe (ix_stats st) (probes + 1),
                         free_hint := (slot + 1) mod RANGES\<rparr>)
     else free_slot_from tab st rest
   }"

definition free_slot :: "(nat \<Rightarrow> vm_record) \<Rightarrow> vm_index \<Rightarrow> (nat \<times> vm_index) outcome" where
  "free_slot tab st =
     free_slot_from tab
       (st\<lparr>ix_stats := (ix_stats st)\<lparr>range_free_slot_lookups :=
             wrapping_add64 (range_free_slot_lookups (ix_stats st)) 1\<rparr>\<rparr>)
       [0..<RANGES]"

section \<open>The address order\<close>

function lower_bound_loop :: "(nat \<Rightarrow> vm_record) \<Rightarrow> vm_index \<Rightarrow> nat \<Rightarrow> nat \<Rightarrow> nat \<Rightarrow> nat outcome" where
  "lower_bound_loop tab st base low high =
     (if low < high then do {
        let mid = low + (high - low) div 2;
        slot \<leftarrow> index_get RANGES (order st) mid;
        r \<leftarrow> record_at tab slot;
        if rec_base r < base then lower_bound_loop tab st base (mid + 1) high
        else lower_bound_loop tab st base low mid
      } else Some low)"
  by pat_completeness auto
termination
  by (relation "measure (\<lambda>(tab, st, base, low, high). high - low)") auto

declare lower_bound_loop.simps [simp del]

definition lower_bound :: "(nat \<Rightarrow> vm_record) \<Rightarrow> vm_index \<Rightarrow> nat \<Rightarrow> nat outcome" where
  "lower_bound tab st base = lower_bound_loop tab st base 0 (addresses st)"

primrec shift_up :: "nat list \<Rightarrow> vm_index \<Rightarrow> vm_index outcome" where
  "shift_up [] st = Some st"
| "shift_up (index # rest) st = do {
     v \<leftarrow> index_get RANGES (order st) (index - 1);
     o1 \<leftarrow> index_set RANGES (order st) index v;
     p1 \<leftarrow> index_set RANGES (positions st) v (index mod 65536);
     shift_up rest (st\<lparr>order := o1, positions := p1\<rparr>)
   }"

definition insert_address :: "(nat \<Rightarrow> vm_record) \<Rightarrow> nat \<Rightarrow> vm_index \<Rightarrow> vm_index outcome" where
  "insert_address tab slot st = do {
     r \<leftarrow> record_at tab slot;
     pos \<leftarrow> lower_bound tab st (rec_base r);
     st1 \<leftarrow> shift_up (rev [pos + 1..<addresses st + 1]) st;
     o1 \<leftarrow> index_set RANGES (order st1) pos (slot mod 65536);
     p1 \<leftarrow> index_set RANGES (positions st1) slot (pos mod 65536);
     Some (st1\<lparr>order := o1, positions := p1, addresses := addresses st1 + 1\<rparr>)
   }"

primrec shift_down :: "nat list \<Rightarrow> vm_index \<Rightarrow> vm_index outcome" where
  "shift_down [] st = Some st"
| "shift_down (index # rest) st = do {
     v \<leftarrow> index_get RANGES (order st) (index + 1);
     o1 \<leftarrow> index_set RANGES (order st) index v;
     p1 \<leftarrow> index_set RANGES (positions st) v (index mod 65536);
     shift_down rest (st\<lparr>order := o1, positions := p1\<rparr>)
   }"

definition remove_address :: "nat \<Rightarrow> vm_index \<Rightarrow> vm_index outcome" where
  "remove_address slot st = do {
     pos \<leftarrow> index_get RANGES (positions st) slot;
     if pos = U16_MAX \<or> addresses st \<le> pos then Some st
     else do {
       here \<leftarrow> index_get RANGES (order st) pos;
       if here \<noteq> slot then Some st
       else do {
         st1 \<leftarrow> shift_down [pos..<addresses st - 1] st;
         p1 \<leftarrow> index_set RANGES (positions st1) slot U16_MAX;
         Some (st1\<lparr>addresses := addresses st1 - 1, positions := p1\<rparr>)
       }
     }
   }"

function by_address_loop ::
  "(nat \<Rightarrow> vm_record) \<Rightarrow> vm_index \<Rightarrow> nat \<Rightarrow> nat \<Rightarrow> nat \<Rightarrow> nat \<Rightarrow> (nat \<times> nat) outcome" where
  "by_address_loop tab st address low high probes =
     (if low < high then do {
        let mid = low + (high - low) div 2;
        slot \<leftarrow> index_get RANGES (order st) mid;
        r \<leftarrow> record_at tab slot;
        if rec_base r \<le> address then by_address_loop tab st address (mid + 1) high (probes + 1)
        else by_address_loop tab st address low mid (probes + 1)
      } else Some (low, probes))"
  by pat_completeness auto
termination
  by (relation "measure (\<lambda>(tab, st, address, low, high, probes). high - low)") auto

declare by_address_loop.simps [simp del]

definition note_address_lookup :: "index_stats \<Rightarrow> index_stats" where
  "note_address_lookup s =
     s\<lparr>range_address_lookups := wrapping_add64 (range_address_lookups s) 1\<rparr>"

definition note_address_probe :: "index_stats \<Rightarrow> nat \<Rightarrow> index_stats" where
  "note_address_probe s probes = s\<lparr>range_address_probe_last := probes,
     range_address_probe_total := wrapping_add64 (range_address_probe_total s) probes,
     range_address_probe_max := max (range_address_probe_max s) probes\<rparr>"

definition by_address :: "(nat \<Rightarrow> vm_record) \<Rightarrow> nat \<Rightarrow> vm_index \<Rightarrow> (nat \<times> vm_index) outcome" where
  "by_address tab address st = do {
     (low, probes) \<leftarrow> by_address_loop tab st address 0 (addresses st) 0;
     let st1 = st\<lparr>ix_stats := note_address_probe (note_address_lookup (ix_stats st)) probes\<rparr>;
     if low = 0 then Some (NONE, st1)
     else do {
       slot \<leftarrow> index_get RANGES (order st) (low - 1);
       r \<leftarrow> record_at tab slot;
       Some (if (case checked_add64 (rec_base r) (rec_len r) of Some fin \<Rightarrow> address < fin | None \<Rightarrow> False)
             then slot else NONE, st1)
     }
   }"

section \<open>The identity table\<close>

definition start :: "nat \<Rightarrow> nat" where
  "start ident = wrapping_mul64 ident 11400714819323198485 mod IDS"

primrec by_id_loop ::
  "nat \<Rightarrow> (nat \<Rightarrow> vm_record) \<Rightarrow> (nat \<Rightarrow> id_entry) \<Rightarrow> nat \<Rightarrow> bool \<Rightarrow> nat \<Rightarrow> nat \<Rightarrow> (nat \<times> nat) outcome" where
  "by_id_loop 0 tab table ident raw position probes = Some (NONE, probes)"
| "by_id_loop (Suc n) tab table ident raw position probes = do {
     entry \<leftarrow> index_get IDS table position;
     if id_state entry = 0 then Some (NONE, probes + 1)
     else if id_state entry = 1 \<and> id_key entry = ident then
       if raw then Some (id_slot entry, probes + 1)
       else if id_slot entry < RANGES then do {
         r \<leftarrow> record_at tab (id_slot entry);
         Some (if rec_id r = ident \<and> rec_active r then id_slot entry else NONE, probes + 1)
       } else Some (NONE, probes + 1)
     else by_id_loop n tab table ident raw ((position + 1) mod IDS) (probes + 1)
   }"

definition note_id_probe :: "index_stats \<Rightarrow> nat \<Rightarrow> nat \<Rightarrow> index_stats" where
  "note_id_probe s result probes =
     (let s1 = s\<lparr>range_index_probe_last := probes,
                 range_index_probe_total := wrapping_add64 (range_index_probe_total s) probes,
                 range_index_probe_max := max (range_index_probe_max s) probes\<rparr>
      in if result = NONE then s1\<lparr>range_index_misses := wrapping_add64 (range_index_misses s1) 1\<rparr>
         else s1\<lparr>range_index_hits := wrapping_add64 (range_index_hits s1) 1\<rparr>)"

definition by_id :: "(nat \<Rightarrow> vm_record) \<Rightarrow> nat \<Rightarrow> bool \<Rightarrow> vm_index \<Rightarrow> (nat \<times> vm_index) outcome" where
  "by_id tab ident raw st = do {
     let s0 = (if raw then ix_stats st
               else (ix_stats st)\<lparr>range_index_lookups := wrapping_add64 (range_index_lookups (ix_stats st)) 1\<rparr>);
     (result, probes) \<leftarrow> by_id_loop IDS tab (ids st) ident raw (start ident) 0;
     Some (result, st\<lparr>ix_stats := if raw then s0 else note_id_probe s0 result probes\<rparr>)
   }"

primrec insert_id_loop ::
  "nat \<Rightarrow> nat \<Rightarrow> nat \<Rightarrow> nat option \<Rightarrow> nat \<Rightarrow> vm_index \<Rightarrow> (bool \<times> vm_index) outcome" where
  "insert_id_loop 0 ident slot first position st =
     (case first of
        Some target \<Rightarrow> do {
          t1 \<leftarrow> index_set IDS (ids st) target \<lparr>id_state = 1, id_key = ident, id_slot = slot\<rparr>;
          Some (True, st\<lparr>ids := t1, id_entries := id_entries st + 1,
                         tombstones := if tombstones st \<noteq> 0 then tombstones st - 1 else tombstones st\<rparr>)
        }
      | None \<Rightarrow> Some (False, st))"
| "insert_id_loop (Suc n) ident slot first position st = do {
     entry \<leftarrow> index_get IDS (ids st) position;
     if id_state entry = 0 then do {
       let target = (case first of Some t \<Rightarrow> t | None \<Rightarrow> position);
       old \<leftarrow> index_get IDS (ids st) target;
       let ts = (if id_state old = 2 \<and> tombstones st \<noteq> 0 then tombstones st - 1 else tombstones st);
       t1 \<leftarrow> index_set IDS (ids st) target \<lparr>id_state = 1, id_key = ident, id_slot = slot\<rparr>;
       Some (True, st\<lparr>ids := t1, tombstones := ts, id_entries := id_entries st + 1\<rparr>)
     }
     else if id_state entry = 2 \<and> first = None then
       insert_id_loop n ident slot (Some position) ((position + 1) mod IDS) st
     else if id_state entry = 1 \<and> id_key entry = ident then do {
       t1 \<leftarrow> index_set IDS (ids st) position (entry\<lparr>id_slot := slot\<rparr>);
       Some (True, st\<lparr>ids := t1\<rparr>)
     }
     else insert_id_loop n ident slot first ((position + 1) mod IDS) st
   }"

definition insert_id_raw :: "nat \<Rightarrow> nat \<Rightarrow> vm_index \<Rightarrow> (bool \<times> vm_index) outcome" where
  "insert_id_raw ident slot st = insert_id_loop IDS ident slot None (start ident) st"

definition note_insert_failure :: "vm_index \<Rightarrow> vm_index" where
  "note_insert_failure st = st\<lparr>ix_stats := (ix_stats st)\<lparr>range_index_insert_failures :=
     wrapping_add64 (range_index_insert_failures (ix_stats st)) 1\<rparr>\<rparr>"

primrec rebuild_from :: "(nat \<Rightarrow> vm_record) \<Rightarrow> nat list \<Rightarrow> vm_index \<Rightarrow> vm_index outcome" where
  "rebuild_from tab [] st = Some st"
| "rebuild_from tab (slot # rest) st = do {
     r \<leftarrow> record_at tab slot;
     if \<not> rec_active r then rebuild_from tab rest st
     else do {
       (ok, st1) \<leftarrow> insert_id_raw (rec_id r) slot st;
       if \<not> ok then Some (note_insert_failure st1) else rebuild_from tab rest st1
     }
   }"

definition rebuild :: "(nat \<Rightarrow> vm_record) \<Rightarrow> vm_index \<Rightarrow> vm_index outcome" where
  "rebuild tab st =
     rebuild_from tab [0..<RANGES]
       (st\<lparr>ix_stats := (ix_stats st)\<lparr>range_index_rebuilds := wrapping_add64 (range_index_rebuilds (ix_stats st)) 1\<rparr>,
           ids := (\<lambda>_. ID_EMPTY), id_entries := 0, tombstones := 0\<rparr>)"

definition insert_id :: "(nat \<Rightarrow> vm_record) \<Rightarrow> nat \<Rightarrow> nat \<Rightarrow> vm_index \<Rightarrow> (bool \<times> vm_index) outcome" where
  "insert_id tab ident slot st = do {
     (ok, st1) \<leftarrow> insert_id_raw ident slot st;
     if ok then Some (True, st1)
     else do {
       st2 \<leftarrow> rebuild tab st1;
       (ok2, st3) \<leftarrow> insert_id_raw ident slot st2;
       if ok2 then Some (True, st3) else Some (False, note_insert_failure st3)
     }
   }"

primrec remove_id_loop :: "nat \<Rightarrow> nat \<Rightarrow> nat \<Rightarrow> vm_index \<Rightarrow> vm_index outcome" where
  "remove_id_loop 0 ident position st = Some st"
| "remove_id_loop (Suc n) ident position st = do {
     entry \<leftarrow> index_get IDS (ids st) position;
     if id_state entry = 0 then Some st
     else if id_state entry = 1 \<and> id_key entry = ident then do {
       t1 \<leftarrow> index_set IDS (ids st) position (ID_EMPTY\<lparr>id_state := 2\<rparr>);
       Some (st\<lparr>ids := t1, id_entries := if id_entries st \<noteq> 0 then id_entries st - 1 else id_entries st,
                tombstones := tombstones st + 1\<rparr>)
     }
     else remove_id_loop n ident ((position + 1) mod IDS) st
   }"

definition remove_id :: "nat \<Rightarrow> vm_index \<Rightarrow> vm_index outcome" where
  "remove_id ident st = remove_id_loop IDS ident (start ident) st"

section \<open>Entry points\<close>

definition neighbors :: "vm_index \<Rightarrow> nat \<Rightarrow> (nat option \<times> nat option) outcome" where
  "neighbors st position = do {
     previous \<leftarrow> (if position = 0 then Some None
                  else do { v \<leftarrow> index_get RANGES (order st) (position - 1); Some (Some v) });
     next1 \<leftarrow> (if position < addresses st
               then do { v \<leftarrow> index_get RANGES (order st) position; Some (Some v) } else Some None);
     Some (previous, next1)
   }"

definition slot_position :: "vm_index \<Rightarrow> nat \<Rightarrow> nat option outcome" where
  "slot_position st slot = do {
     p \<leftarrow> index_get RANGES (positions st) slot;
     Some (if p \<noteq> U16_MAX then Some p else None)
   }"

definition next_identity :: "vm_index \<Rightarrow> (nat \<times> vm_index) outcome" where
  "next_identity st =
     (if next_id st = 0 then Some (0, st)
      else do { n \<leftarrow> add32 (next_id st) 1; Some (next_id st, st\<lparr>next_id := n\<rparr>) })"

definition vm_index_query :: "(nat \<Rightarrow> vm_record) \<Rightarrow> nat \<Rightarrow> nat \<Rightarrow> vm_index \<Rightarrow> (nat \<times> vm_index) outcome" where
  "vm_index_query tab operation argument st =
     (if operation = 0 then free_slot tab st
      else if operation = 1 then by_id tab (argument mod 2 ^ 32) False st
      else if operation = 2 then by_id tab (argument mod 2 ^ 32) True st
      else if operation = 3 then do { p \<leftarrow> lower_bound tab st argument; Some (p, st) }
      else if operation = 4 then by_address tab argument st
      else if operation = 5 then Some (addresses st, st)
      else if operation = 6 then Some (id_entries st, st)
      else if operation = 7 then Some (tombstones st, st)
      else if operation = 8 then next_identity st
      else Some (NONE, st))"

definition vm_index_change ::
  "(nat \<Rightarrow> vm_record) \<Rightarrow> nat \<Rightarrow> nat \<Rightarrow> nat \<Rightarrow> vm_index \<Rightarrow> (bool \<times> vm_index) outcome" where
  "vm_index_change tab operation ident slot st =
     (if operation = 0 then insert_id tab ident slot st
      else if operation = 1 then do { st1 \<leftarrow> remove_id ident st; Some (True, st1) }
      else if operation = 2 then do { st1 \<leftarrow> insert_address tab slot st; Some (True, st1) }
      else if operation = 3 then do { st1 \<leftarrow> remove_address slot st; Some (True, st1) }
      else if operation = 4 then Some (True, st\<lparr>free_hint := slot\<rparr>)
      else Some (False, st))"

definition vm_index_stats_view :: "vm_index \<Rightarrow> index_stats" where
  "vm_index_stats_view st = (ix_stats st)\<lparr>range_index_entries := id_entries st,
     range_index_tombstones := tombstones st, range_address_entries := addresses st\<rparr>"

end
