(* ===== verification/Vm_Identity.thy ===== *)
theory Vm_Identity
  imports Vm_Index
begin

text \<open>
  The identity table of \<open>Vm_Index\<close> is a finite map: open addressing with tombstones over the ring of
  \<open>Probe_Ring\<close>. The locale \<open>bounded_map\<close> is the contract a client of such a table relies on; the
  table is its interpretation.
\<close>

definition id_live :: "vm_index \<Rightarrow> nat \<Rightarrow> bool" where
  "id_live st p \<longleftrightarrow> id_state (ids st p) = 1"

definition id_busy :: "vm_index \<Rightarrow> nat \<Rightarrow> bool" where
  "id_busy st p \<longleftrightarrow> id_state (ids st p) \<noteq> 0"

definition id_name :: "vm_index \<Rightarrow> nat \<Rightarrow> nat" where
  "id_name st p = id_key (ids st p)"

definition id_inv :: "vm_index \<Rightarrow> bool" where
  "id_inv st \<longleftrightarrow> (\<forall>p < IDS. id_state (ids st p) \<le> 2)
     \<and> reachable IDS start (id_live st) (id_busy st) (id_name st) \<and> one_cell IDS (id_live st) (id_name st)
     \<and> id_entries st = card {p. p < IDS \<and> id_live st p}
     \<and> tombstones st = card {p. p < IDS \<and> id_state (ids st p) = 2}"

text \<open>The finite map an identity table stands for.\<close>

definition id_stop :: "vm_index \<Rightarrow> nat \<Rightarrow> nat \<Rightarrow> bool" where
  "id_stop st k c \<longleftrightarrow> \<not> id_busy st c \<or> id_live st c \<and> id_name st c = k"

definition id_map :: "vm_index \<Rightarrow> nat \<Rightarrow> nat option" where
  "id_map st k = (case find (\<lambda>p. id_live st p \<and> id_name st p = k) [0..<IDS] of
     Some p \<Rightarrow> Some (id_slot (ids st p)) | None \<Rightarrow> None)"

definition id_answer :: "(nat \<Rightarrow> vm_record) \<Rightarrow> nat \<Rightarrow> bool \<Rightarrow> nat \<Rightarrow> nat" where
  "id_answer tab k raw s =
     (if raw then s else if s < RANGES \<and> rec_id (tab s) = k \<and> rec_active (tab s) then s else NONE)"

definition id_put :: "nat \<Rightarrow> nat \<Rightarrow> nat \<Rightarrow> vm_index \<Rightarrow> vm_index" where
  "id_put k s t st = st\<lparr>ids := (ids st)(t := \<lparr>id_state = 1, id_key = k, id_slot = s\<rparr>),
     tombstones := tombstones st - (if id_state (ids st t) = 2 then 1 else 0), id_entries := id_entries st + 1\<rparr>"

definition id_clear :: "vm_index \<Rightarrow> nat \<Rightarrow> nat \<Rightarrow> nat \<Rightarrow> bool" where
  "id_clear st k a d \<longleftrightarrow> (\<forall>e < d. let c = (a + e) mod IDS in id_busy st c \<and> \<not> (id_live st c \<and> id_name st c = k))"

definition id_gone :: "vm_index \<Rightarrow> nat \<Rightarrow> nat \<Rightarrow> nat \<Rightarrow> bool" where
  "id_gone st k a e \<longleftrightarrow> (\<exists>e' \<le> IDS. e \<le> e' \<and> id_clear st k a e' \<and> (e' < IDS \<longrightarrow> \<not> id_busy st ((a + e') mod IDS)))"

definition first_ok :: "vm_index \<Rightarrow> nat \<Rightarrow> nat \<Rightarrow> nat option \<Rightarrow> bool" where
  "first_ok st a d first \<longleftrightarrow> (case first of
     None \<Rightarrow> \<forall>e < d. id_live st ((a + e) mod IDS)
   | Some t \<Rightarrow> \<exists>e < d. t = (a + e) mod IDS \<and> id_state (ids st t) = 2)"

definition same_rest :: "vm_index \<Rightarrow> vm_index \<Rightarrow> bool" where
  "same_rest st st' \<longleftrightarrow> order st' = order st \<and> positions st' = positions st \<and> addresses st' = addresses st
     \<and> free_hint st' = free_hint st \<and> next_id st' = next_id st"

definition id_drop :: "nat \<Rightarrow> vm_index \<Rightarrow> vm_index" where
  "id_drop p st = st\<lparr>ids := (ids st)(p := ID_EMPTY\<lparr>id_state := 2\<rparr>), id_entries := id_entries st - 1,
     tombstones := tombstones st + 1\<rparr>"

primrec active_map :: "(nat \<Rightarrow> vm_record) \<Rightarrow> nat list \<Rightarrow> (nat \<Rightarrow> nat option) \<Rightarrow> (nat \<Rightarrow> nat option)" where
  "active_map tab [] m = m"
| "active_map tab (s # rest) m = active_map tab rest (if rec_active (tab s) then m(rec_id (tab s) \<mapsto> s) else m)"

definition id_put_op :: "(nat \<Rightarrow> vm_record) \<Rightarrow> nat \<Rightarrow> nat \<Rightarrow> vm_index \<Rightarrow> vm_index outcome" where
  "id_put_op tab k s st = do { (ok, st1) \<leftarrow> vm_index_change tab 0 k s st; assert ok; Some st1 }"

definition id_drop_op :: "(nat \<Rightarrow> vm_record) \<Rightarrow> nat \<Rightarrow> vm_index \<Rightarrow> vm_index outcome" where
  "id_drop_op tab k st = do { (ok, st1) \<leftarrow> vm_index_change tab 1 k 0 st; assert ok; Some st1 }"

lemma IDS_pos [simp]: "0 < IDS"
  by (simp add: IDS_def RANGES_def)

lemma start_lt [simp]: "start k < IDS"
  by (simp add: start_def)

interpretation id_ring: probe_ring IDS start
  by unfold_locales simp

lemma id_map_Some:
  assumes "id_inv st"
  shows "id_map st k = Some s \<longleftrightarrow> (\<exists>p < IDS. id_live st p \<and> id_name st p = k \<and> id_slot (ids st p) = s)"
proof
  assume "id_map st k = Some s"
  then obtain p where "find (\<lambda>p. id_live st p \<and> id_name st p = k) [0..<IDS] = Some p" "id_slot (ids st p) = s"
    by (auto simp: id_map_def split: option.splits)
  then show "\<exists>p < IDS. id_live st p \<and> id_name st p = k \<and> id_slot (ids st p) = s"
    by (auto simp: find_Some_iff)
next
  assume "\<exists>p < IDS. id_live st p \<and> id_name st p = k \<and> id_slot (ids st p) = s"
  then obtain p where p: "p < IDS" "id_live st p" "id_name st p = k" "id_slot (ids st p) = s" by blast
  have "one_cell IDS (id_live st) (id_name st)" using assms by (simp add: id_inv_def)
  from find_cell [OF this p(1-3)] show "id_map st k = Some s" using p(4) by (simp add: id_map_def)
qed

lemma id_map_None: "id_map st k = None \<longleftrightarrow> (\<forall>p < IDS. id_live st p \<longrightarrow> id_name st p \<noteq> k)"
  by (auto simp: id_map_def find_None_iff find_Some_iff split: option.splits)

text \<open>Every search of the table stops at the first cell of its path that is empty or holds the key.\<close>

lemma by_id_loop_find:
  assumes "a < IDS"
  shows "\<exists>probes'. by_id_loop n tab (ids st) k raw a probes = Some (
     (case find (id_stop st k) (ring_seg IDS a n) of
        None \<Rightarrow> NONE
      | Some p \<Rightarrow> if id_live st p then id_answer tab k raw (id_slot (ids st p)) else NONE), probes')"
  using assms
proof (induction n arbitrary: a probes)
  case (Suc n)
  have lt: "(a + 1) mod IDS < IDS" by simp
  show ?case
  proof (cases "id_stop st k a")
    case True
    then show ?thesis using Suc.prems
      by (auto simp: ring_seg_Suc id_stop_def id_live_def id_busy_def id_name_def id_answer_def record_at_def)
  next
    case False
    then show ?thesis using Suc.prems Suc.IH [OF lt, of "probes + 1"]
      by (auto simp: ring_seg_Suc id_stop_def id_live_def id_busy_def id_name_def)
  qed
qed simp

lemma id_find_hit:
  assumes "id_inv st" and "p < IDS" and "id_live st p" and "id_name st p = k"
  shows "find (id_stop st k) (ring_order IDS (start k)) = Some p"
  using id_ring.lookup_hit [of "id_live st" "id_busy st" "id_name st" p] assms
  by (simp add: id_inv_def id_stop_def [abs_def])

lemma id_find_miss:
  assumes "id_map st k = None"
  shows "find (id_stop st k) (ring_order IDS (start k)) = Some q \<Longrightarrow> q < IDS \<and> \<not> id_busy st q"
  using id_ring.lookup_miss [of "id_live st" "id_name st" k "id_busy st" q] assms
  by (simp add: id_map_None id_stop_def [abs_def])

lemma by_id_ok:
  assumes "id_inv st"
  shows "\<exists>st'. by_id tab k raw st =
     Some (case id_map st k of None \<Rightarrow> NONE | Some s \<Rightarrow> id_answer tab k raw s, st')
     \<and> st' = st\<lparr>ix_stats := ix_stats st'\<rparr>"
proof -
  obtain probes where l: "by_id_loop IDS tab (ids st) k raw (start k) 0 = Some (
     (case find (id_stop st k) (ring_order IDS (start k)) of
        None \<Rightarrow> NONE
      | Some p \<Rightarrow> if id_live st p then id_answer tab k raw (id_slot (ids st p)) else NONE), probes)"
    using by_id_loop_find [OF start_lt, of IDS tab st k raw k 0] by (auto simp: ring_seg_full)
  have "(case find (id_stop st k) (ring_order IDS (start k)) of
        None \<Rightarrow> NONE
      | Some p \<Rightarrow> if id_live st p then id_answer tab k raw (id_slot (ids st p)) else NONE) =
     (case id_map st k of None \<Rightarrow> NONE | Some s \<Rightarrow> id_answer tab k raw s)"
  proof (cases "id_map st k")
    case None
    then show ?thesis using id_find_miss [OF None]
      by (auto simp: id_live_def id_busy_def split: option.splits)
  next
    case (Some s)
    then obtain p where "p < IDS" "id_live st p" "id_name st p = k" "id_slot (ids st p) = s"
      using id_map_Some [OF assms] by blast
    then show ?thesis using id_find_hit [OF assms] Some by simp
  qed
  then show ?thesis using l by (auto simp: by_id_def Let_def)
qed

text \<open>
  One insertion: the key's own cell is rewritten; otherwise the first free cell of the path, or the
  first tombstone on it; otherwise every cell is live and nothing changes.
\<close>

text \<open>The key is in no cell: the search for it ends at an empty cell or meets every cell.\<close>

lemma insert_id_loop_cases:
  assumes inv: "\<forall>p < IDS. id_state (ids st p) \<le> 2" and "d + n = IDS"
    and "id_clear st k a d" and "first_ok st a d first"
    and "tombstones st = card {p. p < IDS \<and> id_state (ids st p) = 2}"
  shows "(\<exists>p < IDS. id_live st p \<and> id_name st p = k \<and> insert_id_loop n k s first ((a + d) mod IDS) st
              = Some (True, st\<lparr>ids := (ids st)(p := (ids st p)\<lparr>id_slot := s\<rparr>)\<rparr>))
       \<or> (\<exists>e < IDS. \<not> id_live st ((a + e) mod IDS) \<and> id_gone st k a e
            \<and> insert_id_loop n k s first ((a + d) mod IDS) st = Some (True, id_put k s ((a + e) mod IDS) st))
       \<or> ((\<forall>e < IDS. id_live st ((a + e) mod IDS)) \<and> id_clear st k a IDS
            \<and> insert_id_loop n k s first ((a + d) mod IDS) st = Some (False, st))"
  using assms(2-4)
proof (induction n arbitrary: d first)
  case 0
  then have d: "d = IDS" by simp
  show ?case
  proof (cases first)
    case None
    then show ?thesis using 0 d by (auto simp: first_ok_def)
  next
    case (Some t)
    then obtain e where e: "e < IDS" "t = (a + e) mod IDS" "id_state (ids st t) = 2"
      using 0 d by (auto simp: first_ok_def)
    have t: "t < IDS" by (simp add: e(2))
    have "tombstones st \<noteq> 0" using assms(5) t e(3) by (auto simp: card_eq_0_iff)
    then have "insert_id_loop 0 k s first ((a + d) mod IDS) st = Some (True, id_put k s t st)"
      using Some t e(3) by (simp add: id_put_def)
    moreover have "id_gone st k a e" using 0(2) e(1) d unfolding id_gone_def by (auto intro!: exI [of _ IDS])
    moreover have "\<not> id_live st t" using e(3) by (simp add: id_live_def)
    ultimately show ?thesis using e(1) unfolding e(2) by blast
  qed
next
  case (Suc n)
  let ?p = "(a + d) mod IDS"
  have d: "d < IDS" "Suc d + n = IDS" using Suc.prems(1) by auto
  have p: "?p < IDS" by simp
  have next_p: "(?p + 1) mod IDS = (a + Suc d) mod IDS" by (simp add: mod_simps)
  consider (empty) "id_state (ids st ?p) = 0" | (hit) "id_state (ids st ?p) = 1" "id_key (ids st ?p) = k"
    | (live) "id_state (ids st ?p) = 1" "id_key (ids st ?p) \<noteq> k" | (dead) "id_state (ids st ?p) = 2"
    using inv p by (metis One_nat_def le_SucE le_zero_eq numeral_2_eq_2)
  then show ?case
  proof cases
    case empty
    define t where "t = (case first of Some t \<Rightarrow> t | None \<Rightarrow> ?p)"
    obtain e where e: "e \<le> d" "t = (a + e) mod IDS" "id_state (ids st t) \<noteq> 1"
    proof (cases first)
      case None
      then show ?thesis using that [of d] empty by (simp add: t_def)
    next
      case (Some u)
      then obtain e where "e < d" "u = (a + e) mod IDS" "id_state (ids st u) = 2"
        using Suc.prems(3) by (auto simp: first_ok_def)
      then show ?thesis using that [of e] Some by (simp add: t_def)
    qed
    have t: "t < IDS" by (simp add: e(2))
    have "tombstones st \<noteq> 0" if "id_state (ids st t) = 2" using assms(5) t that by (auto simp: card_eq_0_iff)
    then have run: "insert_id_loop (Suc n) k s first ?p st = Some (True, id_put k s t st)"
      using empty p t by (auto simp: id_put_def t_def [symmetric] Let_def)
    have "\<not> id_live st t" "\<not> id_busy st ?p" using e(3) empty by (auto simp: id_live_def id_busy_def)
    moreover have "e < IDS" using e(1) d(1) by simp
    moreover have "id_gone st k a e"
      using Suc.prems(2) e(1) d(1) \<open>\<not> id_busy st ?p\<close> unfolding id_gone_def by (auto intro!: exI [of _ d])
    ultimately show ?thesis using run unfolding e(2) by blast
  next
    case hit
    then have "insert_id_loop (Suc n) k s first ?p st
       = Some (True, st\<lparr>ids := (ids st)(?p := (ids st ?p)\<lparr>id_slot := s\<rparr>)\<rparr>)"
      using p by simp
    moreover have "id_live st ?p" "id_name st ?p = k" using hit by (auto simp: id_live_def id_name_def)
    ultimately show ?thesis using p by blast
  next
    case live
    have c: "id_clear st k a (Suc d)"
      using Suc.prems(2) live by (auto simp: id_clear_def less_Suc_eq Let_def id_busy_def id_live_def id_name_def)
    have f: "first_ok st a (Suc d) first"
      using Suc.prems(3) live by (fastforce simp: first_ok_def less_Suc_eq id_live_def split: option.splits)
    have run: "insert_id_loop (Suc n) k s first ?p st = insert_id_loop n k s first ((a + Suc d) mod IDS) st"
      using live p next_p by simp
    show ?thesis unfolding run by (rule Suc.IH [OF d(2) c f])
  next
    case dead
    have c: "id_clear st k a (Suc d)"
      using Suc.prems(2) dead by (auto simp: id_clear_def less_Suc_eq Let_def id_busy_def id_live_def id_name_def)
    define first' where "first' = (case first of None \<Rightarrow> Some ?p | Some t \<Rightarrow> Some t)"
    have f: "first_ok st a (Suc d) first'"
      using Suc.prems(3) dead by (auto simp: first_ok_def first'_def less_Suc_eq split: option.splits)
    have run: "insert_id_loop (Suc n) k s first ?p st = insert_id_loop n k s first' ((a + Suc d) mod IDS) st"
      using dead p next_p by (cases first) (simp_all add: first'_def)
    show ?thesis unfolding run by (rule Suc.IH [OF d(2) c f])
  qed
qed

lemma id_gone_absent:
  assumes inv: "id_inv st" and gone: "id_gone st k (start k) e" and p: "p < IDS" "id_live st p"
  shows "id_name st p \<noteq> k"
proof
  assume n: "id_name st p = k"
  obtain e' where e': "e' \<le> IDS" "id_clear st k (start k) e'" "e' < IDS \<longrightarrow> \<not> id_busy st ((start k + e') mod IDS)"
    using gone by (auto simp: id_gone_def)
  let ?d = "ring_dist IDS (start k) p"
  have d: "?d < IDS" "(start k + ?d) mod IDS = p"
    using ring_dist_lt [OF start_lt p(1)] ring_step_dist [OF start_lt p(1)] by auto
  have "\<not> ?d < e'" using e'(2) d(2) p(2) n by (auto simp: id_clear_def Let_def)
  then have lt: "e' < IDS" and le: "e' \<le> ?d" using d(1) by auto
  let ?c = "(start k + e') mod IDS"
  have "on_path IDS (start (id_name st p)) ?c p"
    using le ring_dist_step [OF start_lt lt] by (simp add: on_path_def n)
  moreover have "reachable IDS start (id_live st) (id_busy st) (id_name st)" using inv by (simp add: id_inv_def)
  moreover have "?c < IDS" by simp
  ultimately have "id_busy st ?c" using p unfolding reachable_def by blast
  then show False using e'(3) lt by simp
qed

lemma id_clear_path:
  assumes "id_clear st k (start k) e" and "e < IDS" and "c < IDS"
    and "on_path IDS (start k) c ((start k + e) mod IDS)" and "c \<noteq> (start k + e) mod IDS"
  shows "id_busy st c"
proof -
  let ?d = "ring_dist IDS (start k) c"
  have "?d \<le> e" using assms(4) ring_dist_step [OF start_lt assms(2)] by (simp add: on_path_def)
  moreover have "?d \<noteq> e" using assms(3,5) ring_step_dist [OF start_lt assms(3)] by auto
  ultimately have "?d < e" by simp
  then show ?thesis using assms(1) ring_step_dist [OF start_lt assms(3)] by (auto simp: id_clear_def Let_def)
qed

lemma id_map_eqI:
  assumes "id_inv st'"
    and "\<And>j s. (\<exists>p < IDS. id_live st' p \<and> id_name st' p = j \<and> id_slot (ids st' p) = s) \<longleftrightarrow> m j = Some s"
  shows "id_map st' = m"
proof
  fix j
  have "id_map st' j = Some s \<longleftrightarrow> m j = Some s" for s
    using id_map_Some [OF assms(1), of j s] assms(2) [of j s] by blast
  then show "id_map st' j = m j" by (metis option.exhaust)
qed

lemma id_put_ok:
  assumes inv: "id_inv st" and t: "t = (start k + e) mod IDS" "e < IDS" and free: "\<not> id_live st t"
    and gone: "id_gone st k (start k) e"
  shows "id_inv (id_put k s t st)" and "id_map (id_put k s t st) = (id_map st)(k \<mapsto> s)"
proof -
  let ?st = "id_put k s t st"
  have tl: "t < IDS" by (simp add: t(1))
  have absent: "\<forall>c < IDS. id_live st c \<longrightarrow> id_name st c \<noteq> k" using id_gone_absent [OF inv gone] by blast
  have clear: "id_clear st k (start k) e" using gone by (auto simp: id_gone_def id_clear_def)
  have fns: "id_live ?st = (id_live st)(t := True)" "id_busy ?st = (id_busy st)(t := True)"
    "id_name ?st = (id_name st)(t := k)"
    by (auto simp: id_put_def id_live_def id_busy_def id_name_def fun_eq_iff)
  have slots: "id_slot (ids ?st p) = (if p = t then s else id_slot (ids st p))" for p by (simp add: id_put_def)
  have r: "reachable IDS start (id_live st) (id_busy st) (id_name st)" "one_cell IDS (id_live st) (id_name st)"
    using inv by (auto simp: id_inv_def)
  have path: "\<forall>c < IDS. on_path IDS (start k) c t \<and> c \<noteq> t \<longrightarrow> id_busy st c"
    using id_clear_path [OF clear t(2)] t(1) by blast
  have "reachable IDS start (id_live ?st) (id_busy ?st) (id_name ?st)"
    unfolding fns by (rule id_ring.reachable_store [OF r(1) tl path])
  moreover have "one_cell IDS (id_live ?st) (id_name ?st)"
    unfolding fns by (rule id_ring.one_cell_store [OF r(2) absent])
  moreover have "\<forall>p < IDS. id_state (ids ?st p) \<le> 2" using inv by (simp add: id_put_def id_inv_def)
  moreover have "id_entries ?st = card {p. p < IDS \<and> id_live ?st p}"
  proof -
    have "{p. p < IDS \<and> id_live ?st p} = insert t {p. p < IDS \<and> id_live st p}" using tl by (auto simp: fns)
    then show ?thesis using free inv by (simp add: id_put_def id_inv_def)
  qed
  moreover have "tombstones ?st = card {p. p < IDS \<and> id_state (ids ?st p) = 2}"
  proof -
    have "{p. p < IDS \<and> id_state (ids ?st p) = 2} = {p. p < IDS \<and> id_state (ids st p) = 2} - {t}"
      by (auto simp: id_put_def)
    then show ?thesis using inv tl by (simp add: id_put_def id_inv_def card_Diff_singleton_if)
  qed
  ultimately show i: "id_inv ?st" by (simp add: id_inv_def)
  show "id_map ?st = (id_map st)(k \<mapsto> s)"
  proof (rule id_map_eqI [OF i])
    fix j s'
    have "(\<exists>p < IDS. id_live ?st p \<and> id_name ?st p = j \<and> id_slot (ids ?st p) = s') \<longleftrightarrow>
      (if j = k then s' = s else \<exists>p < IDS. id_live st p \<and> id_name st p = j \<and> id_slot (ids st p) = s')"
      unfolding fns slots using absent tl free by (auto split: if_splits)
    then show "(\<exists>p < IDS. id_live ?st p \<and> id_name ?st p = j \<and> id_slot (ids ?st p) = s') \<longleftrightarrow>
      ((id_map st)(k \<mapsto> s)) j = Some s'"
      by (auto simp: id_map_Some [OF inv])
  qed
qed

lemma id_rewrite_ok:
  assumes inv: "id_inv st" and p: "p < IDS" "id_live st p" "id_name st p = k"
    and st'_def: "st' = st\<lparr>ids := (ids st)(p := (ids st p)\<lparr>id_slot := s\<rparr>)\<rparr>"
  shows "id_inv st'" and "id_map st' = (id_map st)(k \<mapsto> s)"
proof -
  have fns: "id_live st' = id_live st" "id_busy st' = id_busy st" "id_name st' = id_name st"
    by (auto simp: st'_def id_live_def id_busy_def id_name_def fun_eq_iff)
  have slots: "id_slot (ids st' q) = (if q = p then s else id_slot (ids st q))" for q by (simp add: st'_def)
  have sts: "id_state (ids st' q) = id_state (ids st q)" for q by (simp add: st'_def)
  show i: "id_inv st'" using inv unfolding id_inv_def fns sts by (simp add: st'_def)
  have one: "q = p" if "q < IDS" "id_live st q" "id_name st q = k" for q
  proof -
    have "one_cell IDS (id_live st) (id_name st)" using inv by (simp add: id_inv_def)
    then show ?thesis using p that unfolding one_cell_def by metis
  qed
  show "id_map st' = (id_map st)(k \<mapsto> s)"
  proof (rule id_map_eqI [OF i])
    fix j s'
    have "(\<exists>q < IDS. id_live st' q \<and> id_name st' q = j \<and> id_slot (ids st' q) = s') \<longleftrightarrow>
      (if j = k then s' = s else \<exists>q < IDS. id_live st q \<and> id_name st q = j \<and> id_slot (ids st q) = s')"
    proof (cases "j = k")
      case True
      show ?thesis unfolding fns slots if_P [OF True] using p one True by (metis (full_types))
    next
      case False
      show ?thesis unfolding fns slots if_not_P [OF False] using p(3) False by metis
    qed
    then show "(\<exists>q < IDS. id_live st' q \<and> id_name st' q = j \<and> id_slot (ids st' q) = s') \<longleftrightarrow>
      ((id_map st)(k \<mapsto> s)) j = Some s'"
      by (auto simp: id_map_Some [OF inv])
  qed
qed

text \<open>The parts of the state the identity table does not own.\<close>

lemma id_entries_lt:
  assumes "id_inv st" and "id_entries st < IDS"
  shows "\<exists>e < IDS. \<not> id_live st ((a + e) mod IDS)"
proof (rule ccontr)
  assume n: "\<not> ?thesis"
  have "id_live st p" if "p < IDS" for p
  proof -
    have "ring_dist IDS (a mod IDS) p < IDS" "(a mod IDS + ring_dist IDS (a mod IDS) p) mod IDS = p"
      using that ring_dist_lt [of "a mod IDS" IDS p] ring_step_dist [of "a mod IDS" IDS p] by auto
    then show ?thesis using n by (metis mod_add_left_eq)
  qed
  then have "{p. p < IDS \<and> id_live st p} = {..<IDS}" by auto
  then show False using assms by (simp add: id_inv_def)
qed

lemma id_entries_room:
  assumes "id_inv st" and "p < IDS" and "\<not> id_live st p"
  shows "id_entries st < IDS"
proof -
  have "{p. p < IDS \<and> id_live st p} \<subset> {..<IDS}" using assms(2,3) by auto
  then have "card {p. p < IDS \<and> id_live st p} < card {..<IDS}" by (rule psubset_card_mono [rotated]) simp
  then show ?thesis using assms(1) by (simp add: id_inv_def)
qed

lemma insert_id_raw_cases:
  assumes inv: "id_inv st"
  shows "(\<exists>st'. insert_id_raw k s st = Some (True, st') \<and> id_inv st' \<and> id_map st' = (id_map st)(k \<mapsto> s)
            \<and> same_rest st st' \<and> ix_stats st' = ix_stats st \<and> id_entries st' \<le> id_entries st + 1
            \<and> (id_entries st < IDS \<or> id_map st k \<noteq> None))
       \<or> insert_id_raw k s st = Some (False, st) \<and> id_entries st = IDS \<and> id_map st k = None"
proof -
  have a: "\<forall>p < IDS. id_state (ids st p) \<le> 2" "tombstones st = card {p. p < IDS \<and> id_state (ids st p) = 2}"
    using inv by (auto simp: id_inv_def)
  have c: "id_clear st k (start k) 0" "first_ok st (start k) 0 None" by (auto simp: id_clear_def first_ok_def)
  have z: "insert_id_raw k s st = insert_id_loop IDS k s None ((start k + 0) mod IDS) st"
    by (simp add: insert_id_raw_def)
  have m: "0 + IDS = IDS" by simp
  from insert_id_loop_cases [OF a(1) m c a(2), of s] show ?thesis
  proof (elim disjE exE conjE)
    fix p assume p: "p < IDS" "id_live st p" "id_name st p = k"
      and run: "insert_id_loop IDS k s None ((start k + 0) mod IDS) st
        = Some (True, st\<lparr>ids := (ids st)(p := (ids st p)\<lparr>id_slot := s\<rparr>)\<rparr>)"
    have "id_map st k \<noteq> None" using p by (auto simp: id_map_None)
    then show ?thesis using id_rewrite_ok [OF inv p refl, of s] unfolding z run by (auto simp: same_rest_def)
  next
    fix e assume e: "e < IDS" "\<not> id_live st ((start k + e) mod IDS)" "id_gone st k (start k) e"
      and run: "insert_id_loop IDS k s None ((start k + 0) mod IDS) st = Some (True, id_put k s ((start k + e) mod IDS) st)"
    have "id_entries st < IDS" by (rule id_entries_room [OF inv _ e(2)]) simp
    then show ?thesis unfolding z run using id_put_ok [OF inv refl e] by (auto simp: same_rest_def id_put_def)
  next
    assume live: "\<forall>e < IDS. id_live st ((start k + e) mod IDS)" and clear: "id_clear st k (start k) IDS"
      and run: "insert_id_loop IDS k s None ((start k + 0) mod IDS) st = Some (False, st)"
    have "\<not> id_entries st < IDS" using live id_entries_lt [OF inv] by blast
    moreover have "id_entries st \<le> card {..<IDS}" using inv unfolding id_inv_def
      by (metis (no_types, lifting) card_mono finite_lessThan lessThan_iff mem_Collect_eq subsetI)
    moreover have "id_gone st k (start k) 0" using clear unfolding id_gone_def by blast
    then have "id_map st k = None" using id_gone_absent [OF inv] by (simp add: id_map_None)
    ultimately show ?thesis unfolding z run by simp
  qed
qed

lemma insert_id_raw_ok:
  assumes inv: "id_inv st" and room: "id_entries st < IDS"
  shows "\<exists>st'. insert_id_raw k s st = Some (True, st') \<and> id_inv st' \<and> id_map st' = (id_map st)(k \<mapsto> s)
     \<and> same_rest st st' \<and> ix_stats st' = ix_stats st \<and> id_entries st' \<le> id_entries st + 1"
  using insert_id_raw_cases [OF inv, of k s] room by auto

section \<open>Removal and rebuilding\<close>

lemma remove_id_loop_find:
  assumes "a < IDS"
  shows "remove_id_loop n k a st = Some (case find (id_stop st k) (ring_seg IDS a n) of
     None \<Rightarrow> st | Some p \<Rightarrow> if id_live st p then id_drop p st else st)"
  using assms
proof (induction n arbitrary: a)
  case (Suc n)
  have lt: "(a + 1) mod IDS < IDS" by simp
  show ?case
  proof (cases "id_stop st k a")
    case True
    then show ?thesis using Suc.prems
      by (auto simp: ring_seg_Suc id_stop_def id_live_def id_busy_def id_name_def id_drop_def)
  next
    case False
    then show ?thesis using Suc.prems Suc.IH [OF lt]
      by (auto simp: ring_seg_Suc id_stop_def id_live_def id_busy_def id_name_def)
  qed
qed simp

lemma id_drop_ok:
  assumes inv: "id_inv st" and p: "p < IDS" "id_live st p" "id_name st p = k"
  shows "id_inv (id_drop p st)" and "id_map (id_drop p st) = (id_map st)(k := None)"
proof -
  let ?st = "id_drop p st"
  have fns: "id_live ?st = (id_live st)(p := False)" "id_busy ?st = id_busy st"
    "\<And>q. q \<noteq> p \<Longrightarrow> id_name ?st q = id_name st q"
    using p(2) by (auto simp: id_drop_def id_live_def id_busy_def id_name_def fun_eq_iff)
  have slots: "\<And>q. q \<noteq> p \<Longrightarrow> id_slot (ids ?st q) = id_slot (ids st q)" by (simp add: id_drop_def)
  have r: "reachable IDS start (id_live st) (id_busy st) (id_name st)" "one_cell IDS (id_live st) (id_name st)"
    using inv by (auto simp: id_inv_def)
  have "reachable IDS start (id_live ?st) (id_busy ?st) (id_name st)"
    using r(1) unfolding fns(1,2) reachable_def by (metis fun_upd_apply)
  then have "reachable IDS start (id_live ?st) (id_busy ?st) (id_name ?st)"
    by (rule reachable_key_cong) (metis fns(1,3) fun_upd_same)
  moreover have "one_cell IDS (id_live ?st) (id_name ?st)"
    using r(2) fns(3) unfolding fns(1) one_cell_def by (metis fun_upd_apply)
  moreover have "\<forall>q < IDS. id_state (ids ?st q) \<le> 2" using inv by (simp add: id_drop_def id_inv_def)
  moreover have "id_entries ?st = card {q. q < IDS \<and> id_live ?st q}"
  proof -
    have "{q. q < IDS \<and> id_live ?st q} = {q. q < IDS \<and> id_live st q} - {p}" by (auto simp: fns(1))
    then show ?thesis using p inv by (simp add: id_drop_def id_inv_def)
  qed
  moreover have "tombstones ?st = card {q. q < IDS \<and> id_state (ids ?st q) = 2}"
  proof -
    have "{q. q < IDS \<and> id_state (ids ?st q) = 2} = insert p {q. q < IDS \<and> id_state (ids st q) = 2}"
      using p(1) by (auto simp: id_drop_def)
    then show ?thesis using inv p by (simp add: id_drop_def id_inv_def id_live_def)
  qed
  ultimately show i: "id_inv ?st" by (simp add: id_inv_def)
  have one: "q = p" if "q < IDS" "id_live st q" "id_name st q = k" for q
    using r(2) p that unfolding one_cell_def by metis
  show "id_map ?st = (id_map st)(k := None)"
  proof (rule id_map_eqI [OF i])
    fix j s'
    have "(\<exists>q < IDS. id_live ?st q \<and> id_name ?st q = j \<and> id_slot (ids ?st q) = s') \<longleftrightarrow>
      j \<noteq> k \<and> (\<exists>q < IDS. id_live st q \<and> id_name st q = j \<and> id_slot (ids st q) = s')"
      unfolding fns(1) using p(3) one fns(3) slots by (metis (full_types) fun_upd_apply)
    then show "(\<exists>q < IDS. id_live ?st q \<and> id_name ?st q = j \<and> id_slot (ids ?st q) = s') \<longleftrightarrow>
      ((id_map st)(k := None)) j = Some s'"
      by (auto simp: id_map_Some [OF inv])
  qed
qed

lemma remove_id_ok:
  assumes inv: "id_inv st"
  shows "\<exists>st'. remove_id k st = Some st' \<and> id_inv st' \<and> id_map st' = (id_map st)(k := None)
     \<and> same_rest st st' \<and> ix_stats st' = ix_stats st"
proof (cases "id_map st k")
  case None
  have "remove_id k st = Some st"
    using id_find_miss [OF None] remove_id_loop_find [OF start_lt, of IDS k k st]
    by (auto simp: remove_id_def ring_seg_full id_live_def id_busy_def split: option.splits)
  then show ?thesis using inv None by (auto simp: same_rest_def)
next
  case (Some s)
  then obtain p where p: "p < IDS" "id_live st p" "id_name st p = k" using id_map_Some [OF inv] by blast
  then have "remove_id k st = Some (id_drop p st)"
    using id_find_hit [OF inv p] remove_id_loop_find [OF start_lt, of IDS k k st]
    by (simp add: remove_id_def ring_seg_full)
  then show ?thesis using id_drop_ok [OF inv p] by (auto simp: same_rest_def id_drop_def)
qed

text \<open>Rebuilding: the table then holds the active ranges, a later slot winning over an earlier one.\<close>

lemma rebuild_from_ok:
  assumes "id_inv st" and "set xs \<subseteq> {..<RANGES}" and "id_entries st + length xs < IDS"
  shows "\<exists>st'. rebuild_from tab xs st = Some st' \<and> id_inv st' \<and> id_map st' = active_map tab xs (id_map st)
     \<and> same_rest st st' \<and> ix_stats st' = ix_stats st \<and> id_entries st' \<le> id_entries st + length xs"
  using assms
proof (induction xs arbitrary: st)
  case Nil
  then show ?case by (simp add: same_rest_def)
next
  case (Cons s xs)
  have s: "record_at tab s = Some (tab s)" using Cons.prems(2) by (simp add: record_at_def)
  show ?case
  proof (cases "rec_active (tab s)")
    case False
    have pre: "set xs \<subseteq> {..<RANGES}" "id_entries st + length xs < IDS" using Cons.prems by auto
    from Cons.IH [OF Cons.prems(1) pre] show ?thesis using False s by auto
  next
    case True
    obtain st1 where st1: "insert_id_raw (rec_id (tab s)) s st = Some (True, st1)" "id_inv st1"
      "id_map st1 = (id_map st)(rec_id (tab s) \<mapsto> s)" "same_rest st st1" "ix_stats st1 = ix_stats st"
      "id_entries st1 \<le> id_entries st + 1"
      using insert_id_raw_ok [OF Cons.prems(1), of "rec_id (tab s)" s] Cons.prems(3) by auto
    have pre: "set xs \<subseteq> {..<RANGES}" "id_entries st1 + length xs < IDS" using Cons.prems st1(6) by auto
    from Cons.IH [OF st1(2) pre] show ?thesis using True s st1 by (auto simp: same_rest_def fun_upd_def)
  qed
qed

lemma empty_ids_inv: "id_inv (st\<lparr>ids := (\<lambda>_. ID_EMPTY), id_entries := 0, tombstones := 0\<rparr>)"
  by (simp add: id_inv_def id_live_def id_busy_def reachable_def one_cell_def ID_EMPTY_def)

lemma empty_ids_map: "id_map (st\<lparr>ids := (\<lambda>_. ID_EMPTY), id_entries := 0, tombstones := 0\<rparr>) = Map.empty"
  by (simp add: fun_eq_iff id_map_None id_live_def ID_EMPTY_def)

lemma rebuild_ok:
  shows "\<exists>st'. rebuild tab st = Some st' \<and> id_inv st' \<and> id_map st' = active_map tab [0..<RANGES] Map.empty
     \<and> same_rest st st' \<and> id_entries st' \<le> RANGES"
proof -
  let ?st = "st\<lparr>ix_stats := (ix_stats st)\<lparr>range_index_rebuilds := wrapping_add64 (range_index_rebuilds (ix_stats st)) 1\<rparr>,
           ids := (\<lambda>_. ID_EMPTY), id_entries := 0, tombstones := 0\<rparr>"
  have "id_inv ?st" "id_map ?st = Map.empty" using empty_ids_inv empty_ids_map by auto
  moreover have "set [0..<RANGES] \<subseteq> {..<RANGES}" by auto
  moreover have "id_entries ?st + length [0..<RANGES] < IDS" by (simp add: IDS_def RANGES_def)
  ultimately show ?thesis using rebuild_from_ok [of ?st "[0..<RANGES]" tab]
    by (auto simp: rebuild_def same_rest_def)
qed

text \<open>
  An insertion always succeeds. The table is rebuilt only when all of its cells are live, which the
  range table cannot fill.
\<close>

lemma insert_id_ok:
  assumes inv: "id_inv st"
  shows "\<exists>st'. insert_id tab k s st = Some (True, st') \<and> id_inv st' \<and> same_rest st st'
     \<and> (if id_entries st < IDS \<or> id_map st k \<noteq> None
        then id_map st' = (id_map st)(k \<mapsto> s) \<and> ix_stats st' = ix_stats st
        else id_map st' = (active_map tab [0..<RANGES] Map.empty)(k \<mapsto> s))"
proof -
  consider (ok) st' where "insert_id_raw k s st = Some (True, st')" "id_inv st'"
      "id_map st' = (id_map st)(k \<mapsto> s)" "same_rest st st'" "ix_stats st' = ix_stats st"
      "id_entries st < IDS \<or> id_map st k \<noteq> None"
    | (full) "insert_id_raw k s st = Some (False, st)" "id_entries st = IDS" "id_map st k = None"
    using insert_id_raw_cases [OF inv, of k s] by metis
  then show ?thesis
  proof cases
    case ok
    then show ?thesis by (auto simp: insert_id_def)
  next
    case full
  obtain st1 where st1: "rebuild tab st = Some st1" "id_inv st1" "id_map st1 = active_map tab [0..<RANGES] Map.empty"
     "same_rest st st1" "id_entries st1 \<le> RANGES" using rebuild_ok by blast
  have "id_entries st1 < IDS" using st1(5) by (simp add: IDS_def RANGES_def)
  from insert_id_raw_ok [OF st1(2) this, of k s] show ?thesis
    using full st1 by (auto simp: insert_id_def same_rest_def)
  qed
qed

lemma id_dom_card:
  assumes inv: "id_inv st"
  shows "card (dom (id_map st)) = id_entries st"
proof -
  let ?L = "{p. p < IDS \<and> id_live st p}"
  have "inj_on (id_name st) ?L" using inv unfolding id_inv_def one_cell_def inj_on_def by blast
  moreover have "dom (id_map st) = id_name st ` ?L"
  proof (rule set_eqI)
    fix k
    show "k \<in> dom (id_map st) \<longleftrightarrow> k \<in> id_name st ` ?L"
      using id_map_None [of st k] by (auto simp: dom_def)
  qed
  ultimately show ?thesis using inv by (simp add: card_image id_inv_def)
qed

lemma id_dom_finite: "id_inv st \<Longrightarrow> finite (dom (id_map st))"
proof (rule ccontr)
  assume inv: "id_inv st" and "infinite (dom (id_map st))"
  have "dom (id_map st) \<subseteq> id_name st ` {..<IDS}" using id_map_None [of st] by (auto simp: dom_def)
  then show False using \<open>infinite _\<close> finite_subset by blast
qed

interpretation id_table: bounded_map id_inv id_map "id_put_op tab" "id_drop_op tab" IDS for tab
proof unfold_locales
  fix st k v
  assume inv: "id_inv st" and c: "card (dom ((id_map st)(k \<mapsto> v))) \<le> IDS"
  have "id_entries st < IDS \<or> id_map st k \<noteq> None"
  proof (cases "id_map st k")
    case None
    then have "k \<notin> dom (id_map st)" by (simp add: domIff)
    then show ?thesis using c id_dom_card [OF inv] id_dom_finite [OF inv] by simp
  qed simp
  then show "\<exists>s'. id_put_op tab k v st = Some s' \<and> id_inv s' \<and> id_map s' = (id_map st)(k \<mapsto> v)"
    using insert_id_ok [OF inv, of tab k v] by (auto simp: id_put_op_def vm_index_change_def)
next
  fix st k assume inv: "id_inv st"
  show "\<exists>s'. id_drop_op tab k st = Some s' \<and> id_inv s' \<and> id_map s' = (id_map st)(k := None)"
    using remove_id_ok [OF inv, of k] by (auto simp: id_drop_op_def vm_index_change_def)
qed

lemma id_inv_empty: "id_inv VM_INDEX_EMPTY" and id_map_empty: "id_map VM_INDEX_EMPTY = Map.empty"
  using empty_ids_inv [of VM_INDEX_EMPTY] empty_ids_map [of VM_INDEX_EMPTY] by (auto simp: VM_INDEX_EMPTY_def)

text \<open>
  C24. The identity table is a finite map. Any sequence of insertions and removals of identities that
  keeps at most 2048 identities at once runs without a panic and without a refusal, and afterwards
  the raw query for an identity returns the slot last stored for it, or the absent value when it was
  never stored or was removed since. The live-range query returns the slot only when its range record
  is active under the same identity. Tombstones and reused cells never hide an entry, and the entry
  counter is the number of identities held.
\<close>

theorem id_table_refines_map:
  assumes "within_capacity IDS ops Map.empty"
  shows "\<exists>st. map_run (id_put_op tab) (id_drop_op tab) ops VM_INDEX_EMPTY = Some st
     \<and> id_entries st = card (dom (fold map_apply ops Map.empty))
     \<and> (\<forall>k < 2 ^ 32. \<exists>st1 st2.
          vm_index_query tab 2 k st =
            Some (case fold map_apply ops Map.empty k of None \<Rightarrow> NONE | Some s \<Rightarrow> s, st1)
        \<and> vm_index_query tab 1 k st =
            Some (case fold map_apply ops Map.empty k of
                    None \<Rightarrow> NONE
                  | Some s \<Rightarrow> if s < RANGES \<and> rec_id (tab s) = k \<and> rec_active (tab s) then s else NONE, st2))"
proof -
  obtain st where st: "map_run (id_put_op tab) (id_drop_op tab) ops VM_INDEX_EMPTY = Some st" "id_inv st"
      "id_map st = fold map_apply ops Map.empty"
    using id_table.run_refines [OF id_inv_empty, of ops tab] assms by (auto simp: id_map_empty)
  have "\<exists>st1 st2. vm_index_query tab 2 k st = Some (case id_map st k of None \<Rightarrow> NONE | Some s \<Rightarrow> s, st1)
        \<and> vm_index_query tab 1 k st = Some (case id_map st k of None \<Rightarrow> NONE
            | Some s \<Rightarrow> if s < RANGES \<and> rec_id (tab s) = k \<and> rec_active (tab s) then s else NONE, st2)"
    if "k < 2 ^ 32" for k
    using that by_id_ok [OF st(2), of tab k True] by_id_ok [OF st(2), of tab k False]
    by (cases "id_map st k") (auto simp: vm_index_query_def id_answer_def)
  then show ?thesis using st id_dom_card [OF st(2)] by simp
qed

theorem id_table_refines_map_witness:
  "\<exists>st. map_run (id_put_op (\<lambda>_. undefined)) (id_drop_op (\<lambda>_. undefined)) [Put 7 3, Put 9 4, Drop 7] VM_INDEX_EMPTY = Some st
     \<and> id_entries st = 1"
proof -
  have w: "within_capacity IDS [Put 7 3, Put 9 4, Drop 7] (Map.empty :: nat \<Rightarrow> nat option)"
    by (simp add: IDS_def RANGES_def)
  have "fold map_apply [Put 7 3, Put 9 4, Drop 7] Map.empty = [9 :: nat \<mapsto> 4 :: nat]"
    by (auto simp: fun_eq_iff)
  then show ?thesis using id_table_refines_map [OF w] by auto
qed

text \<open>
  C26. Inserting an identity never fails. Whatever the state of the table, the insertion stores the
  slot, keeps the table searchable and leaves the address order, the free-slot hint and the identity
  counter alone. The table is rebuilt from the range records only when all 2048 of its cells hold
  identities and the new one is not among them; tombstones alone never cause a rebuild.
\<close>

theorem insert_id_total:
  assumes "id_inv st"
  shows "\<exists>st'. insert_id tab k s st = Some (True, st') \<and> id_inv st' \<and> same_rest st st' \<and> id_map st' k = Some s
     \<and> (if id_entries st < IDS \<or> id_map st k \<noteq> None
        then id_map st' = (id_map st)(k \<mapsto> s) \<and> ix_stats st' = ix_stats st
        else id_map st' = (active_map tab [0..<RANGES] Map.empty)(k \<mapsto> s))"
  using insert_id_ok [OF assms, of tab k s] by (auto split: if_splits)

theorem insert_id_total_witness:
  "\<exists>st'. insert_id (\<lambda>_. undefined) 7 3 VM_INDEX_EMPTY = Some (True, st') \<and> id_map st' = [7 \<mapsto> 3]"
proof -
  have "id_entries VM_INDEX_EMPTY < IDS" by (simp add: VM_INDEX_EMPTY_def)
  then show ?thesis using insert_id_total [OF id_inv_empty, of "\<lambda>_. undefined" 7 3] by (auto simp: id_map_empty)
qed

end
