(* ===== verification/Vm_Address.thy ===== *)
theory Vm_Address
  imports Vm_Index
begin

text \<open>
  The address order and the free-slot search of \<open>Vm_Index\<close>: the order array holds the linked slots
  sorted by base and the position array is its inverse; both are kept by linking and unlinking, and
  the two binary searches find the boundary they look for.
\<close>

definition addr_list :: "vm_index \<Rightarrow> nat list" where
  "addr_list st = map (order st) [0..<addresses st]"

definition base_at :: "(nat \<Rightarrow> vm_record) \<Rightarrow> nat \<Rightarrow> nat" where
  "base_at tab s = rec_base (tab s)"

definition addr_inv :: "(nat \<Rightarrow> vm_record) \<Rightarrow> vm_index \<Rightarrow> bool" where
  "addr_inv tab st \<longleftrightarrow> distinct (addr_list st) \<and> set (addr_list st) \<subseteq> {..<RANGES}
     \<and> sorted (map (base_at tab) (addr_list st))
     \<and> (\<forall>i < addresses st. positions st (order st i) = i)
     \<and> (\<forall>s < RANGES. s \<notin> set (addr_list st) \<longrightarrow> positions st s = U16_MAX)"

definition range_fit :: "vm_record \<Rightarrow> bool" where
  "range_fit r \<longleftrightarrow> 0 < rec_len r \<and> rec_base r + rec_len r \<le> U64_MAX"

definition covers_addr :: "vm_record \<Rightarrow> nat \<Rightarrow> bool" where
  "covers_addr r a \<longleftrightarrow> rec_base r \<le> a \<and> a < rec_base r + rec_len r"

definition apart :: "vm_record \<Rightarrow> vm_record \<Rightarrow> bool" where
  "apart r q \<longleftrightarrow> rec_base r + rec_len r \<le> rec_base q \<or> rec_base q + rec_len q \<le> rec_base r"

definition ranges_apart :: "(nat \<Rightarrow> vm_record) \<Rightarrow> nat set \<Rightarrow> bool" where
  "ranges_apart tab S \<longleftrightarrow> (\<forall>s \<in> S. range_fit (tab s)) \<and> (\<forall>s \<in> S. \<forall>t \<in> S. s \<noteq> t \<longrightarrow> apart (tab s) (tab t))"

datatype addr_op = Link nat | Unlink nat

primrec addr_step :: "(nat \<Rightarrow> vm_record) \<Rightarrow> addr_op \<Rightarrow> vm_index \<Rightarrow> (bool \<times> vm_index) outcome" where
  "addr_step tab (Link s) st = vm_index_change tab 2 0 s st"
| "addr_step tab (Unlink s) st = vm_index_change tab 3 0 s st"

primrec addr_run :: "(nat \<Rightarrow> vm_record) \<Rightarrow> addr_op list \<Rightarrow> vm_index \<Rightarrow> vm_index outcome" where
  "addr_run tab [] st = Some st"
| "addr_run tab (op # ops) st = do { (_, st1) \<leftarrow> addr_step tab op st; addr_run tab ops st1 }"

primrec linked :: "addr_op list \<Rightarrow> nat set \<Rightarrow> nat set option" where
  "linked [] S = Some S"
| "linked (op # ops) S = (case op of
     Link s \<Rightarrow> if s < RANGES \<and> s \<notin> S then linked ops (insert s S) else None
   | Unlink s \<Rightarrow> if s < RANGES then linked ops (S - {s}) else None)"

definition sample_ranges :: "nat \<Rightarrow> vm_record" where
  "sample_ranges s = \<lparr>rec_id = s + 1, rec_slot_used = True, rec_status = 1, rec_window = 0,
     rec_base = 4096 * (10 - s), rec_len = 4096\<rparr>"

definition slot_free :: "(nat \<Rightarrow> vm_record) \<Rightarrow> nat \<Rightarrow> bool" where
  "slot_free tab s \<longleftrightarrow> \<not> rec_slot_used (tab s) \<or> rec_status (tab s) = 5"

lemma addr_list_nth [simp]: "i < addresses st \<Longrightarrow> addr_list st ! i = order st i"
  by (simp add: addr_list_def)

lemma length_addr_list [simp]: "length (addr_list st) = addresses st"
  by (simp add: addr_list_def)

lemma addr_inv_le:
  assumes "addr_inv tab st"
  shows "addresses st \<le> RANGES"
proof -
  have "card (set (addr_list st)) = addresses st"
    using assms distinct_card [of "addr_list st"] by (simp add: addr_inv_def)
  moreover have "card (set (addr_list st)) \<le> card {..<RANGES}"
    using assms by (intro card_mono) (auto simp: addr_inv_def)
  ultimately show ?thesis by simp
qed

lemma addr_inv_order:
  assumes "addr_inv tab st" and "i < addresses st"
  shows "order st i < RANGES"
  using assms nth_mem [of i "addr_list st"] by (auto simp: addr_inv_def)

lemma addr_inv_sorted:
  assumes "addr_inv tab st" and "i \<le> j" and "j < addresses st"
  shows "base_at tab (order st i) \<le> base_at tab (order st j)"
proof -
  have "map (base_at tab) (addr_list st) ! i \<le> map (base_at tab) (addr_list st) ! j"
    using assms by (intro sorted_nth_mono) (auto simp: addr_inv_def)
  then show ?thesis using assms by simp
qed

text \<open>Both binary searches find the boundary of a prefix of the address order.\<close>

lemma lower_bound_loop_ok:
  assumes "addr_inv tab st" and "low \<le> high" and "high \<le> addresses st"
    and "\<forall>i < low. base_at tab (order st i) < b"
    and "\<forall>i. high \<le> i \<and> i < addresses st \<longrightarrow> b \<le> base_at tab (order st i)"
  shows "\<exists>p \<le> addresses st. lower_bound_loop tab st b low high = Some p
     \<and> (\<forall>i < p. base_at tab (order st i) < b) \<and> (\<forall>i. p \<le> i \<and> i < addresses st \<longrightarrow> b \<le> base_at tab (order st i))"
  using assms
proof (induction tab st b low high rule: lower_bound_loop.induct)
  case (1 tab st b low high)
  show ?case
  proof (cases "low < high")
    case False
    then have "lower_bound_loop tab st b low high = Some low" by (subst lower_bound_loop.simps) simp
    then show ?thesis using 1(4-7) False by auto
  next
    case True
    define mid where "mid = low + (high - low) div 2"
    have mid: "low \<le> mid" "mid < high" using True by (auto simp: mid_def)
    have n: "mid < addresses st" using mid 1(5) by simp
    have r: "mid < RANGES" "order st mid < RANGES"
      using n addr_inv_le [OF 1(3)] addr_inv_order [OF 1(3) n] by auto
    have eq: "lower_bound_loop tab st b low high =
      (if base_at tab (order st mid) < b then lower_bound_loop tab st b (mid + 1) high
       else lower_bound_loop tab st b low mid)"
      using True r by (subst lower_bound_loop.simps) (simp add: mid_def [symmetric] record_at_def base_at_def Let_def)
    have gets: "index_get RANGES (order st) mid = Some (order st mid)" "record_at tab (order st mid) = Some (tab (order st mid))"
      using r by (auto simp: record_at_def)
    show ?thesis
    proof (cases "base_at tab (order st mid) < b")
      case less: True
      have "\<forall>i < mid + 1. base_at tab (order st i) < b"
      proof (intro allI impI)
        fix i assume "i < mid + 1"
        then have "base_at tab (order st i) \<le> base_at tab (order st mid)"
          using addr_inv_sorted [OF 1(3), of i mid] n by simp
        then show "base_at tab (order st i) < b" using less by simp
      qed
      then show ?thesis unfolding eq
        using less 1(1) [OF True mid_def gets] 1(3-7) mid by (simp add: base_at_def)
    next
      case ge: False
      have "\<forall>i. mid \<le> i \<and> i < addresses st \<longrightarrow> b \<le> base_at tab (order st i)"
      proof (intro allI impI)
        fix i assume i: "mid \<le> i \<and> i < addresses st"
        then have "base_at tab (order st mid) \<le> base_at tab (order st i)"
          using addr_inv_sorted [OF 1(3), of mid i] by simp
        then show "b \<le> base_at tab (order st i)" using ge by simp
      qed
      then show ?thesis unfolding eq
        using ge 1(2) [OF True mid_def gets] 1(3-7) mid by (simp add: base_at_def)
    qed
  qed
qed

lemma lower_bound_ok:
  assumes "addr_inv tab st"
  shows "\<exists>p \<le> addresses st. lower_bound tab st b = Some p
     \<and> (\<forall>i < p. base_at tab (order st i) < b) \<and> (\<forall>i. p \<le> i \<and> i < addresses st \<longrightarrow> b \<le> base_at tab (order st i))"
  unfolding lower_bound_def by (rule lower_bound_loop_ok [OF assms]) auto

lemma by_address_loop_eq:
  "low \<le> high \<Longrightarrow> map_option fst (by_address_loop tab st a low high probes) = lower_bound_loop tab st (a + 1) low high"
proof (induction tab st a low high probes rule: by_address_loop.induct)
  case (1 tab st a low high probes)
  show ?case
  proof (cases "low < high")
    case False
    then show ?thesis by (subst by_address_loop.simps, subst lower_bound_loop.simps) simp
  next
    case True
    define mid where "mid = low + (high - low) div 2"
    have mid: "low \<le> mid" "mid < high" using True by (auto simp: mid_def)
    show ?thesis
    proof (cases "mid < RANGES \<and> order st mid < RANGES")
      case False
      then show ?thesis using True
        by (subst by_address_loop.simps, subst lower_bound_loop.simps)
          (auto simp: mid_def [symmetric] record_at_def index_get_def Let_def)
    next
      case r: True
      then have gets: "index_get RANGES (order st) mid = Some (order st mid)"
        "record_at tab (order st mid) = Some (tab (order st mid))" by (auto simp: record_at_def)
      have l: "lower_bound_loop tab st (a + 1) low high = (if rec_base (tab (order st mid)) \<le> a
          then lower_bound_loop tab st (a + 1) (mid + 1) high else lower_bound_loop tab st (a + 1) low mid)"
        using True gets by (subst lower_bound_loop.simps) (simp add: mid_def [symmetric] Let_def)
      have b: "by_address_loop tab st a low high probes = (if rec_base (tab (order st mid)) \<le> a
          then by_address_loop tab st a (mid + 1) high (probes + 1) else by_address_loop tab st a low mid (probes + 1))"
        using True gets by (subst by_address_loop.simps) (simp add: mid_def [symmetric] Let_def)
      show ?thesis unfolding l b using 1(1) [OF True mid_def gets] 1(2) [OF True mid_def gets] mid by simp
    qed
  qed
qed

lemma by_address_ok:
  assumes "addr_inv tab st" and "ranges_apart tab (set (addr_list st))"
  shows "\<exists>slot st'. by_address tab a st = Some (slot, st')
     \<and> (case find (\<lambda>s. covers_addr (tab s) a) (addr_list st) of Some s \<Rightarrow> slot = s | None \<Rightarrow> slot = NONE)
     \<and> (\<exists>s. st' = st\<lparr>ix_stats := s\<rparr>)"
proof -
  obtain p where p: "p \<le> addresses st" "lower_bound tab st (a + 1) = Some p"
     "\<forall>i < p. base_at tab (order st i) < a + 1" "\<forall>i. p \<le> i \<and> i < addresses st \<longrightarrow> a + 1 \<le> base_at tab (order st i)"
    using lower_bound_ok [OF assms(1)] by blast
  have "map_option fst (by_address_loop tab st a 0 (addresses st) 0) = Some p"
    using by_address_loop_eq [of 0 "addresses st" tab st a 0] p(2) by (simp add: lower_bound_def)
  then obtain probes where l: "by_address_loop tab st a 0 (addresses st) 0 = Some (p, probes)" by auto
  have out: "\<not> covers_addr (tab (order st i)) a" if "i < addresses st" "i + 1 \<noteq> p" for i
  proof
    assume c: "covers_addr (tab (order st i)) a"
    then have "base_at tab (order st i) < a + 1" by (simp add: covers_addr_def base_at_def)
    then have ip: "i < p" using p(4) that(1) by (meson leI not_less)
    have q: "p - 1 < addresses st" "i \<le> p - 1" "i \<noteq> p - 1" using ip p(1) that by auto
    have mem: "order st i \<in> set (addr_list st)" "order st (p - 1) \<in> set (addr_list st)"
      using that(1) q(1) by (auto simp: addr_list_def)
    have ne: "order st i \<noteq> order st (p - 1)"
      using assms(1) that(1) q by (metis addr_inv_def)
    have "base_at tab (order st i) \<le> base_at tab (order st (p - 1))" by (rule addr_inv_sorted [OF assms(1) q(2,1)])
    moreover have "base_at tab (order st (p - 1)) \<le> a" using p(3) ip by (metis Suc_eq_plus1 diff_less less_Suc_eq_le less_nat_zero_code not_gr_zero zero_less_one)
    moreover have "apart (tab (order st i)) (tab (order st (p - 1)))" "range_fit (tab (order st (p - 1)))"
      using assms(2) mem ne by (auto simp: ranges_apart_def)
    ultimately show False using c by (auto simp: apart_def covers_addr_def base_at_def range_fit_def)
  qed
  show ?thesis
  proof (cases "p = 0")
    case True
    then have "find (\<lambda>s. covers_addr (tab s) a) (addr_list st) = None"
      using out by (auto simp: find_None_iff addr_list_def)
    then show ?thesis using l True by (auto simp: by_address_def Let_def)
  next
    case False
    let ?s = "order st (p - 1)"
    have q: "p - 1 < addresses st" "p - 1 < RANGES" "?s < RANGES"
      using False p(1) addr_inv_le [OF assms(1)] addr_inv_order [OF assms(1), of "p - 1"] by auto
    have mem: "?s \<in> set (addr_list st)" using q(1) by (auto simp: addr_list_def)
    then have fit: "rec_base (tab ?s) + rec_len (tab ?s) \<le> U64_MAX" using assms(2) by (auto simp: ranges_apart_def range_fit_def)
    have "base_at tab ?s < a + 1" using p(3) False by simp
    then have cov: "covers_addr (tab ?s) a \<longleftrightarrow> a < rec_base (tab ?s) + rec_len (tab ?s)"
      by (auto simp: covers_addr_def base_at_def)
    have fnd: "find (\<lambda>s. covers_addr (tab s) a) (addr_list st) = (if covers_addr (tab ?s) a then Some ?s else None)"
    proof (cases "covers_addr (tab ?s) a")
      case True
      have "\<forall>j < p - 1. \<not> covers_addr (tab (addr_list st ! j)) a" using out q(1) by auto
      then show ?thesis using True q(1) by (auto simp: find_Some_iff intro!: exI [of _ "p - 1"])
    next
      case nc: False
      have "\<not> covers_addr (tab s) a" if s: "s \<in> set (addr_list st)" for s
      proof -
        obtain i where i: "i < addresses st" "s = order st i" using s by (auto simp: addr_list_def)
        show ?thesis using out [OF i(1)] i(2) nc by (cases "i + 1 = p") auto
      qed
      then show ?thesis using nc by (auto simp: find_None_iff)
    qed
    show ?thesis unfolding fnd using l False q fit cov
      by (auto simp: by_address_def Let_def record_at_def checked_add64_def)
  qed
qed

lemma shift_up_ok:
  assumes "pos \<le> m" and "m < RANGES" and "\<forall>i < m. order st i < RANGES"
    and "inj_on (order st) {..<m}"
  shows "\<exists>o1 p1. shift_up (rev [pos + 1..<m + 1]) st = Some (st\<lparr>order := o1, positions := p1\<rparr>)
     \<and> o1 = (\<lambda>i. if pos < i \<and> i \<le> m then order st (i - 1) else order st i)
     \<and> (\<forall>i. pos \<le> i \<and> i < m \<longrightarrow> p1 (order st i) = i + 1)
     \<and> (\<forall>s. s \<notin> order st ` {pos..<m} \<longrightarrow> p1 s = positions st s)"
  using assms
proof (induction "m - pos" arbitrary: m st)
  case 0
  then have m: "m = pos" by simp
  have "(\<lambda>i. if pos < i \<and> i \<le> pos then order st (i - 1) else order st i) = order st" by (auto simp: fun_eq_iff)
  then show ?case unfolding m by (intro exI [of _ "order st"] exI [of _ "positions st"]) simp
next
  case (Suc x)
  then have lt: "pos < m" by simp
  have up: "rev [pos + 1..<m + 1] = m # rev [pos + 1..<(m - 1) + 1]" using lt by simp
  let ?v = "order st (m - 1)"
  let ?st = "st\<lparr>order := (order st)(m := ?v), positions := (positions st)(?v := m)\<rparr>"
  have v: "?v < RANGES" using Suc.prems(3) lt by simp
  have m16: "m mod 65536 = m" using Suc.prems(2) by (simp add: RANGES_def)
  have step: "shift_up (rev [pos + 1..<m + 1]) st = shift_up (rev [pos + 1..<(m - 1) + 1]) ?st"
    unfolding up using Suc.prems(2) v m16 lt by simp
  have h: "x = (m - 1) - pos" "pos \<le> m - 1" "m - 1 < RANGES" using Suc.hyps(2) Suc.prems(2) lt by auto
  have o: "\<forall>i < m - 1. order ?st i < RANGES" using Suc.prems(3) by simp
  have i: "inj_on (order ?st) {..<m - 1}" using Suc.prems(4) by (auto simp: inj_on_def)
  from Suc.hyps(1) [OF h o i] obtain o1 p1 where
     r: "shift_up (rev [pos + 1..<(m - 1) + 1]) ?st = Some (?st\<lparr>order := o1, positions := p1\<rparr>)"
     "o1 = (\<lambda>i. if pos < i \<and> i \<le> m - 1 then order ?st (i - 1) else order ?st i)"
     "\<forall>i. pos \<le> i \<and> i < m - 1 \<longrightarrow> p1 (order ?st i) = i + 1"
     "\<forall>s. s \<notin> order ?st ` {pos..<m - 1} \<longrightarrow> p1 s = positions ?st s" by blast
  have im: "order ?st ` {pos..<m - 1} = order st ` {pos..<m - 1}" by (rule image_cong) auto
  have vn: "?v \<notin> order st ` {pos..<m - 1}"
    using Suc.prems(4) lt by (force simp: inj_on_def)
  have a: "o1 = (\<lambda>i. if pos < i \<and> i \<le> m then order st (i - 1) else order st i)"
    using lt unfolding r(2) by (auto simp: fun_eq_iff)
  have b: "p1 (order st i) = i + 1" if i: "pos \<le> i \<and> i < m" for i
  proof (cases "i = m - 1")
    case True
    then show ?thesis using r(4) vn lt unfolding im by simp
  next
    case False
    then have "i < m - 1" using i by arith
    then show ?thesis using r(3) [rule_format, of i] i by auto
  qed
  have c: "p1 s = positions st s" if s: "s \<notin> order st ` {pos..<m}" for s
  proof -
    have "s \<notin> order st ` {pos..<m - 1}" "s \<noteq> ?v" using s lt by auto
    then show ?thesis using r(4) unfolding im by simp
  qed
  show ?case unfolding step r(1) using a b c by auto
qed

lemma addr_inj: "addr_inv tab st \<Longrightarrow> inj_on (order st) {..<addresses st}"
  by (auto simp: addr_inv_def inj_on_def) metis

lemma insert_address_ok:
  assumes inv: "addr_inv tab st" and slot: "slot < RANGES" "slot \<notin> set (addr_list st)"
  shows "\<exists>st'. insert_address tab slot st = Some st' \<and> addr_inv tab st'
     \<and> set (addr_list st') = insert slot (set (addr_list st))
     \<and> (\<exists>o1 p1 n. st' = st\<lparr>order := o1, positions := p1, addresses := n\<rparr>)"
proof -
  let ?n = "addresses st" and ?l = "addr_list st" and ?b = "rec_base (tab slot)"
  obtain p where p: "p \<le> ?n" "lower_bound tab st ?b = Some p"
     "\<forall>i < p. base_at tab (order st i) < ?b" "\<forall>i. p \<le> i \<and> i < ?n \<longrightarrow> ?b \<le> base_at tab (order st i)"
    using lower_bound_ok [OF inv] by blast
  have n: "?n < RANGES"
  proof -
    have "card (insert slot (set ?l)) \<le> card {..<RANGES}"
      using inv slot by (intro card_mono) (auto simp: addr_inv_def)
    then show ?thesis using slot(2) inv distinct_card [of ?l] by (simp add: addr_inv_def)
  qed
  obtain o1 p1 where r: "shift_up (rev [p + 1..<?n + 1]) st = Some (st\<lparr>order := o1, positions := p1\<rparr>)"
     "o1 = (\<lambda>i. if p < i \<and> i \<le> ?n then order st (i - 1) else order st i)"
     "\<forall>i. p \<le> i \<and> i < ?n \<longrightarrow> p1 (order st i) = i + 1"
     "\<forall>s. s \<notin> order st ` {p..<?n} \<longrightarrow> p1 s = positions st s"
    using shift_up_ok [OF p(1) n, of st] addr_inv_order [OF inv] addr_inj [OF inv] by blast
  let ?st = "st\<lparr>order := o1(p := slot), positions := p1(slot := p), addresses := ?n + 1\<rparr>"
  have m: "slot mod 65536 = slot" "p mod 65536 = p" "p < RANGES" using slot(1) p(1) n by (auto simp: RANGES_def)
  have run: "insert_address tab slot st = Some ?st"
    using p(2) r(1) slot(1) m by (simp add: insert_address_def record_at_def)
  have l': "addr_list ?st = take p ?l @ slot # drop p ?l"
  proof (rule nth_equalityI)
    fix i assume "i < length (addr_list ?st)"
    then have i: "i < ?n + 1" by simp
    show "addr_list ?st ! i = (take p ?l @ slot # drop p ?l) ! i"
      using i p(1) by (auto simp: addr_list_nth nth_append nth_Cons' r(2) min_def not_less)
  qed (use p(1) in simp)
  have set': "set (addr_list ?st) = insert slot (set ?l)"
    unfolding l' by (metis Un_insert_right append_take_drop_id list.simps(15) set_append)
  have sorted': "sorted (map (base_at tab) (addr_list ?st))"
  proof -
    have s: "sorted (map (base_at tab) ?l)" using inv by (simp add: addr_inv_def)
    have t: "sorted (map (base_at tab) (take p ?l))" "sorted (map (base_at tab) (drop p ?l))"
      using s by (simp_all add: sorted_wrt_take sorted_wrt_drop flip: take_map drop_map)
    have lo: "\<forall>x \<in> set (take p ?l). base_at tab x \<le> ?b"
      using p(1,3) by (fastforce simp: in_set_conv_nth)
    have hi: "\<forall>x \<in> set (drop p ?l). ?b \<le> base_at tab x"
      using p(1,4) by (auto simp: in_set_conv_nth)
    have "base_at tab slot = ?b" by (simp add: base_at_def)
    then show ?thesis unfolding l' using t lo hi by (auto simp: sorted_append intro: order_trans)
  qed
  have dist: "distinct (addr_list ?st)"
    unfolding l' using inv slot(2) by (auto simp: addr_inv_def distinct_take distinct_drop set_take_disj_set_drop_if_distinct
        dest: in_set_takeD in_set_dropD)
  have pos: "positions ?st (order ?st i) = i" if i: "i < addresses ?st" for i
  proof -
    have ne: "order st j \<noteq> slot" if "j < ?n" for j using slot(2) that by (auto simp: addr_list_def)
    consider "i < p" | "i = p" | "p < i" by linarith
    then show ?thesis
    proof cases
      case 1
      then have "order st i \<notin> order st ` {p..<?n}" using addr_inj [OF inv] p(1) by (force simp: inj_on_def)
      then show ?thesis using 1 r(4) p(1) ne [of i] inv by (simp add: r(2) addr_inv_def)
    next
      case 3
      then have "i - 1 < ?n" "p \<le> i - 1" using i by auto
      then show ?thesis using 3 i r(3) ne [of "i - 1"] by (simp add: r(2))
    qed simp
  qed
  have off: "positions ?st s = U16_MAX" if s: "s < RANGES" "s \<notin> set (addr_list ?st)" for s
  proof -
    have "s \<noteq> slot" "s \<notin> set ?l" using s(2) unfolding set' by auto
    then have "s \<notin> order st ` {p..<?n}" by (auto simp: addr_list_def)
    then show ?thesis using \<open>s \<noteq> slot\<close> \<open>s \<notin> set ?l\<close> r(4) s(1) inv by (simp add: addr_inv_def)
  qed
  have "addr_inv tab ?st"
    using inv slot(1) dist sorted' pos off unfolding addr_inv_def set' by blast
  then show ?thesis using run set' by blast
qed

lemma shift_down_ok:
  assumes "pos \<le> m" and "m < RANGES" and "\<forall>i. pos \<le> i \<and> i \<le> m \<longrightarrow> order st i < RANGES"
    and "inj_on (order st) {pos..m}"
  shows "\<exists>o1 p1. shift_down [pos..<m] st = Some (st\<lparr>order := o1, positions := p1\<rparr>)
     \<and> (\<forall>i. o1 i = (if pos \<le> i \<and> i < m then order st (i + 1) else order st i))
     \<and> (\<forall>i. pos \<le> i \<and> i < m \<longrightarrow> p1 (order st (i + 1)) = i)
     \<and> (\<forall>s. s \<notin> order st ` {pos + 1..m} \<longrightarrow> p1 s = positions st s)"
  using assms
proof (induction "m - pos" arbitrary: pos st)
  case 0
  then have m: "m = pos" by simp
  then show ?case by (intro exI [of _ "order st"] exI [of _ "positions st"]) auto
next
  case (Suc x)
  then have lt: "pos < m" by simp
  have up: "[pos..<m] = pos # [pos + 1..<m]" using lt by (simp add: upt_conv_Cons)
  let ?v = "order st (pos + 1)"
  let ?st = "st\<lparr>order := (order st)(pos := ?v), positions := (positions st)(?v := pos)\<rparr>"
  have v: "?v < RANGES" using Suc.prems(3) lt by simp
  have m16: "pos mod 65536 = pos" using Suc.prems(2) lt by (simp add: RANGES_def)
  have step: "shift_down [pos..<m] st = shift_down [pos + 1..<m] ?st"
    unfolding up using Suc.prems(2) v m16 lt by simp
  have h: "x = m - (pos + 1)" "pos + 1 \<le> m" using Suc.hyps(2) lt by auto
  have o: "\<forall>i. pos + 1 \<le> i \<and> i \<le> m \<longrightarrow> order ?st i < RANGES" using Suc.prems(3) by simp
  have i: "inj_on (order ?st) {pos + 1..m}" using Suc.prems(4) by (auto simp: inj_on_def)
  from Suc.hyps(1) [OF h Suc.prems(2) o i] obtain o1 p1 where
     r: "shift_down [pos + 1..<m] ?st = Some (?st\<lparr>order := o1, positions := p1\<rparr>)"
     "\<forall>i. o1 i = (if pos + 1 \<le> i \<and> i < m then order ?st (i + 1) else order ?st i)"
     "\<forall>i. pos + 1 \<le> i \<and> i < m \<longrightarrow> p1 (order ?st (i + 1)) = i"
     "\<forall>s. s \<notin> order ?st ` {pos + 1 + 1..m} \<longrightarrow> p1 s = positions ?st s" by blast
  have im: "order ?st ` {pos + 1 + 1..m} = order st ` {pos + 1 + 1..m}" by (rule image_cong) auto
  have vn: "?v \<notin> order st ` {pos + 1 + 1..m}"
    using Suc.prems(4) lt by (force simp: inj_on_def)
  have a: "o1 i = (if pos \<le> i \<and> i < m then order st (i + 1) else order st i)" for i
    using lt r(2) by auto
  have b: "p1 (order st (i + 1)) = i" if i: "pos \<le> i \<and> i < m" for i
  proof (cases "i = pos")
    case True
    then show ?thesis using r(4) vn unfolding im by simp
  next
    case False
    then show ?thesis using r(3) i by simp
  qed
  have c: "p1 s = positions st s" if s: "s \<notin> order st ` {pos + 1..m}" for s
  proof -
    have "s \<notin> order st ` {pos + 1 + 1..m}" "s \<noteq> ?v" using s lt by auto
    then show ?thesis using r(4) unfolding im by simp
  qed
  show ?case unfolding step r(1)
    by (rule exI [of _ o1], rule exI [of _ p1], intro conjI allI impI) (simp, (use a b c in blast)+)
qed

lemma remove_address_ok:
  assumes inv: "addr_inv tab st" and slot: "slot < RANGES"
  shows "\<exists>st'. remove_address slot st = Some st' \<and> addr_inv tab st'
     \<and> set (addr_list st') = set (addr_list st) - {slot}
     \<and> (\<exists>o1 p1 n. st' = st\<lparr>order := o1, positions := p1, addresses := n\<rparr>)"
proof (cases "slot \<in> set (addr_list st)")
  case False
  then have "positions st slot = U16_MAX" using inv slot by (simp add: addr_inv_def)
  then have "remove_address slot st = Some st" using slot by (simp add: remove_address_def)
  moreover have "st = st\<lparr>order := order st, positions := positions st, addresses := addresses st\<rparr>" by simp
  ultimately show ?thesis using inv False by blast
next
  case True
  let ?n = "addresses st" and ?l = "addr_list st"
  obtain p where p: "p < ?n" "order st p = slot" using True by (auto simp: addr_list_def)
  have pos: "positions st slot = p" using inv p by (auto simp: addr_inv_def)
  have n: "?n \<le> RANGES" by (rule addr_inv_le [OF inv])
  have p16: "p \<noteq> U16_MAX" "p < RANGES" using p(1) n by (auto simp: RANGES_def U16_MAX_def)
  have in1: "inj_on (order st) {p..?n - 1}"
    using addr_inj [OF inv] p(1) by (auto simp: inj_on_def)
  have "p \<le> ?n - 1" "?n - 1 < RANGES" "\<forall>i. p \<le> i \<and> i \<le> ?n - 1 \<longrightarrow> order st i < RANGES"
    using p(1) n addr_inv_order [OF inv] by auto
  from shift_down_ok [OF this in1] obtain o1 p1 where
     r: "shift_down [p..<?n - 1] st = Some (st\<lparr>order := o1, positions := p1\<rparr>)"
     "\<forall>i. o1 i = (if p \<le> i \<and> i < ?n - 1 then order st (i + 1) else order st i)"
     "\<forall>i. p \<le> i \<and> i < ?n - 1 \<longrightarrow> p1 (order st (i + 1)) = i"
     "\<forall>s. s \<notin> order st ` {p + 1..?n - 1} \<longrightarrow> p1 s = positions st s" by blast
  let ?st = "st\<lparr>order := o1, positions := p1(slot := U16_MAX), addresses := ?n - 1\<rparr>"
  have run: "remove_address slot st = Some ?st"
    using slot pos p16 p r(1) by (simp add: remove_address_def)
  have l': "addr_list ?st = take p ?l @ drop (p + 1) ?l"
  proof (rule nth_equalityI)
    fix i assume "i < length (addr_list ?st)"
    then have i: "i < ?n - 1" by simp
    show "addr_list ?st ! i = (take p ?l @ drop (p + 1) ?l) ! i"
      using i p(1) r(2) by (auto simp: addr_list_nth nth_append min_def)
  qed (use p(1) in simp)
  have ld: "?l = take p ?l @ slot # drop (p + 1) ?l"
    using id_take_nth_drop [of p ?l] p by simp
  have dl: "distinct (take p ?l @ slot # drop (p + 1) ?l)" using inv ld by (metis addr_inv_def)
  have set': "set (addr_list ?st) = set ?l - {slot}"
  proof -
    have "set ?l = set (take p ?l) \<union> {slot} \<union> set (drop (p + 1) ?l)" by (subst ld) auto
    then show ?thesis unfolding l' using dl by auto
  qed
  have dist: "distinct (addr_list ?st)" unfolding l' using dl by auto
  have "sorted (map (base_at tab) (take p ?l @ slot # drop (p + 1) ?l))" using inv ld by (metis addr_inv_def)
  then have sorted': "sorted (map (base_at tab) (addr_list ?st))" unfolding l' by (auto simp: sorted_append)
  have pos': "positions ?st (order ?st i) = i" if i: "i < addresses ?st" for i
  proof -
    have ne: "order st j \<noteq> slot" if "j < ?n" "j \<noteq> p" for j
      using addr_inj [OF inv] p that by (auto simp: inj_on_def)
    show ?thesis
    proof (cases "i < p")
      case True
      then have "order st i \<notin> order st ` {p + 1..?n - 1}" using addr_inj [OF inv] p(1) by (force simp: inj_on_def)
      then show ?thesis using True r(2,4) p(1) ne [of i] inv by (simp add: addr_inv_def)
    next
      case False
      then show ?thesis using i r(2,3) ne [of "i + 1"] by simp
    qed
  qed
  have off: "positions ?st s = U16_MAX" if s: "s < RANGES" "s \<notin> set (addr_list ?st)" for s
  proof (cases "s = slot")
    case False
    then have "s \<notin> set ?l" using s(2) unfolding set' by simp
    moreover then have "s \<notin> order st ` {p + 1..?n - 1}" using p(1) by (auto simp: addr_list_def)
    ultimately show ?thesis using False r(4) s(1) inv by (simp add: addr_inv_def)
  qed simp
  have "addr_inv tab ?st"
    using inv dist sorted' pos' off unfolding addr_inv_def set' by blast
  then show ?thesis using run set' by blast
qed

text \<open>The slots linked after a sequence of operations, when no slot is linked twice.\<close>

lemma addr_run_ok:
  assumes "addr_inv tab st" and "linked ops (set (addr_list st)) = Some S"
  shows "\<exists>st'. addr_run tab ops st = Some st' \<and> addr_inv tab st' \<and> set (addr_list st') = S"
  using assms
proof (induction ops arbitrary: st)
  case (Cons op ops)
  show ?case
  proof (cases op)
    case (Link s)
    then have s: "s < RANGES" "s \<notin> set (addr_list st)" "linked ops (insert s (set (addr_list st))) = Some S"
      using Cons.prems(2) by (auto split: if_splits)
    obtain st1 where "insert_address tab s st = Some st1" "addr_inv tab st1"
      "set (addr_list st1) = insert s (set (addr_list st))"
      using insert_address_ok [OF Cons.prems(1) s(1,2)] by blast
    then show ?thesis using Cons.IH [of st1] s(3) Link by (simp add: vm_index_change_def)
  next
    case (Unlink s)
    then have s: "s < RANGES" "linked ops (set (addr_list st) - {s}) = Some S"
      using Cons.prems(2) by (auto split: if_splits)
    obtain st1 where "remove_address s st = Some st1" "addr_inv tab st1"
      "set (addr_list st1) = set (addr_list st) - {s}"
      using remove_address_ok [OF Cons.prems(1) s(1)] by blast
    then show ?thesis using Cons.IH [of st1] s(2) Unlink by (simp add: vm_index_change_def)
  qed
qed simp

lemma addr_inv_empty: "addr_inv tab VM_INDEX_EMPTY" and addr_list_empty: "addr_list VM_INDEX_EMPTY = []"
  by (auto simp: addr_inv_def addr_list_def VM_INDEX_EMPTY_def)

lemma by_address_exact:
  assumes inv: "addr_inv tab st" and ap: "ranges_apart tab (set (addr_list st))"
  shows "\<exists>slot st'. by_address tab a st = Some (slot, st') \<and> st' = st\<lparr>ix_stats := ix_stats st'\<rparr>
     \<and> (slot \<noteq> NONE \<longleftrightarrow> (\<exists>s \<in> set (addr_list st). covers_addr (tab s) a))
     \<and> (\<forall>s \<in> set (addr_list st). covers_addr (tab s) a \<longrightarrow> s = slot)"
proof -
  obtain slot st' where r: "by_address tab a st = Some (slot, st')"
    "case find (\<lambda>s. covers_addr (tab s) a) (addr_list st) of Some s \<Rightarrow> slot = s | None \<Rightarrow> slot = NONE"
    "\<exists>s. st' = st\<lparr>ix_stats := s\<rparr>" using by_address_ok [OF inv ap] by blast
  have st': "st' = st\<lparr>ix_stats := ix_stats st'\<rparr>" using r(3) by auto
  show ?thesis
  proof (cases "find (\<lambda>s. covers_addr (tab s) a) (addr_list st)")
    case None
    then have "\<forall>s \<in> set (addr_list st). \<not> covers_addr (tab s) a" by (auto simp: find_None_iff)
    then show ?thesis using r st' None by auto
  next
    case (Some s)
    then have s: "s \<in> set (addr_list st)" "covers_addr (tab s) a" by (auto simp: find_Some_iff addr_list_def)
    have lt: "s < RANGES" using inv s(1) by (auto simp: addr_inv_def)
    have one: "t = s" if "t \<in> set (addr_list st)" "covers_addr (tab t) a" for t
      using ap s that unfolding ranges_apart_def apart_def covers_addr_def by fastforce
    have "slot = s" using r(2) Some by simp
    moreover have "s \<noteq> NONE" using lt by (simp add: RANGES_def NONE_def)
    ultimately show ?thesis using r(1) st' s one by blast
  qed
qed

text \<open>
  C25. The address index. Any sequence of linking and unlinking range slots, none linked twice, runs
  without a panic and leaves exactly the linked slots in the index, sorted by base. When the linked
  ranges are disjoint, the address query then returns the one range that contains the address, for
  every address, and the absent value exactly when no linked range contains it.
\<close>

theorem address_index_exact:
  assumes "linked ops {} = Some S" and "ranges_apart tab S"
  shows "\<exists>st. addr_run tab ops VM_INDEX_EMPTY = Some st \<and> set (addr_list st) = S
     \<and> sorted (map (base_at tab) (addr_list st)) \<and> distinct (addr_list st)
     \<and> (\<forall>a. \<exists>slot st'. vm_index_query tab 4 a st = Some (slot, st')
          \<and> (slot \<noteq> NONE \<longleftrightarrow> (\<exists>s \<in> S. covers_addr (tab s) a))
          \<and> (\<forall>s \<in> S. covers_addr (tab s) a \<longrightarrow> s = slot))"
proof -
  obtain st where st: "addr_run tab ops VM_INDEX_EMPTY = Some st" "addr_inv tab st" "set (addr_list st) = S"
    using addr_run_ok [OF addr_inv_empty, of ops S tab] assms(1) by (auto simp: addr_list_empty)
  then show ?thesis
    using by_address_exact [OF st(2)] assms(2) by (auto simp: vm_index_query_def addr_inv_def) metis
qed

theorem address_index_exact_witness:
  "\<exists>st. addr_run sample_ranges [Link 0, Link 5, Link 3, Unlink 5] VM_INDEX_EMPTY = Some st \<and> set (addr_list st) = {0, 3}"
proof -
  have "linked [Link 0, Link 5, Link 3, Unlink 5] {} = Some {0, 3}" by (auto simp: RANGES_def)
  moreover have "ranges_apart sample_ranges {0, 3}"
    by (auto simp: ranges_apart_def range_fit_def apart_def sample_ranges_def)
  ultimately show ?thesis using address_index_exact by blast
qed

section \<open>Free slots\<close>

lemma free_slot_from_find:
  assumes "\<forall>d \<in> set xs. free_hint st + d \<le> U64_MAX"
  shows "\<exists>n. free_slot_from tab st xs = Some (
     case find (slot_free tab) (map (\<lambda>d. (free_hint st + d) mod RANGES) xs) of
       Some s \<Rightarrow> (s, st\<lparr>ix_stats := note_free_probe (ix_stats st) n, free_hint := (s + 1) mod RANGES\<rparr>)
     | None \<Rightarrow> (NONE, st\<lparr>ix_stats := note_free_probe (ix_stats st) RANGES\<rparr>))"
  using assms
proof (induction xs)
  case (Cons d xs)
  have "(free_hint st + d) mod RANGES < RANGES" by (simp add: RANGES_def)
  then have "record_at tab ((free_hint st + d) mod RANGES) = Some (tab ((free_hint st + d) mod RANGES))"
    by (simp add: record_at_def)
  then show ?case using Cons by (auto simp: slot_free_def Let_def)
qed simp

text \<open>
  C27. The search for a free slot. It returns the first slot in ring order from the hint whose record
  is unused or released, moves the hint one past it, and reports the absent value exactly when every
  slot is in use; nothing but the hint and the counters changes.
\<close>

theorem free_slot_next_fit:
  assumes "free_hint st < RANGES"
  shows "\<exists>slot st'. free_slot tab st = Some (slot, st')
     \<and> (case find (slot_free tab) (ring_order RANGES (free_hint st)) of
          Some s \<Rightarrow> slot = s \<and> slot_free tab s \<and> free_hint st' = (s + 1) mod RANGES
        | None \<Rightarrow> slot = NONE \<and> (\<forall>s < RANGES. \<not> slot_free tab s) \<and> free_hint st' = free_hint st)
     \<and> st' = st\<lparr>ix_stats := ix_stats st', free_hint := free_hint st'\<rparr>"
proof -
  let ?st = "st\<lparr>ix_stats := (ix_stats st)\<lparr>range_free_slot_lookups :=
             wrapping_add64 (range_free_slot_lookups (ix_stats st)) 1\<rparr>\<rparr>"
  have "\<forall>d \<in> set [0..<RANGES]. free_hint ?st + d \<le> U64_MAX" using assms by (simp add: RANGES_def)
  from free_slot_from_find [OF this, of tab] obtain n where n: "free_slot tab st = Some (
     case find (slot_free tab) (ring_order RANGES (free_hint st)) of
       Some s \<Rightarrow> (s, ?st\<lparr>ix_stats := note_free_probe (ix_stats ?st) n, free_hint := (s + 1) mod RANGES\<rparr>)
     | None \<Rightarrow> (NONE, ?st\<lparr>ix_stats := note_free_probe (ix_stats ?st) RANGES\<rparr>))"
    by (auto simp: free_slot_def ring_order_def)
  show ?thesis
  proof (cases "find (slot_free tab) (ring_order RANGES (free_hint st))")
    case None
    then show ?thesis using n find_ring_None [OF assms, of "slot_free tab"] by auto
  next
    case (Some s)
    then have "slot_free tab s" using find_ring_Some [OF assms, of "slot_free tab" s] by auto
    then show ?thesis using n Some by auto
  qed
qed

theorem free_slot_next_fit_witness:
  "\<exists>st'. free_slot (sample_ranges(2 := (sample_ranges 2)\<lparr>rec_slot_used := False\<rparr>)) VM_INDEX_EMPTY = Some (2, st')
     \<and> free_hint st' = 3"
proof -
  let ?tab = "sample_ranges(2 := (sample_ranges 2)\<lparr>rec_slot_used := False\<rparr>)"
  have h: "free_hint VM_INDEX_EMPTY < RANGES" by (simp add: VM_INDEX_EMPTY_def RANGES_def)
  have "find (slot_free ?tab) (ring_order RANGES (free_hint VM_INDEX_EMPTY)) = Some 2"
    unfolding find_ring_Some [OF h]
    by (auto simp: slot_free_def sample_ranges_def RANGES_def on_path_def ring_dist_def VM_INDEX_EMPTY_def)
  then show ?thesis using free_slot_next_fit [OF h, of ?tab] by (auto simp: RANGES_def)
qed

end
