(* ===== verification/Virt_Policy.thy ===== *)
theory Virt_Policy
  imports Vm_Address
begin

text \<open>
  Virtual windows, request normalisation and first-fit placement of
  \<open>src/Rust/memory/virt_policy.rs\<close>, with the address constants of \<open>layout.rs\<close>. Placement walks the
  address order of \<open>Vm_Index\<close>; the range table is the argument \<open>tab\<close>. A result code is the left
  summand of a sum, a written output the right one.
\<close>

section \<open>Layout\<close>

definition PAGE_SIZE :: nat where
  "PAGE_SIZE = 4096"

definition APP_STACK_BASE :: nat where
  "APP_STACK_BASE = 0xffffff4000000000"

definition APP_STACK_BYTES :: nat where
  "APP_STACK_BYTES = 8 * 1024 * 1024 * 1024"

definition MIB :: nat where
  "MIB = 1024 * 1024"

definition KERNEL_DYNAMIC_BASE :: nat where
  "KERNEL_DYNAMIC_BASE = 0xffffc00000000000"

definition KERNEL_IMAGE_BASE :: nat where
  "KERNEL_IMAGE_BASE = 0xffffffff80000000"

definition KERNEL_IMAGE_WINDOW_BYTES :: nat where
  "KERNEL_IMAGE_WINDOW_BYTES = 512 * MIB"

definition MMIO_BASE :: nat where
  "MMIO_BASE = 0xffffe00000000000"

definition MMIO_END :: nat where
  "MMIO_END = 0xfffff00000000000"

definition FRAMEBUFFER_BASE :: nat where
  "FRAMEBUFFER_BASE = 0xfffff00000000000"

definition FRAMEBUFFER_BYTES :: nat where
  "FRAMEBUFFER_BYTES = 1024 * 1024 * 1024 * 1024"

definition FRAMEBUFFER_END :: nat where
  "FRAMEBUFFER_END = FRAMEBUFFER_BASE + FRAMEBUFFER_BYTES"

section \<open>Windows\<close>

record vm_window =
  win_base :: nat
  win_len :: nat
  win_name :: string

definition GB :: nat where
  "GB = 1024 * MIB"

definition DEFINITIONS :: "vm_window list" where
  "DEFINITIONS =
    [\<lparr>win_base = 0xffffff0000000000, win_len = 16 * MIB, win_name = ''temp-kernel''\<rparr>,
     \<lparr>win_base = 0xffffff1000000000, win_len = GB, win_name = ''kernel-heap''\<rparr>,
     \<lparr>win_base = 0xffffff2000000000, win_len = 512 * MIB, win_name = ''program-image''\<rparr>,
     \<lparr>win_base = 0xffffff3000000000, win_len = 0, win_name = ''app-heap-retired''\<rparr>,
     \<lparr>win_base = APP_STACK_BASE, win_len = APP_STACK_BYTES, win_name = ''app-stack''\<rparr>,
     \<lparr>win_base = 0xffffff5000000000, win_len = 512 * MIB, win_name = ''mmio''\<rparr>,
     \<lparr>win_base = 0xfffffb0000000000, win_len = 4 * 1024 * GB, win_name = ''r4x-vm''\<rparr>,
     \<lparr>win_base = 0xffffff6000000000, win_len = 64 * MIB, win_name = ''kernel-stack''\<rparr>,
     \<lparr>win_base = 0xffffff7000000000, win_len = 16 * GB, win_name = ''graphics''\<rparr>]"

definition vm_window_of :: "nat \<Rightarrow> vm_window outcome" where
  "vm_window_of window = (if window < length DEFINITIONS then Some (DEFINITIONS ! window) else None)"

section \<open>Codes and arithmetic\<close>

definition EMPTY :: nat where "EMPTY = 3"

definition ALIGNMENT :: nat where "ALIGNMENT = 4"

definition OVERFLOW :: nat where "OVERFLOW = 5"

definition NO_SPACE :: nat where "NO_SPACE = 6"

definition GUARD :: nat where "GUARD = 11"

definition OUTSIDE :: nat where "OUTSIDE = 15"

definition vm_align_up :: "nat \<Rightarrow> nat \<Rightarrow> nat option outcome" where
  "vm_align_up value alignment = do {
     low \<leftarrow> sub_unsigned alignment 1;
     Some (case checked_add64 value low of None \<Rightarrow> None | Some s \<Rightarrow> Some (s AND not64 low))
   }"

definition vm_normalize :: "nat \<Rightarrow> bool \<Rightarrow> (nat + nat) outcome" where
  "vm_normalize value alignment =
     (if alignment then
        Some (if value < PAGE_SIZE \<or> \<not> is_power_of_two value then Inl ALIGNMENT else Inr value)
      else if value = 0 then Some (Inl EMPTY)
      else do {
        up \<leftarrow> vm_align_up value PAGE_SIZE;
        Some (case up of None \<Rightarrow> Inl OVERFLOW | Some v \<Rightarrow> Inr v)
      })"

definition vm_inside :: "nat \<Rightarrow> nat \<Rightarrow> nat \<Rightarrow> nat" where
  "vm_inside range_len offset len =
     (case checked_add64 offset len of
        None \<Rightarrow> OVERFLOW
      | Some fin \<Rightarrow> if range_len < fin then OUTSIDE else 0)"

definition vm_overlap :: "nat \<Rightarrow> nat \<Rightarrow> nat \<Rightarrow> nat \<Rightarrow> bool" where
  "vm_overlap a_base a_len b_base b_len =
     (case checked_add64 a_base a_len of
        None \<Rightarrow> True
      | Some a_end \<Rightarrow>
          (case checked_add64 b_base b_len of
             None \<Rightarrow> True
           | Some b_end \<Rightarrow> a_base < b_end \<and> b_base < a_end))"

definition vm_guard :: "nat \<Rightarrow> nat \<Rightarrow> nat \<Rightarrow> nat \<Rightarrow> nat" where
  "vm_guard base len guard_base guard_len =
     (if guard_len = 0 \<or> \<not> vm_overlap base len guard_base guard_len then 0 else GUARD)"

section \<open>Placement\<close>

record address_record =
  ar_base :: nat
  ar_len :: nat
  ar_window :: nat

definition fit_start :: "(nat \<Rightarrow> vm_record) \<Rightarrow> vm_index \<Rightarrow> nat \<Rightarrow> (nat \<times> nat) outcome" where
  "fit_start tab st base = do {
     (count, _) \<leftarrow> vm_index_query tab 5 0 st;
     if base = 0 then Some (0, count)
     else do { (p, _) \<leftarrow> vm_index_query tab 3 base st; Some (p, count) }
   }"

definition fit_record :: "(nat \<Rightarrow> vm_record) \<Rightarrow> vm_index \<Rightarrow> nat \<Rightarrow> address_record option outcome" where
  "fit_record tab st position = do {
     (count, _) \<leftarrow> vm_index_query tab 5 0 st;
     if count \<le> position then Some None
     else do {
       (_, following) \<leftarrow> neighbors st position;
       slot \<leftarrow> following;
       r \<leftarrow> record_at tab slot;
       Some (if \<not> rec_active r then None
             else Some \<lparr>ar_base = rec_base r, ar_len = rec_len r, ar_window = rec_window r\<rparr>)
     }
   }"

definition fit_last :: "nat \<Rightarrow> nat \<Rightarrow> nat \<Rightarrow> nat + nat" where
  "fit_last fin len candidate =
     (case checked_add64 candidate len of
        None \<Rightarrow> Inl OVERFLOW
      | Some candidate_end \<Rightarrow> if fin < candidate_end then Inl NO_SPACE else Inr candidate)"

primrec fit_loop ::
  "(nat \<Rightarrow> vm_record) \<Rightarrow> vm_index \<Rightarrow> nat \<Rightarrow> nat \<Rightarrow> nat \<Rightarrow> nat \<Rightarrow> nat list \<Rightarrow> nat \<Rightarrow> (nat + nat) outcome" where
  "fit_loop tab st window fin len alignment [] candidate = Some (fit_last fin len candidate)"
| "fit_loop tab st window fin len alignment (position # rest) candidate = do {
     r \<leftarrow> fit_record tab st position;
     case r of
       None \<Rightarrow> Some (Inl OVERFLOW)
     | Some rec1 \<Rightarrow>
         if fin \<le> ar_base rec1 then Some (fit_last fin len candidate)
         else if ar_window rec1 \<noteq> window then fit_loop tab st window fin len alignment rest candidate
         else (case checked_add64 candidate len of
             None \<Rightarrow> Some (Inl OVERFLOW)
           | Some candidate_end \<Rightarrow>
               if fin < candidate_end then Some (Inl NO_SPACE)
               else if candidate_end \<le> ar_base rec1 then Some (Inr candidate)
               else (case checked_add64 (ar_base rec1) (ar_len rec1) of
                   None \<Rightarrow> Some (Inl OVERFLOW)
                 | Some record_end \<Rightarrow>
                     if candidate < record_end then do {
                       up \<leftarrow> vm_align_up record_end alignment;
                       (case up of
                          None \<Rightarrow> Some (Inl OVERFLOW)
                        | Some next1 \<Rightarrow>
                            if next1 \<le> candidate then Some (Inl OVERFLOW)
                            else fit_loop tab st window fin len alignment rest next1)
                     }
                     else fit_loop tab st window fin len alignment rest candidate))
   }"

definition vm_first_fit :: "(nat \<Rightarrow> vm_record) \<Rightarrow> vm_index \<Rightarrow> nat \<Rightarrow> nat \<Rightarrow> nat \<Rightarrow> (nat + nat) outcome" where
  "vm_first_fit tab st window len alignment = do {
     d \<leftarrow> vm_window_of window;
     (case checked_add64 (win_base d) (win_len d) of
        None \<Rightarrow> Some (Inl OVERFLOW)
      | Some fin \<Rightarrow> do {
          first \<leftarrow> vm_align_up (win_base d) alignment;
          (case first of
             None \<Rightarrow> Some (Inl OVERFLOW)
           | Some candidate \<Rightarrow> do {
               (p, count) \<leftarrow> fit_start tab st (win_base d);
               fit_loop tab st window fin len alignment [p..<count] candidate
             })
        })
   }"

section \<open>Facts\<close>

lemmas layout_defs = PAGE_SIZE_def APP_STACK_BASE_def APP_STACK_BYTES_def MIB_def KERNEL_DYNAMIC_BASE_def
  KERNEL_IMAGE_BASE_def KERNEL_IMAGE_WINDOW_BYTES_def MMIO_BASE_def MMIO_END_def FRAMEBUFFER_BASE_def
  FRAMEBUFFER_BYTES_def FRAMEBUFFER_END_def

lemmas vm_codes = EMPTY_def ALIGNMENT_def OVERFLOW_def NO_SPACE_def GUARD_def OUTSIDE_def

definition window_fit :: "(nat \<Rightarrow> vm_record) \<Rightarrow> nat set \<Rightarrow> nat \<Rightarrow> nat \<Rightarrow> nat \<Rightarrow> nat \<Rightarrow> nat \<Rightarrow> nat \<Rightarrow> bool" where
  "window_fit tab S window base fin len alignment c \<longleftrightarrow> alignment dvd c \<and> base \<le> c \<and> c + len \<le> fin
     \<and> (\<forall>s \<in> S. rec_window (tab s) = window \<longrightarrow> c + len \<le> rec_base (tab s) \<or> rec_base (tab s) + rec_len (tab s) \<le> c)"

definition placed :: "vm_record \<Rightarrow> bool" where
  "placed r \<longleftrightarrow> rec_active r \<and> range_fit r \<and> rec_window r < length DEFINITIONS
     \<and> win_base (DEFINITIONS ! rec_window r) \<le> rec_base r
     \<and> rec_base r + rec_len r \<le> win_base (DEFINITIONS ! rec_window r) + win_len (DEFINITIONS ! rec_window r)"

definition first_fit_answer :: "(nat \<Rightarrow> bool) \<Rightarrow> nat + nat \<Rightarrow> bool" where
  "first_fit_answer fits r \<longleftrightarrow> (case r of
     Inr c \<Rightarrow> fits c \<and> (\<forall>c'. fits c' \<longrightarrow> c \<le> c')
   | Inl e \<Rightarrow> (e = OVERFLOW \<or> e = NO_SPACE) \<and> (\<forall>c. \<not> fits c))"

definition sample_mapped :: "nat \<Rightarrow> vm_record" where
  "sample_mapped s = \<lparr>rec_id = s + 1, rec_slot_used = True, rec_status = 1, rec_window = 1,
     rec_base = 0xffffff1000000000 + 8192 * s, rec_len = 4096\<rparr>"


lemma vm_align_up_eq:
  assumes "k < 64" and "v \<le> U64_MAX"
  shows "vm_align_up v (2 ^ k) =
     Some (if v + (2 ^ k - 1) \<le> U64_MAX then Some (div_ceil v (2 ^ k) * 2 ^ k) else None)"
proof -
  have pos: "(1::nat) \<le> 2 ^ k" by simp
  have "(v + (2 ^ k - 1)) div 2 ^ k = div_ceil v (2 ^ k)"
  proof -
    define q r where "q = v div 2 ^ k" and "r = v mod 2 ^ k"
    have v: "v = q * 2 ^ k + r" "r < 2 ^ k" by (simp_all add: q_def r_def div_mult_mod_eq)
    show ?thesis
    proof (cases "r = 0")
      case True
      then have "v + (2 ^ k - 1) = (2 ^ k - 1) + q * 2 ^ k" using v by simp
      moreover have "((2::nat) ^ k - 1) div 2 ^ k = 0" using pos by simp
      ultimately have "(v + (2 ^ k - 1)) div 2 ^ k = q" using div_mult_self1 [of "2 ^ k" "2 ^ k - 1" q] by simp
      then show ?thesis using True by (simp add: div_ceil_def q_def r_def)
    next
      case False
      have "v + (2 ^ k - 1) = (r - 1) + (q + 1) * 2 ^ k" using v False pos by (simp add: algebra_simps)
      moreover have "(r - 1) div 2 ^ k = 0" using v(2) by simp
      ultimately have "(v + (2 ^ k - 1)) div 2 ^ k = q + 1"
        using div_mult_self1 [of "2 ^ k" "r - 1" "q + 1"] by simp
      then show ?thesis using False by (simp add: div_ceil_def q_def r_def)
    qed
  qed
  then show ?thesis using assms pos and_not64_mask [of "v + (2 ^ k - 1)" k]
    by (simp add: vm_align_up_def checked_add64_def)
qed

lemma div_ceil_least:
  assumes "(0::nat) < a" and "a dvd c" and "v \<le> c"
  shows "div_ceil v a * a \<le> c"
proof -
  obtain x where x: "c = a * x" using assms(2) by (auto simp: dvd_def)
  then have "div_ceil v a \<le> x" using assms le_div_ceil_iff [OF assms(1), of v x] by (simp add: mult.commute)
  then show ?thesis using x by (simp add: mult.commute)
qed

lemma no_aligned_above:
  assumes "k < 64" and "U64_MAX < v + (2 ^ k - 1)" and "2 ^ k dvd c" and "c \<le> U64_MAX"
  shows "c < v"
proof -
  obtain x where x: "c = 2 ^ k * x" using assms(3) by (auto simp: dvd_def)
  have e: "(2::nat) ^ 64 = 2 ^ k * 2 ^ (64 - k)" using assms(1) by (simp flip: power_add)
  have "c < 2 ^ 64" using assms(4) by simp
  then have "2 ^ k * x < 2 ^ k * 2 ^ (64 - k)" unfolding x e .
  then have "x < 2 ^ (64 - k)" by simp
  then have "x + 1 \<le> 2 ^ (64 - k)" by simp
  then have "2 ^ k * (x + 1) \<le> 2 ^ k * 2 ^ (64 - k)" by (rule mult_le_mono2)
  then have "c + 2 ^ k \<le> 2 ^ 64" using x e by (simp add: algebra_simps)
  then show ?thesis using assms(2) by simp
qed

lemma fit_last_ok:
  assumes al: "al dvd candidate" "base \<le> candidate" and fin: "fin \<le> U64_MAX"
    and low: "\<forall>c. window_fit tab S w base fin len al c \<longrightarrow> candidate \<le> c"
    and free: "\<forall>s \<in> S. rec_window (tab s) = w \<longrightarrow> rec_base (tab s) + rec_len (tab s) \<le> candidate \<or> fin \<le> rec_base (tab s)"
  shows "first_fit_answer (window_fit tab S w base fin len al) (fit_last fin len candidate)"
proof (cases "candidate + len \<le> fin")
  case True
  then have "fit_last fin len candidate = Inr candidate" using fin by (simp add: fit_last_def checked_add64_def)
  moreover have "window_fit tab S w base fin len al candidate"
    using True al free by (auto simp: window_fit_def dest: order_trans)
  ultimately show ?thesis using low by (simp add: first_fit_answer_def)
next
  case False
  then have "\<not> window_fit tab S w base fin len al c" for c using low by (fastforce simp: window_fit_def)
  moreover have "fit_last fin len candidate = Inl OVERFLOW \<or> fit_last fin len candidate = Inl NO_SPACE"
    using False by (simp add: fit_last_def checked_add64_def)
  ultimately show ?thesis by (auto simp: first_fit_answer_def)
qed

lemma fit_record_ok:
  assumes "addr_inv tab st" and "i < addresses st" and "rec_active (tab (order st i))"
  shows "fit_record tab st i = Some (Some \<lparr>ar_base = rec_base (tab (order st i)),
     ar_len = rec_len (tab (order st i)), ar_window = rec_window (tab (order st i))\<rparr>)"
proof -
  have i: "i < RANGES" "order st i < RANGES" using assms addr_inv_le addr_inv_order by (auto intro: less_le_trans)
  have "\<exists>p. neighbors st i = Some (p, Some (order st i))"
    using assms(2) i by (cases "i = 0") (auto simp: neighbors_def)
  then obtain p where "neighbors st i = Some (p, Some (order st i))" by blast
  then show ?thesis using assms i by (simp add: fit_record_def vm_index_query_def record_at_def)
qed

lemma fit_loop_ok:
  assumes inv: "addr_inv tab st" and placed: "\<forall>s \<in> set (addr_list st). placed (tab s)"
    and k: "k < 64" "al = 2 ^ k" and fin: "fin \<le> U64_MAX"
    and "p \<le> addresses st" and "al dvd candidate" and "base \<le> candidate"
    and "\<forall>c. window_fit tab (set (addr_list st)) w base fin len al c \<longrightarrow> candidate \<le> c"
    and "\<forall>i < p. rec_window (tab (order st i)) = w \<longrightarrow>
      rec_base (tab (order st i)) + rec_len (tab (order st i)) \<le> candidate"
  shows "\<exists>r. fit_loop tab st w fin len al [p..<addresses st] candidate = Some r
     \<and> first_fit_answer (window_fit tab (set (addr_list st)) w base fin len al) r"
  using assms(6-)
proof (induction "addresses st - p" arbitrary: p candidate)
  case 0
  then have p: "p = addresses st" by simp
  have "\<forall>s \<in> set (addr_list st). rec_window (tab s) = w \<longrightarrow> rec_base (tab s) + rec_len (tab s) \<le> candidate \<or> fin \<le> rec_base (tab s)"
    using 0(6) p by (auto simp: addr_list_def)
  from fit_last_ok [OF 0(3,4) fin 0(5) this] show ?case using p by simp
next
  case (Suc x)
  let ?S = "set (addr_list st)" and ?r = "tab (order st p)"
  let ?fits = "window_fit tab ?S w base fin len al"
  have lt: "p < addresses st" using Suc.hyps(2) by simp
  have up: "[p..<addresses st] = p # [p + 1..<addresses st]" using lt by (simp add: upt_conv_Cons)
  have x: "x = addresses st - (p + 1)" "p + 1 \<le> addresses st" using Suc.hyps(2) lt by auto
  have mem: "order st p \<in> ?S" using lt by (auto simp: addr_list_def)
  have pl: "placed ?r" using placed mem by blast
  have fr: "fit_record tab st p = Some (Some \<lparr>ar_base = rec_base ?r, ar_len = rec_len ?r, ar_window = rec_window ?r\<rparr>)"
    using fit_record_ok [OF inv lt] pl by (simp add: placed_def)
  have rend: "checked_add64 (rec_base ?r) (rec_len ?r) = Some (rec_base ?r + rec_len ?r)"
    using pl by (simp add: placed_def range_fit_def checked_add64_def)
  have later: "rec_base ?r \<le> rec_base (tab (order st i))" if "p \<le> i" "i < addresses st" for i
    using addr_inv_sorted [OF inv that] by (simp add: base_at_def)
  have idx: "\<exists>i < addresses st. s = order st i" if "s \<in> ?S" for s using that by (auto simp: addr_list_def)
  have next_low: "\<forall>i < p + 1. rec_window (tab (order st i)) = w \<longrightarrow>
      rec_base (tab (order st i)) + rec_len (tab (order st i)) \<le> cand"
    if "candidate \<le> cand" "rec_window ?r = w \<longrightarrow> rec_base ?r + rec_len ?r \<le> cand" for cand
    using Suc.prems(5) that by (auto simp: less_Suc_eq dest: order_trans)
  have ends: "rec_base (tab s) + rec_len (tab s) \<le> candidate \<or> rec_base ?r \<le> rec_base (tab s)"
    if "s \<in> ?S" "rec_window (tab s) = w" for s
    using idx [OF that(1)] Suc.prems(5) later that(2) by (metis not_le_imp_less)
  consider (past) "fin \<le> rec_base ?r" | (other) "rec_base ?r < fin" "rec_window ?r \<noteq> w"
    | (full) "rec_base ?r < fin" "rec_window ?r = w" "fin < candidate + len"
    | (fit) "rec_base ?r < fin" "rec_window ?r = w" "candidate + len \<le> fin" "candidate + len \<le> rec_base ?r"
    | (skip) "rec_base ?r < fin" "rec_window ?r = w" "candidate + len \<le> fin" "rec_base ?r < candidate + len"
        "rec_base ?r + rec_len ?r \<le> candidate"
    | (move) "rec_base ?r < fin" "rec_window ?r = w" "candidate + len \<le> fin" "rec_base ?r < candidate + len"
        "candidate < rec_base ?r + rec_len ?r"
    by linarith
  then show ?case
  proof cases
    case past
    have "\<forall>s \<in> ?S. rec_window (tab s) = w \<longrightarrow> rec_base (tab s) + rec_len (tab s) \<le> candidate \<or> fin \<le> rec_base (tab s)"
      using ends past by (meson order_trans)
    from fit_last_ok [OF Suc.prems(2,3) fin Suc.prems(4) this] show ?thesis unfolding up using fr past by simp
  next
    case other
    have "fit_loop tab st w fin len al [p..<addresses st] candidate
        = fit_loop tab st w fin len al [p + 1..<addresses st] candidate"
      unfolding up using fr other by simp
    then show ?thesis using Suc.hyps(1) [OF x Suc.prems(2-4) next_low [of candidate]] other by simp
  next
    case full
    have none: "\<not> ?fits c" for c using Suc.prems(4) full(3) by (fastforce simp: window_fit_def)
    have "\<exists>e. fit_loop tab st w fin len al [p..<addresses st] candidate = Some (Inl e) \<and> (e = OVERFLOW \<or> e = NO_SPACE)"
      unfolding up using fr full by (auto simp: checked_add64_def)
    then show ?thesis using none by (auto simp: first_fit_answer_def)
  next
    case fit
    have "?fits candidate" unfolding window_fit_def
    proof (intro conjI ballI impI)
      fix s assume "s \<in> ?S" "rec_window (tab s) = w"
      from ends [OF this] show "candidate + len \<le> rec_base (tab s) \<or> rec_base (tab s) + rec_len (tab s) \<le> candidate"
        using fit(4) by auto
    qed (use Suc.prems(2,3) fit(3) in auto)
    moreover have "fit_loop tab st w fin len al [p..<addresses st] candidate = Some (Inr candidate)"
      unfolding up using fr fit fin by (simp add: checked_add64_def)
    ultimately show ?thesis using Suc.prems(4) by (auto simp: first_fit_answer_def)
  next
    case skip
    have "fit_loop tab st w fin len al [p..<addresses st] candidate
        = fit_loop tab st w fin len al [p + 1..<addresses st] candidate"
      unfolding up using fr skip rend fin by (simp add: checked_add64_def)
    then show ?thesis using Suc.hyps(1) [OF x Suc.prems(2-4) next_low [of candidate]] skip by simp
  next
    case move
    let ?e = "rec_base ?r + rec_len ?r" and ?n = "div_ceil (rec_base ?r + rec_len ?r) al * al"
    have cadd: "checked_add64 candidate len = Some (candidate + len)" using move(3) fin by (simp add: checked_add64_def)
    have e64: "?e \<le> U64_MAX" using pl by (simp add: placed_def range_fit_def)
    have above: "?e \<le> c" if "?fits c" for c
    proof -
      have "c + len \<le> rec_base ?r \<or> ?e \<le> c" using that mem move(2) by (auto simp: window_fit_def)
      then show ?thesis using Suc.prems(4) that move(4) by (meson add_le_mono1 leD order_trans)
    qed
    show ?thesis
    proof (cases "?e + (al - 1) \<le> U64_MAX")
      case False
      have none: "\<not> ?fits c" for c
      proof
        assume f: "?fits c"
        then have "2 ^ k dvd c" "c \<le> U64_MAX" using fin k(2) by (auto simp: window_fit_def)
        then have "c < ?e" using no_aligned_above [OF k(1)] False k(2) by simp
        then show False using above [OF f] by simp
      qed
      have "fit_loop tab st w fin len al [p..<addresses st] candidate = Some (Inl OVERFLOW)"
        unfolding up using fr move rend fin vm_align_up_eq [OF k(1) e64] False k(2) by (simp add: checked_add64_def)
      then show ?thesis using none by (simp add: first_fit_answer_def)
    next
      case True
      have al0: "0 < al" using k(2) by simp
      have n: "?e \<le> ?n" "al dvd ?n" using div_ceil_bounds(1) [OF al0] by auto
      have n2: "base \<le> ?n" "candidate < ?n" "candidate \<le> ?n" using n(1) move(5) Suc.prems(3) by auto
      have n3: "\<forall>c. ?fits c \<longrightarrow> ?n \<le> c"
        using above div_ceil_least [OF al0] by (auto simp: window_fit_def)
      have "fit_loop tab st w fin len al [p..<addresses st] candidate
          = fit_loop tab st w fin len al [p + 1..<addresses st] ?n"
        unfolding up using fr move(1-5) rend cadd vm_align_up_eq [OF k(1) e64] True k(2) n2 by simp
      then show ?thesis using Suc.hyps(1) [OF x n(2) n2(1) n3 next_low [of ?n]] n n2 by simp
    qed
  qed
qed

lemma windows_fit: "\<forall>d \<in> set DEFINITIONS. 0 < win_base d \<and> win_base d + win_len d \<le> U64_MAX"
  by (simp add: DEFINITIONS_def layout_defs GB_def)

lemma vm_first_fit_ok:
  assumes inv: "addr_inv tab st" and pl: "\<forall>s \<in> set (addr_list st). placed (tab s)"
    and w: "window < length DEFINITIONS" and al: "is_power_of_two al" "al \<le> U64_MAX"
  defines "d \<equiv> DEFINITIONS ! window"
  shows "\<exists>r. vm_first_fit tab st window len al = Some r
     \<and> first_fit_answer (window_fit tab (set (addr_list st)) window (win_base d) (win_base d + win_len d) len al) r"
proof -
  let ?fits = "window_fit tab (set (addr_list st)) window (win_base d) (win_base d + win_len d) len al"
  obtain k where k: "k < 64" "al = 2 ^ k" using power_of_two_exp [OF al] by blast
  have dw: "vm_window_of window = Some d" using w by (simp add: vm_window_of_def d_def)
  have d: "0 < win_base d" "win_base d + win_len d \<le> U64_MAX" using windows_fit w by (auto simp: d_def)
  have fin: "checked_add64 (win_base d) (win_len d) = Some (win_base d + win_len d)"
    using d(2) by (simp add: checked_add64_def)
  have b64: "win_base d \<le> U64_MAX" using d(2) by simp
  let ?n = "div_ceil (win_base d) al * al"
  have al0: "0 < al" using k(2) by simp
  show ?thesis
  proof (cases "win_base d + (al - 1) \<le> U64_MAX")
    case False
    have "\<not> ?fits c" for c
    proof
      assume f: "?fits c"
      then have "2 ^ k dvd c" "c \<le> U64_MAX" "win_base d \<le> c" using d(2) k(2) by (auto simp: window_fit_def)
      then show False using no_aligned_above [OF k(1), of "win_base d" c] False k(2) by simp
    qed
    moreover have "vm_first_fit tab st window len al = Some (Inl OVERFLOW)"
      using False dw fin vm_align_up_eq [OF k(1) b64] k(2) by (simp add: vm_first_fit_def)
    ultimately show ?thesis by (simp add: first_fit_answer_def)
  next
    case True
    obtain p where p: "p \<le> addresses st" "lower_bound tab st (win_base d) = Some p"
       "\<forall>i < p. base_at tab (order st i) < win_base d" using lower_bound_ok [OF inv] by blast
    have run: "vm_first_fit tab st window len al
        = fit_loop tab st window (win_base d + win_len d) len al [p..<addresses st] ?n"
      using True dw fin vm_align_up_eq [OF k(1) b64] k(2) p(2) d(1)
      by (simp add: vm_first_fit_def fit_start_def vm_index_query_def)
    have "rec_window (tab (order st i)) \<noteq> window" if i: "i < p" for i
    proof
      assume a: "rec_window (tab (order st i)) = window"
      have "order st i \<in> set (addr_list st)" using i p(1) by (auto simp: addr_list_def)
      then have "win_base d \<le> rec_base (tab (order st i))" using pl a by (auto simp: placed_def d_def)
      then show False using p(3) i by (auto simp: base_at_def)
    qed
    then have low: "\<forall>i < p. rec_window (tab (order st i)) = window \<longrightarrow>
        rec_base (tab (order st i)) + rec_len (tab (order st i)) \<le> ?n" by blast
    have n: "al dvd ?n" "win_base d \<le> ?n" using div_ceil_bounds(1) [OF al0] by auto
    have n3: "\<forall>c. ?fits c \<longrightarrow> ?n \<le> c" using div_ceil_least [OF al0] by (auto simp: window_fit_def)
    show ?thesis unfolding run by (rule fit_loop_ok [OF inv pl k d(2) p(1) n n3 low])
  qed
qed

text \<open>
  C31. First-fit placement. For every window, length and power-of-two alignment, when the linked ranges
  are active and lie inside their windows, the search returns the lowest aligned address of the window
  at which the requested bytes overlap no range of that window. It refuses, with the overflow or the
  no-space code, exactly when no such address exists. It does not panic.
\<close>

theorem first_fit_lowest:
  assumes "addr_inv tab st" and "\<forall>s \<in> set (addr_list st). placed (tab s)"
    and "window < length DEFINITIONS" and "is_power_of_two al" and "al \<le> U64_MAX"
  shows "\<exists>r. vm_first_fit tab st window len al = Some r
     \<and> (let fits = window_fit tab (set (addr_list st)) window (win_base (DEFINITIONS ! window))
            (win_base (DEFINITIONS ! window) + win_len (DEFINITIONS ! window)) len al
        in case r of
             Inr c \<Rightarrow> fits c \<and> (\<forall>c'. fits c' \<longrightarrow> c \<le> c')
           | Inl e \<Rightarrow> (e = OVERFLOW \<or> e = NO_SPACE) \<and> (\<forall>c. \<not> fits c))"
  using vm_first_fit_ok [OF assms] by (simp add: first_fit_answer_def Let_def)

lemma power_of_two_pow: "k < 64 \<Longrightarrow> is_power_of_two (2 ^ k)"
proof -
  assume k: "k < 64"
  have "filter (bit (2 ^ k :: nat)) [0..<64] = filter (\<lambda>n. n = k) [0..<64]"
    by (rule filter_cong) (auto simp: bit_exp_iff possible_bit_def)
  moreover have "length (filter (\<lambda>n. n = k) [0..<64]) = card (set (filter (\<lambda>n. n = k) [0..<64]))"
    by (rule distinct_card [symmetric]) simp
  moreover have "set (filter (\<lambda>n. n = k) [0..<64]) = {k}" using k by auto
  ultimately show ?thesis by (simp add: is_power_of_two_def count_ones64_def)
qed

theorem first_fit_lowest_witness:
  "\<exists>st. addr_run sample_mapped [Link 0, Link 1] VM_INDEX_EMPTY = Some st
     \<and> vm_first_fit sample_mapped st 1 4096 4096 = Some (Inr 0xffffff1000001000)"
proof -
  have "linked [Link 0, Link 1] {} = Some {0, 1}" by (auto simp: RANGES_def)
  then obtain st where st: "addr_run sample_mapped [Link 0, Link 1] VM_INDEX_EMPTY = Some st"
      "addr_inv sample_mapped st" "set (addr_list st) = {0, 1}"
    using addr_run_ok [OF addr_inv_empty, of "[Link 0, Link 1]" "{0, 1}" sample_mapped] by (auto simp: addr_list_empty)
  have pl: "\<forall>s \<in> set (addr_list st). placed (sample_mapped s)"
    unfolding st(3) by (simp add: placed_def sample_mapped_def range_fit_def rec_active_def DEFINITIONS_def layout_defs GB_def)
  have w: "1 < length DEFINITIONS" by (simp add: DEFINITIONS_def)
  have al: "is_power_of_two 4096" using power_of_two_pow [of 12] by simp
  have d: "win_base (DEFINITIONS ! 1) = 0xffffff1000000000" "win_len (DEFINITIONS ! 1) = 1024 * 1024 * 1024"
    by (simp_all add: DEFINITIONS_def layout_defs GB_def)
  let ?fits = "window_fit sample_mapped {0, 1} 1 0xffffff1000000000 (0xffffff1000000000 + 1024 * 1024 * 1024) 4096 4096"
  obtain r where r: "vm_first_fit sample_mapped st 1 4096 4096 = Some r"
     "case r of Inr c \<Rightarrow> ?fits c \<and> (\<forall>c'. ?fits c' \<longrightarrow> c \<le> c') | Inl e \<Rightarrow> (e = OVERFLOW \<or> e = NO_SPACE) \<and> (\<forall>c. \<not> ?fits c)"
    using first_fit_lowest [OF st(2) pl w al, of 4096] unfolding st(3) d Let_def by auto
  have f: "?fits 0xffffff1000001000" by (simp add: window_fit_def sample_mapped_def)
  then obtain c where c: "r = Inr c" "?fits c" "c \<le> 0xffffff1000001000" using r(2) by (cases r) auto
  have "c = 0xffffff1000001000"
  proof -
    have "4096 dvd c" "0xffffff1000000000 \<le> c" "c \<noteq> 0xffffff1000000000"
      using c(2) by (auto simp: window_fit_def sample_mapped_def)
    then obtain y where y: "c = 0xffffff1000000000 + y" "y \<noteq> 0" by (auto simp: le_iff_add)
    have "4096 dvd (0xffffff1000000000 :: nat)" by simp
    then have "4096 dvd y" using \<open>4096 dvd c\<close> unfolding y(1) by (simp only: dvd_add_right_iff)
    then have "4096 \<le> y" using y(2) by (simp add: dvd_imp_le)
    then show ?thesis using c(3) y(1) by simp
  qed
  then show ?thesis using st(1) r(1) c(1) by auto
qed


end
