(* ===== verification/Block_Data.thy ===== *)
theory Block_Data
  imports Memory_Map
begin

text \<open>
  The data of the block catalogue, \<open>src/Rust/memory/blocks.rs\<close>: blocks, errors, counters, the AVL
  nodes and identity cells, the table, and the value-only helpers. A name, in the code a borrowed
  pointer and a length, is the string it points to; \<open>usize::MAX\<close> as an absent index is \<open>None\<close>.
\<close>

section \<open>Constants\<close>

definition MAX_BLOCKS :: nat where
  "MAX_BLOCKS = 8192"

definition ID_CAPACITY :: nat where
  "ID_CAPACITY = MAX_BLOCKS * 2"

definition SLOT_WORDS :: nat where
  "SLOT_WORDS = MAX_BLOCKS div 64"

definition FREE_KIND :: nat where "FREE_KIND = 12"

definition SYSTEM :: nat where "SYSTEM = 7"

definition FREE :: nat where "FREE = 0"

definition RESERVED :: nat where "RESERVED = 1"

definition COMMITTED :: nat where "COMMITTED = 2"

definition MAPPED :: nat where "MAPPED = 4"

definition RELEASED :: nat where "RELEASED = 5"

section \<open>Blocks\<close>

datatype block_error = NotInitialized | TableFull | EmptyRange | Overlap | NotFound | NotFree
  | InvalidBytes | InvalidRange | Overflow

fun error_code :: "block_error \<Rightarrow> nat" where
  "error_code NotInitialized = 1"
| "error_code TableFull = 2"
| "error_code EmptyRange = 3"
| "error_code Overlap = 4"
| "error_code NotFound = 5"
| "error_code NotFree = 6"
| "error_code InvalidBytes = 7"
| "error_code InvalidRange = 8"
| "error_code Overflow = 9"

record block =
  b_slot_used :: bool
  b_id :: nat
  b_kind :: nat
  b_owner :: nat
  b_status :: nat
  b_owner_id :: nat
  b_name :: string
  b_phys_base :: nat
  b_phys_len :: nat
  b_virt_base :: nat
  b_virt_len :: nat
  b_reserved :: nat
  b_committed :: nat

definition BLOCK_EMPTY :: block where
  "BLOCK_EMPTY = \<lparr>b_slot_used = False, b_id = 0, b_kind = 13, b_owner = SYSTEM, b_status = FREE,
     b_owner_id = 0, b_name = '''', b_phys_base = 0, b_phys_len = 0, b_virt_base = 0, b_virt_len = 0,
     b_reserved = 0, b_committed = 0\<rparr>"

definition REQUEST :: block where
  "REQUEST = BLOCK_EMPTY\<lparr>b_status := RESERVED\<rparr>"

definition block_physical :: "nat \<Rightarrow> nat \<Rightarrow> nat \<Rightarrow> nat \<Rightarrow> nat \<Rightarrow> nat \<Rightarrow> string \<Rightarrow> block" where
  "block_physical base len kind owner owner_id status name =
     REQUEST\<lparr>b_phys_base := base, b_phys_len := len, b_kind := kind, b_owner := owner,
             b_owner_id := owner_id, b_status := status, b_name := name\<rparr>"

definition block_active :: "block \<Rightarrow> bool" where
  "block_active b \<longleftrightarrow> b_slot_used b \<and> b_status b \<noteq> RELEASED"

definition physical_index :: "block \<Rightarrow> bool" where
  "physical_index b \<longleftrightarrow> block_active b \<and> b_phys_len b \<noteq> 0"

definition canonical_free :: "block \<Rightarrow> bool" where
  "canonical_free b \<longleftrightarrow> block_active b \<and> b_kind b = FREE_KIND \<and> b_owner b = SYSTEM \<and> b_owner_id b = 0
     \<and> b_status b = FREE \<and> b_virt_len b = 0 \<and> b_name b = ''free''"

definition released :: "block \<Rightarrow> block" where
  "released b = b\<lparr>b_status := RELEASED, b_reserved := 0, b_committed := 0\<rparr>"

definition block_entry :: "block \<Rightarrow> nat \<Rightarrow> block" where
  "block_entry b ident = b\<lparr>b_slot_used := True, b_id := ident\<rparr>"

record block_update =
  u_mask :: nat
  u_kind :: nat
  u_owner :: nat
  u_status :: nat
  u_owner_id :: nat
  u_name :: string
  u_reserved :: nat
  u_committed :: nat

section \<open>Counters\<close>

record hot_stats =
  physical_index_entries :: nat
  physical_lookups :: nat
  physical_steps :: nat
  physical_step_max :: nat
  physical_mutations :: nat
  physical_rebuilds :: nat
  id_index_entries :: nat
  id_index_lookups :: nat
  id_index_steps :: nat
  id_index_step_max :: nat
  free_slot_lookups :: nat
  free_slot_word_steps :: nat
  free_slot_word_step_max :: nat
  claim_transactions :: nat
  claim_rollbacks :: nat

definition HOT_EMPTY :: hot_stats where
  "HOT_EMPTY = \<lparr>physical_index_entries = 0, physical_lookups = 0, physical_steps = 0, physical_step_max = 0,
     physical_mutations = 0, physical_rebuilds = 0, id_index_entries = 0, id_index_lookups = 0,
     id_index_steps = 0, id_index_step_max = 0, free_slot_lookups = 0, free_slot_word_steps = 0,
     free_slot_word_step_max = 0, claim_transactions = 0, claim_rollbacks = 0\<rparr>"

definition record_steps :: "nat \<Rightarrow> nat \<Rightarrow> nat \<Rightarrow> nat \<times> nat" where
  "record_steps steps total_steps max_steps =
     (let value = min steps U32_MAX in (wrapping_add64 total_steps value, max max_steps value))"

definition record_physical :: "nat \<Rightarrow> hot_stats \<Rightarrow> hot_stats" where
  "record_physical steps h =
     (let (t, m) = record_steps steps (physical_steps h) (physical_step_max h)
      in h\<lparr>physical_steps := t, physical_step_max := m\<rparr>)"

definition record_id :: "nat \<Rightarrow> hot_stats \<Rightarrow> hot_stats" where
  "record_id steps h =
     (let (t, m) = record_steps steps (id_index_steps h) (id_index_step_max h)
      in h\<lparr>id_index_steps := t, id_index_step_max := m\<rparr>)"

definition record_words :: "nat \<Rightarrow> hot_stats \<Rightarrow> hot_stats" where
  "record_words steps h =
     (let (t, m) = record_steps steps (free_slot_word_steps h) (free_slot_word_step_max h)
      in h\<lparr>free_slot_word_steps := t, free_slot_word_step_max := m\<rparr>)"

section \<open>The table\<close>

record avl_node =
  in_tree :: bool
  n_left :: "nat option"
  n_right :: "nat option"
  n_height :: nat

definition NODE_EMPTY :: avl_node where
  "NODE_EMPTY = \<lparr>in_tree = False, n_left = None, n_right = None, n_height = 1\<rparr>"

record block_id_entry =
  bi_state :: nat
  bi_id :: nat
  bi_slot :: nat

definition BLOCK_ID_EMPTY :: block_id_entry where
  "BLOCK_ID_EMPTY = \<lparr>bi_state = 0, bi_id = 0, bi_slot = 0\<rparr>"

record block_table =
  entries :: "nat \<Rightarrow> block"
  bt_next_id :: nat
  nodes :: "nat \<Rightarrow> avl_node"
  root :: "nat option"
  physical_count :: nat
  block_ids :: "nat \<Rightarrow> block_id_entry"
  id_count :: nat
  id_tombstones :: nat
  slots :: "nat \<Rightarrow> u64"
  next_slot_word :: nat
  hot :: hot_stats
  initialized :: bool

definition TABLE_EMPTY :: block_table where
  "TABLE_EMPTY = \<lparr>entries = (\<lambda>_. BLOCK_EMPTY), bt_next_id = 1, nodes = (\<lambda>_. NODE_EMPTY), root = None,
     physical_count = 0, block_ids = (\<lambda>_. BLOCK_ID_EMPTY), id_count = 0, id_tombstones = 0,
     slots = (\<lambda>_. - 1), next_slot_word = 0, hot = HOT_EMPTY, initialized = False\<rparr>"

definition table_reset :: "block_table \<Rightarrow> block_table" where
  "table_reset T = T\<lparr>entries := (\<lambda>_. BLOCK_EMPTY), nodes := (\<lambda>_. NODE_EMPTY),
     block_ids := (\<lambda>_. BLOCK_ID_EMPTY), slots := (\<lambda>_. - 1), bt_next_id := 1, root := None,
     physical_count := 0, id_count := 0, id_tombstones := 0, next_slot_word := 0, hot := HOT_EMPTY\<rparr>"

section \<open>Value-only helpers\<close>

definition validate_bytes :: "nat \<Rightarrow> nat \<Rightarrow> block_error + unit" where
  "validate_bytes reserved committed =
     (if reserved \<noteq> 0 \<and> reserved < committed then Inl InvalidBytes else Inr ())"

definition validate :: "block \<Rightarrow> block_error + unit" where
  "validate b =
     (if b_phys_len b = 0 \<and> b_virt_len b = 0
         \<or> checked_add64 (b_phys_base b) (b_phys_len b) = None
         \<or> checked_add64 (b_virt_base b) (b_virt_len b) = None then Inl EmptyRange
      else validate_bytes (b_reserved b) (b_committed b))"

definition take_id :: "nat \<Rightarrow> (nat \<times> nat) option" where
  "take_id next1 = (if next1 = 0 then None else Some (next1, (next1 + 1) mod 2 ^ 32))"

definition free_request :: "nat \<Rightarrow> nat \<Rightarrow> block" where
  "free_request base len = block_physical base len FREE_KIND SYSTEM 0 FREE ''free''"

definition part_request :: "block \<Rightarrow> nat \<Rightarrow> nat \<Rightarrow> block" where
  "part_request b base len = b\<lparr>b_phys_base := base, b_phys_len := len, b_virt_base := 0, b_virt_len := 0,
     b_reserved := min (b_reserved b) len, b_committed := min (b_committed b) len,
     b_slot_used := False, b_id := 0\<rparr>"

definition merge_compatible :: "block \<Rightarrow> block \<Rightarrow> bool" where
  "merge_compatible b request \<longleftrightarrow> block_active b \<and> b_virt_len b = 0 \<and> b_phys_len b \<noteq> 0
     \<and> b_kind b = b_kind request \<and> b_owner b = b_owner request \<and> b_owner_id b = b_owner_id request
     \<and> b_status b = b_status request \<and> b_name b = b_name request"

definition add_summary :: "nat \<Rightarrow> nat \<Rightarrow> bool \<Rightarrow> nat \<times> bool" where
  "add_summary target value over =
     (case checked_add64 target value of Some n \<Rightarrow> (n, over) | None \<Rightarrow> (U64_MAX, True))"

definition id_start :: "nat \<Rightarrow> nat" where
  "id_start ident = wrapping_mul64 ident 11400714819323198485 mod ID_CAPACITY"

definition block_boot_request :: "memory_entry \<Rightarrow> block" where
  "block_boot_request e =
     (let (kind, owner, status, name) =
        (if me_kind e = 0 then (FREE_KIND, SYSTEM, FREE, ''free'')
         else if me_kind e = 1 then (11, SYSTEM, RESERVED, ''reserved'')
         else if me_kind e = 2 then (11, SYSTEM, RESERVED, ''acpi-reclaim'')
         else if me_kind e = 3 then (11, SYSTEM, RESERVED, ''acpi-nvs'')
         else if me_kind e = 4 then (11, SYSTEM, 6, ''bad-memory'')
         else if me_kind e = 5 then (0, 6, RESERVED, ''bootloader'')
         else if me_kind e = 6 then (1, 0, COMMITTED, ''kernel'')
         else if me_kind e = 7 then (10, 5, MAPPED, ''framebuffer'')
         else (13, SYSTEM, RESERVED, ''unknown''));
          request = block_physical (me_base e) (me_length e) kind owner 0 status name
      in request\<lparr>b_reserved := if me_kind e = 0 then 0 else me_length e,
                 b_committed := if me_kind e = 6 \<or> me_kind e = 7 then me_length e else 0\<rparr>)"

end
