(* ===== verification/Block_Tree.thy ===== *)
theory Block_Tree
  imports Block_Data
begin

text \<open>
  The AVL index over physical blocks of \<open>src/Rust/memory/blocks.rs\<close>: rotations, rebalancing,
  insertion, removal and the four searches, on the node array. Slots are ordered by block base, ties
  by slot. The recursions follow links in the array, so nothing bounds them in advance: they are
  partial functions, in which a run that does not end is \<open>None\<close>, like a panic.
\<close>

section \<open>Order and heights\<close>

definition avl_less :: "(nat \<Rightarrow> block) \<Rightarrow> nat \<Rightarrow> nat \<Rightarrow> bool outcome" where
  "avl_less ents a b = do {
     l \<leftarrow> index_get MAX_BLOCKS ents a;
     r \<leftarrow> index_get MAX_BLOCKS ents b;
     Some (b_phys_base l < b_phys_base r \<or> b_phys_base l = b_phys_base r \<and> a < b)
   }"

definition avl_height :: "(nat \<Rightarrow> avl_node) \<Rightarrow> nat option \<Rightarrow> nat outcome" where
  "avl_height ns slot =
     (case slot of None \<Rightarrow> Some 0 | Some i \<Rightarrow> do { n \<leftarrow> index_get MAX_BLOCKS ns i; Some (n_height n) })"

definition add8 :: "nat \<Rightarrow> nat \<Rightarrow> nat outcome" where
  "add8 a b = (if a + b \<le> 255 then Some (a + b) else None)"

definition update_height :: "nat \<Rightarrow> (nat \<Rightarrow> avl_node) \<Rightarrow> (nat \<Rightarrow> avl_node) outcome" where
  "update_height slot ns = do {
     n \<leftarrow> index_get MAX_BLOCKS ns slot;
     hl \<leftarrow> avl_height ns (n_left n);
     hr \<leftarrow> avl_height ns (n_right n);
     h \<leftarrow> add8 1 (max hl hr);
     index_set MAX_BLOCKS ns slot (n\<lparr>n_height := h\<rparr>)
   }"

section \<open>Rotations\<close>

definition rotate_left :: "nat \<Rightarrow> (nat \<Rightarrow> avl_node) \<Rightarrow> (nat \<times> (nat \<Rightarrow> avl_node)) outcome" where
  "rotate_left slot ns = do {
     n \<leftarrow> index_get MAX_BLOCKS ns slot;
     r \<leftarrow> n_right n;
     nr \<leftarrow> index_get MAX_BLOCKS ns r;
     let transfer = n_left nr;
     ns1 \<leftarrow> index_set MAX_BLOCKS ns r (nr\<lparr>n_left := Some slot\<rparr>);
     n1 \<leftarrow> index_get MAX_BLOCKS ns1 slot;
     ns2 \<leftarrow> index_set MAX_BLOCKS ns1 slot (n1\<lparr>n_right := transfer\<rparr>);
     ns3 \<leftarrow> update_height slot ns2;
     ns4 \<leftarrow> update_height r ns3;
     Some (r, ns4)
   }"

definition rotate_right :: "nat \<Rightarrow> (nat \<Rightarrow> avl_node) \<Rightarrow> (nat \<times> (nat \<Rightarrow> avl_node)) outcome" where
  "rotate_right slot ns = do {
     n \<leftarrow> index_get MAX_BLOCKS ns slot;
     l \<leftarrow> n_left n;
     nl \<leftarrow> index_get MAX_BLOCKS ns l;
     let transfer = n_right nl;
     ns1 \<leftarrow> index_set MAX_BLOCKS ns l (nl\<lparr>n_right := Some slot\<rparr>);
     n1 \<leftarrow> index_get MAX_BLOCKS ns1 slot;
     ns2 \<leftarrow> index_set MAX_BLOCKS ns1 slot (n1\<lparr>n_left := transfer\<rparr>);
     ns3 \<leftarrow> update_height slot ns2;
     ns4 \<leftarrow> update_height l ns3;
     Some (l, ns4)
   }"

definition rebalance :: "nat \<Rightarrow> (nat \<Rightarrow> avl_node) \<Rightarrow> (nat \<times> (nat \<Rightarrow> avl_node)) outcome" where
  "rebalance slot ns0 = do {
     ns \<leftarrow> update_height slot ns0;
     n \<leftarrow> index_get MAX_BLOCKS ns slot;
     hl \<leftarrow> avl_height ns (n_left n);
     hr \<leftarrow> avl_height ns (n_right n);
     if hl > hr + 1 then do {
       l \<leftarrow> n_left n;
       child \<leftarrow> index_get MAX_BLOCKS ns l;
       hcl \<leftarrow> avl_height ns (n_left child);
       hcr \<leftarrow> avl_height ns (n_right child);
       ns1 \<leftarrow> (if hcl < hcr then do {
                (l1, ns2) \<leftarrow> rotate_left l ns;
                n2 \<leftarrow> index_get MAX_BLOCKS ns2 slot;
                index_set MAX_BLOCKS ns2 slot (n2\<lparr>n_left := Some l1\<rparr>)
              } else Some ns);
       rotate_right slot ns1
     }
     else if hr > hl + 1 then do {
       r \<leftarrow> n_right n;
       child \<leftarrow> index_get MAX_BLOCKS ns r;
       hcl \<leftarrow> avl_height ns (n_left child);
       hcr \<leftarrow> avl_height ns (n_right child);
       ns1 \<leftarrow> (if hcr < hcl then do {
                (r1, ns2) \<leftarrow> rotate_right r ns;
                n2 \<leftarrow> index_get MAX_BLOCKS ns2 slot;
                index_set MAX_BLOCKS ns2 slot (n2\<lparr>n_right := Some r1\<rparr>)
              } else Some ns);
       rotate_left slot ns1
     }
     else Some (slot, ns)
   }"

section \<open>Insertion and removal\<close>

partial_function (option) insert_at ::
  "(nat \<Rightarrow> block) \<Rightarrow> nat option \<Rightarrow> nat \<Rightarrow> (nat \<Rightarrow> avl_node) \<Rightarrow> (nat \<times> (nat \<Rightarrow> avl_node)) option" where
  "insert_at ents rt slot ns =
     (case rt of
        None \<Rightarrow> Some (slot, ns)
      | Some r \<Rightarrow> do {
          lt \<leftarrow> avl_less ents slot r;
          n \<leftarrow> index_get MAX_BLOCKS ns r;
          if lt then do {
            (child, ns1) \<leftarrow> insert_at ents (n_left n) slot ns;
            n1 \<leftarrow> index_get MAX_BLOCKS ns1 r;
            ns2 \<leftarrow> index_set MAX_BLOCKS ns1 r (n1\<lparr>n_left := Some child\<rparr>);
            rebalance r ns2
          } else do {
            (child, ns1) \<leftarrow> insert_at ents (n_right n) slot ns;
            n1 \<leftarrow> index_get MAX_BLOCKS ns1 r;
            ns2 \<leftarrow> index_set MAX_BLOCKS ns1 r (n1\<lparr>n_right := Some child\<rparr>);
            rebalance r ns2
          }
        })"

partial_function (option) detach_minimum ::
  "nat \<Rightarrow> (nat \<Rightarrow> avl_node) \<Rightarrow> ((nat option \<times> nat) \<times> (nat \<Rightarrow> avl_node)) option" where
  "detach_minimum r ns = do {
     n \<leftarrow> index_get MAX_BLOCKS ns r;
     (case n_left n of
        None \<Rightarrow> Some ((n_right n, r), ns)
      | Some l \<Rightarrow> do {
          ((remainder, minimum1), ns1) \<leftarrow> detach_minimum l ns;
          n1 \<leftarrow> index_get MAX_BLOCKS ns1 r;
          ns2 \<leftarrow> index_set MAX_BLOCKS ns1 r (n1\<lparr>n_left := remainder\<rparr>);
          (r1, ns3) \<leftarrow> rebalance r ns2;
          Some ((Some r1, minimum1), ns3)
        })
   }"

partial_function (option) remove_at ::
  "(nat \<Rightarrow> block) \<Rightarrow> nat option \<Rightarrow> nat \<Rightarrow> (nat \<Rightarrow> avl_node) \<Rightarrow> (nat option \<times> (nat \<Rightarrow> avl_node)) option" where
  "remove_at ents rt slot ns =
     (case rt of
        None \<Rightarrow> Some (None, ns)
      | Some r \<Rightarrow> do {
          lt \<leftarrow> avl_less ents slot r;
          gt \<leftarrow> avl_less ents r slot;
          n \<leftarrow> index_get MAX_BLOCKS ns r;
          if lt then do {
            (child, ns1) \<leftarrow> remove_at ents (n_left n) slot ns;
            n1 \<leftarrow> index_get MAX_BLOCKS ns1 r;
            ns2 \<leftarrow> index_set MAX_BLOCKS ns1 r (n1\<lparr>n_left := child\<rparr>);
            (r1, ns3) \<leftarrow> rebalance r ns2;
            Some (Some r1, ns3)
          }
          else if gt then do {
            (child, ns1) \<leftarrow> remove_at ents (n_right n) slot ns;
            n1 \<leftarrow> index_get MAX_BLOCKS ns1 r;
            ns2 \<leftarrow> index_set MAX_BLOCKS ns1 r (n1\<lparr>n_right := child\<rparr>);
            (r1, ns3) \<leftarrow> rebalance r ns2;
            Some (Some r1, ns3)
          }
          else (case n_left n of
              None \<Rightarrow> Some (n_right n, ns)
            | Some l \<Rightarrow>
                (case n_right n of
                   None \<Rightarrow> Some (n_left n, ns)
                 | Some rr \<Rightarrow> do {
                     ((remainder, minimum1), ns1) \<leftarrow> detach_minimum rr ns;
                     n1 \<leftarrow> index_get MAX_BLOCKS ns1 minimum1;
                     ns2 \<leftarrow> index_set MAX_BLOCKS ns1 minimum1 (n1\<lparr>n_left := Some l\<rparr>);
                     n2 \<leftarrow> index_get MAX_BLOCKS ns2 minimum1;
                     ns3 \<leftarrow> index_set MAX_BLOCKS ns2 minimum1 (n2\<lparr>n_right := remainder\<rparr>);
                     (r1, ns4) \<leftarrow> rebalance minimum1 ns3;
                     Some (Some r1, ns4)
                   }))
        })"

definition insert_physical :: "nat \<Rightarrow> block_table \<Rightarrow> block_table outcome" where
  "insert_physical slot T = do {
     ns \<leftarrow> index_set MAX_BLOCKS (nodes T) slot (NODE_EMPTY\<lparr>in_tree := True\<rparr>);
     (r, ns1) \<leftarrow> insert_at (entries T) (root T) slot ns;
     Some (T\<lparr>nodes := ns1, root := Some r, physical_count := min (physical_count T + 1) U32_MAX\<rparr>)
   }"

definition remove_physical :: "nat \<Rightarrow> block_table \<Rightarrow> block_table outcome" where
  "remove_physical slot T = do {
     n \<leftarrow> index_get MAX_BLOCKS (nodes T) slot;
     if \<not> in_tree n then Some T
     else do {
       (r, ns) \<leftarrow> remove_at (entries T) (root T) slot (nodes T);
       ns1 \<leftarrow> index_set MAX_BLOCKS ns slot NODE_EMPTY;
       Some (T\<lparr>nodes := ns1, root := r,
               physical_count := if physical_count T \<noteq> 0 then physical_count T - 1 else physical_count T\<rparr>)
     }
   }"

section \<open>Searches\<close>

text \<open>
  All searches descend from the root and keep the last node at which they turned one way: \<open>low\<close>
  searches keep a node when the test holds and go right, \<open>high\<close> searches keep it and go left.
\<close>

partial_function (option) descend_low ::
  "(nat \<Rightarrow> bool outcome) \<Rightarrow> (nat \<Rightarrow> avl_node) \<Rightarrow> nat option \<Rightarrow> nat option \<Rightarrow> nat \<Rightarrow> (nat option \<times> nat) option" where
  "descend_low test ns current result steps =
     (case current of
        None \<Rightarrow> Some (result, steps)
      | Some slot \<Rightarrow> do {
          hit \<leftarrow> test slot;
          n \<leftarrow> index_get MAX_BLOCKS ns slot;
          if hit then descend_low test ns (n_right n) (Some slot) (steps + 1)
          else descend_low test ns (n_left n) result (steps + 1)
        })"

partial_function (option) descend_high ::
  "(nat \<Rightarrow> bool outcome) \<Rightarrow> (nat \<Rightarrow> avl_node) \<Rightarrow> nat option \<Rightarrow> nat option \<Rightarrow> nat \<Rightarrow> (nat option \<times> nat) option" where
  "descend_high test ns current result steps =
     (case current of
        None \<Rightarrow> Some (result, steps)
      | Some slot \<Rightarrow> do {
          hit \<leftarrow> test slot;
          n \<leftarrow> index_get MAX_BLOCKS ns slot;
          if hit then descend_high test ns (n_left n) (Some slot) (steps + 1)
          else descend_high test ns (n_right n) result (steps + 1)
        })"

definition base_test :: "(nat \<Rightarrow> block) \<Rightarrow> (nat \<Rightarrow> bool) \<Rightarrow> nat \<Rightarrow> bool outcome" where
  "base_test ents P slot = do { b \<leftarrow> index_get MAX_BLOCKS ents slot; Some (P (b_phys_base b)) }"

definition count_lookup :: "block_table \<Rightarrow> block_table" where
  "count_lookup T = T\<lparr>hot := (hot T)\<lparr>physical_lookups := wrapping_add64 (physical_lookups (hot T)) 1\<rparr>\<rparr>"

definition count_steps :: "nat \<Rightarrow> block_table \<Rightarrow> block_table" where
  "count_steps steps T = T\<lparr>hot := record_physical steps (hot T)\<rparr>"

definition avl_floor :: "nat \<Rightarrow> block_table \<Rightarrow> (nat option \<times> block_table) outcome" where
  "avl_floor base T0 = do {
     let T = count_lookup T0;
     (result, steps) \<leftarrow> descend_low (base_test (entries T) (\<lambda>b. b \<le> base)) (nodes T) (root T) None 0;
     Some (result, count_steps steps T)
   }"

definition avl_lower_bound :: "nat \<Rightarrow> block_table \<Rightarrow> (nat option \<times> block_table) outcome" where
  "avl_lower_bound base T0 = do {
     let T = count_lookup T0;
     (result, steps) \<leftarrow> descend_high (base_test (entries T) (\<lambda>b. base \<le> b)) (nodes T) (root T) None 0;
     Some (result, count_steps steps T)
   }"

definition predecessor :: "block_table \<Rightarrow> nat \<Rightarrow> nat option outcome" where
  "predecessor T target = do {
     (result, _) \<leftarrow> descend_low (\<lambda>slot. avl_less (entries T) slot target) (nodes T) (root T) None 0;
     Some result
   }"

definition predecessor_before :: "nat \<Rightarrow> nat \<Rightarrow> block_table \<Rightarrow> (nat option \<times> block_table) outcome" where
  "predecessor_before base ignore T0 = do {
     let T = count_lookup T0;
     (result, steps) \<leftarrow> descend_low (base_test (entries T) (\<lambda>b. b < base)) (nodes T) (root T) None 0;
     result1 \<leftarrow> (case result of
         None \<Rightarrow> Some None
       | Some index \<Rightarrow> do {
           b \<leftarrow> index_get MAX_BLOCKS (entries T) index;
           if ignore \<noteq> 0 \<and> b_id b = ignore then predecessor T index else Some (Some index)
         });
     Some (result1, count_steps steps T)
   }"

definition avl_successor :: "nat \<Rightarrow> block_table \<Rightarrow> (nat option \<times> block_table) outcome" where
  "avl_successor target T0 = do {
     let T = count_lookup T0;
     (result, steps) \<leftarrow> descend_high (\<lambda>slot. avl_less (entries T) target slot) (nodes T) (root T) None 0;
     Some (result, count_steps steps T)
   }"

partial_function (option) minimum_loop :: "(nat \<Rightarrow> avl_node) \<Rightarrow> nat \<Rightarrow> nat option" where
  "minimum_loop ns current = do {
     n \<leftarrow> index_get MAX_BLOCKS ns current;
     (case n_left n of None \<Rightarrow> Some current | Some l \<Rightarrow> minimum_loop ns l)
   }"

definition avl_minimum :: "block_table \<Rightarrow> nat option \<Rightarrow> nat option outcome" where
  "avl_minimum T rt = (case rt of None \<Rightarrow> Some None | Some r \<Rightarrow> do { m \<leftarrow> minimum_loop (nodes T) r; Some (Some m) })"

end
