(* ===== verification/Block_Ids.thy ===== *)
theory Block_Ids
  imports Block_Data Probe_Ring
begin

text \<open>
  The identity index and the bitmap of reusable slots of \<open>src/Rust/memory/blocks.rs\<close>. The identity
  index is open addressing without tombstones: a removal empties the cell and inserts the rest of the
  cluster again. Its \<open>while\<close> loop has no bound in the code and is a partial function here.
\<close>

section \<open>Reusable slots\<close>

primrec free_word_from :: "(nat \<Rightarrow> u64) \<Rightarrow> nat \<Rightarrow> nat list \<Rightarrow> (nat \<times> nat \<times> nat) option outcome" where
  "free_word_from ws start0 [] = Some None"
| "free_word_from ws start0 (scanned # rest) = do {
     let index = (start0 + scanned) mod SLOT_WORDS;
     word \<leftarrow> index_get SLOT_WORDS ws index;
     if word = 0 then free_word_from ws start0 rest
     else Some (Some (index * 64 + trailing_zeros word, index, scanned + 1))
   }"

definition block_free_slot :: "block_table \<Rightarrow> (nat option \<times> block_table) outcome" where
  "block_free_slot T0 = do {
     let T = T0\<lparr>hot := (hot T0)\<lparr>free_slot_lookups := wrapping_add64 (free_slot_lookups (hot T0)) 1\<rparr>\<rparr>;
     found \<leftarrow> free_word_from (slots T) (next_slot_word T) [0..<SLOT_WORDS];
     (case found of
        Some (slot, index, steps) \<Rightarrow> Some (Some slot, T\<lparr>next_slot_word := index, hot := record_words steps (hot T)\<rparr>)
      | None \<Rightarrow> Some (None, T\<lparr>hot := record_words SLOT_WORDS (hot T)\<rparr>))
   }"

text \<open>
  \<open>collect_word\<close> takes the set bits of one word in order, the excluded slot apart, until enough slots
  are collected; \<open>collect_words\<close> goes over the words. At most three slots are wanted.
\<close>

primrec collect_word :: "nat \<Rightarrow> nat \<Rightarrow> nat \<Rightarrow> nat \<Rightarrow> u64 \<Rightarrow> nat list \<Rightarrow> nat list" where
  "collect_word 0 wanted excluded base word acc = acc"
| "collect_word (Suc n) wanted excluded base word acc =
     (if word \<noteq> 0 \<and> length acc < wanted then
        let b = trailing_zeros word; slot = base + b; word1 = word AND NOT (push_bit b 1)
        in collect_word n wanted excluded base word1 (if slot = excluded then acc else acc @ [slot])
      else acc)"

primrec collect_words :: "nat \<Rightarrow> (nat \<Rightarrow> u64) \<Rightarrow> nat \<Rightarrow> nat \<Rightarrow> nat \<Rightarrow> nat list \<Rightarrow> nat list \<times> nat" where
  "collect_words 0 ws scanned wanted excluded acc = (acc, scanned)"
| "collect_words (Suc n) ws scanned wanted excluded acc =
     (if length acc < wanted
      then collect_words n ws (scanned + 1) wanted excluded (collect_word 64 wanted excluded (scanned * 64) (ws scanned) acc)
      else (acc, scanned))"

definition collect_slots :: "nat list \<Rightarrow> nat \<Rightarrow> nat \<Rightarrow> block_table \<Rightarrow> nat list \<times> block_table" where
  "collect_slots acc wanted excluded T =
     (let (found, scanned) = collect_words SLOT_WORDS (slots T) 0 wanted excluded acc
      in (found, T\<lparr>hot := record_words scanned (hot T)\<rparr>))"

definition reusable :: "nat \<Rightarrow> bool \<Rightarrow> block_table \<Rightarrow> block_table outcome" where
  "reusable index flag T = do {
     let word = index div 64;
     let m = push_bit (index mod 64) 1;
     w \<leftarrow> index_get SLOT_WORDS (slots T) word;
     if flag then do {
       ws \<leftarrow> index_set SLOT_WORDS (slots T) word (w OR m);
       let T1 = T\<lparr>slots := ws\<rparr>;
       Some (if word < next_slot_word T1 then T1\<lparr>next_slot_word := word\<rparr> else T1)
     } else do {
       ws \<leftarrow> index_set SLOT_WORDS (slots T) word (w AND NOT m);
       Some (T\<lparr>slots := ws\<rparr>)
     }
   }"

section \<open>Identities\<close>

primrec block_by_id_loop ::
  "nat \<Rightarrow> block_table \<Rightarrow> nat \<Rightarrow> nat \<Rightarrow> nat \<Rightarrow> (nat option \<times> nat) outcome" where
  "block_by_id_loop 0 T ident position step = Some (None, ID_CAPACITY)"
| "block_by_id_loop (Suc n) T ident position step = do {
     entry \<leftarrow> index_get ID_CAPACITY (block_ids T) position;
     if bi_state entry = 0 \<or> bi_state entry = 1 \<and> bi_id entry = ident then
       if bi_state entry = 0 then Some (None, step + 1)
       else do {
         let index = bi_slot entry;
         if index < MAX_BLOCKS then do {
           b \<leftarrow> index_get MAX_BLOCKS (entries T) index;
           Some (if b_slot_used b \<and> b_id b = ident then Some index else None, step + 1)
         } else Some (None, step + 1)
       }
     else block_by_id_loop n T ident ((position + 1) mod ID_CAPACITY) (step + 1)
   }"

definition block_by_id :: "nat \<Rightarrow> block_table \<Rightarrow> (nat option \<times> block_table) outcome" where
  "block_by_id ident T0 = do {
     let T = T0\<lparr>hot := (hot T0)\<lparr>id_index_lookups := wrapping_add64 (id_index_lookups (hot T0)) 1\<rparr>\<rparr>;
     (result, steps) \<leftarrow> block_by_id_loop ID_CAPACITY T ident (id_start ident) 0;
     Some (result, T\<lparr>hot := record_id steps (hot T)\<rparr>)
   }"

primrec raw_id_loop :: "nat \<Rightarrow> (nat \<Rightarrow> block_id_entry) \<Rightarrow> nat \<Rightarrow> nat \<Rightarrow> nat option outcome" where
  "raw_id_loop 0 table ident position = Some None"
| "raw_id_loop (Suc n) table ident position = do {
     entry \<leftarrow> index_get ID_CAPACITY table position;
     if bi_state entry = 0 then Some None
     else if bi_state entry = 1 \<and> bi_id entry = ident then Some (Some (bi_slot entry))
     else raw_id_loop n table ident ((position + 1) mod ID_CAPACITY)
   }"

definition raw_id :: "block_table \<Rightarrow> nat \<Rightarrow> nat option outcome" where
  "raw_id T ident = raw_id_loop ID_CAPACITY (block_ids T) ident (id_start ident)"

primrec block_insert_id_loop :: "nat \<Rightarrow> nat \<Rightarrow> nat \<Rightarrow> nat \<Rightarrow> block_table \<Rightarrow> block_table outcome" where
  "block_insert_id_loop 0 ident slot position T = None"
| "block_insert_id_loop (Suc n) ident slot position T = do {
     entry \<leftarrow> index_get ID_CAPACITY (block_ids T) position;
     if bi_state entry = 0 then do {
       t \<leftarrow> index_set ID_CAPACITY (block_ids T) position \<lparr>bi_state = 1, bi_id = ident, bi_slot = slot\<rparr>;
       Some (T\<lparr>block_ids := t, id_count := min (id_count T + 1) U32_MAX\<rparr>)
     }
     else if bi_state entry = 1 \<and> bi_id entry = ident then do {
       t \<leftarrow> index_set ID_CAPACITY (block_ids T) position (entry\<lparr>bi_slot := slot\<rparr>);
       Some (T\<lparr>block_ids := t\<rparr>)
     }
     else block_insert_id_loop n ident slot ((position + 1) mod ID_CAPACITY) T
   }"

definition block_insert_id :: "nat \<Rightarrow> nat \<Rightarrow> block_table \<Rightarrow> block_table outcome" where
  "block_insert_id ident slot T = block_insert_id_loop ID_CAPACITY ident slot (id_start ident) T"

definition drop_count :: "block_table \<Rightarrow> block_table" where
  "drop_count T = T\<lparr>id_count := if id_count T \<noteq> 0 then id_count T - 1 else id_count T\<rparr>"

partial_function (option) rehash_cluster :: "nat \<Rightarrow> block_table \<Rightarrow> block_table option" where
  "rehash_cluster rehash T = do {
     displaced \<leftarrow> index_get ID_CAPACITY (block_ids T) rehash;
     if bi_state displaced = 1 then do {
       t \<leftarrow> index_set ID_CAPACITY (block_ids T) rehash BLOCK_ID_EMPTY;
       T1 \<leftarrow> block_insert_id (bi_id displaced) (bi_slot displaced) (drop_count (T\<lparr>block_ids := t\<rparr>));
       rehash_cluster ((rehash + 1) mod ID_CAPACITY) T1
     } else Some T
   }"

primrec block_remove_id_loop :: "nat \<Rightarrow> nat \<Rightarrow> nat \<Rightarrow> block_table \<Rightarrow> block_table outcome" where
  "block_remove_id_loop 0 ident position T = Some T"
| "block_remove_id_loop (Suc n) ident position T = do {
     entry \<leftarrow> index_get ID_CAPACITY (block_ids T) position;
     if bi_state entry = 0 then Some T
     else if bi_state entry = 1 \<and> bi_id entry = ident then do {
       t \<leftarrow> index_set ID_CAPACITY (block_ids T) position BLOCK_ID_EMPTY;
       rehash_cluster ((position + 1) mod ID_CAPACITY) (drop_count (T\<lparr>block_ids := t\<rparr>))
     }
     else block_remove_id_loop n ident ((position + 1) mod ID_CAPACITY) T
   }"

definition block_remove_id :: "nat \<Rightarrow> block_table \<Rightarrow> block_table outcome" where
  "block_remove_id ident T = block_remove_id_loop ID_CAPACITY ident (id_start ident) T"

end
