(* ===== verification/Block_Catalogue.thy ===== *)
theory Block_Catalogue
  imports Block_Tree Block_Ids
begin

text \<open>
  The operations of the block catalogue, \<open>src/Rust/memory/blocks.rs\<close>: replacing an entry with all
  indices, registration, claims with their undo journal, release plans, retagging, updates, queries
  and the exported entry points. An operation returns \<open>None\<close> for a panic, else its result (\<open>Inl\<close> the
  error) and the table. The physical-memory lock that every exported operation holds is not modelled;
  a release plan carries no lock token, only whether it is active.
\<close>

section \<open>Results\<close>

type_synonym ('a, 's) effect = "((block_error + 'a) \<times> 's) outcome"

type_synonym 'a step = "('a, block_table) effect"

definition ok :: "'a \<Rightarrow> 's \<Rightarrow> ('a, 's) effect" where
  "ok v T = Some (Inr v, T)"

definition err :: "block_error \<Rightarrow> 's \<Rightarrow> ('a, 's) effect" where
  "err e T = Some (Inl e, T)"

text \<open>\<open>andthen\<close> is the \<open>?\<close> operator: an error ends the operation with the state as it is.\<close>

definition andthen :: "('a, 's) effect \<Rightarrow> ('a \<Rightarrow> 's \<Rightarrow> ('b, 's) effect) \<Rightarrow> ('b, 's) effect" where
  "andthen s k = (case s of
     None \<Rightarrow> None
   | Some (Inl e, T) \<Rightarrow> Some (Inl e, T)
   | Some (Inr v, T) \<Rightarrow> k v T)"

definition ok_or :: "'a option \<Rightarrow> block_error \<Rightarrow> 's \<Rightarrow> ('a \<Rightarrow> ('b, 's) effect) \<Rightarrow> ('b, 's) effect" where
  "ok_or x e T k = (case x of None \<Rightarrow> err e T | Some v \<Rightarrow> k v)"

definition check :: "block_error + unit \<Rightarrow> 's \<Rightarrow> ('b, 's) effect \<Rightarrow> ('b, 's) effect" where
  "check r T k = (case r of Inl e \<Rightarrow> err e T | Inr _ \<Rightarrow> k)"

definition checked_sub :: "nat \<Rightarrow> nat \<Rightarrow> nat option" where
  "checked_sub a b = (if b \<le> a then Some (a - b) else None)"

section \<open>Entries and their indices\<close>

definition count_mutation :: "block_table \<Rightarrow> block_table" where
  "count_mutation T = T\<lparr>hot := (hot T)\<lparr>physical_mutations := wrapping_add64 (physical_mutations (hot T)) 1\<rparr>\<rparr>"

definition block_replace :: "nat \<Rightarrow> block \<Rightarrow> block_table \<Rightarrow> block_table outcome" where
  "block_replace index entry T0 = do {
     n \<leftarrow> index_get MAX_BLOCKS (nodes T0) index;
     T1 \<leftarrow> (if in_tree n then remove_physical index T0 else Some T0);
     old \<leftarrow> index_get MAX_BLOCKS (entries T1) index;
     T2 \<leftarrow> (if b_slot_used old then block_remove_id (b_id old) T1 else Some T1);
     es \<leftarrow> index_set MAX_BLOCKS (entries T2) index entry;
     T3 \<leftarrow> reusable index (\<not> b_slot_used entry \<or> b_status entry = RELEASED) (T2\<lparr>entries := es\<rparr>);
     T4 \<leftarrow> (if b_slot_used entry then block_insert_id (b_id entry) index T3 else Some T3);
     T5 \<leftarrow> (if physical_index entry then insert_physical index T4 else Some T4);
     Some (count_mutation T5)
   }"

primrec block_rebuild_from :: "nat list \<Rightarrow> block_table \<Rightarrow> block_table outcome" where
  "block_rebuild_from [] T = Some T"
| "block_rebuild_from (index # rest) T = do {
     entry \<leftarrow> index_get MAX_BLOCKS (entries T) index;
     T1 \<leftarrow> reusable index (\<not> b_slot_used entry \<or> b_status entry = RELEASED) T;
     T2 \<leftarrow> (if b_slot_used entry then block_insert_id (b_id entry) index T1 else Some T1);
     T3 \<leftarrow> (if physical_index entry then insert_physical index T2 else Some T2);
     block_rebuild_from rest T3
   }"

definition block_rebuild :: "block_table \<Rightarrow> block_table outcome" where
  "block_rebuild T = block_rebuild_from [0..<MAX_BLOCKS]
     (T\<lparr>hot := (hot T)\<lparr>physical_rebuilds := wrapping_add64 (physical_rebuilds (hot T)) 1\<rparr>,
        nodes := (\<lambda>_. NODE_EMPTY), block_ids := (\<lambda>_. BLOCK_ID_EMPTY), slots := (\<lambda>_. 0), root := None,
        physical_count := 0, id_count := 0, id_tombstones := 0, next_slot_word := 0\<rparr>)"

section \<open>Overlap\<close>

definition block_meets :: "nat \<Rightarrow> nat \<Rightarrow> block \<Rightarrow> bool" where
  "block_meets base fin b =
     (case checked_add64 (b_phys_base b) (b_phys_len b) of
        None \<Rightarrow> True
      | Some block_end \<Rightarrow> base < block_end \<and> b_phys_base b < fin)"

primrec virtual_overlap :: "(nat \<Rightarrow> block) \<Rightarrow> nat \<Rightarrow> nat \<Rightarrow> nat \<Rightarrow> nat list \<Rightarrow> bool" where
  "virtual_overlap ents base fin ignore [] = False"
| "virtual_overlap ents base fin ignore (index # rest) =
     (let b = ents index in
      if \<not> block_active b \<or> b_id b = ignore \<or> b_virt_len b = 0 then virtual_overlap ents base fin ignore rest
      else case checked_add64 (b_virt_base b) (b_virt_len b) of
        None \<Rightarrow> True
      | Some other_end \<Rightarrow>
          if base < other_end \<and> b_virt_base b < fin then True
          else virtual_overlap ents base fin ignore rest)"

definition overlaps_physical :: "nat \<Rightarrow> nat \<Rightarrow> nat \<Rightarrow> block_table \<Rightarrow> (bool \<times> block_table) outcome" where
  "overlaps_physical base fin ignore T0 = do {
     (at, T1) \<leftarrow> avl_floor base T0;
     low \<leftarrow> (case at of
         None \<Rightarrow> Some False
       | Some index \<Rightarrow> do {
           b \<leftarrow> index_get MAX_BLOCKS (entries T1) index;
           Some (b_id b \<noteq> ignore \<and> block_meets base fin b)
         });
     if low then Some (True, T1)
     else do {
       (nx, T2) \<leftarrow> avl_lower_bound base T1;
       (nx1, T3) \<leftarrow> (case nx of
           None \<Rightarrow> Some (None, T2)
         | Some index \<Rightarrow> do {
             b \<leftarrow> index_get MAX_BLOCKS (entries T2) index;
             if b_id b = ignore then avl_successor index T2 else Some (Some index, T2)
           });
       (case nx1 of
          None \<Rightarrow> Some (False, T3)
        | Some index \<Rightarrow> do {
            b \<leftarrow> index_get MAX_BLOCKS (entries T3) index;
            Some (block_meets base fin b, T3)
          })
     }
   }"

definition block_overlaps :: "nat \<Rightarrow> nat \<Rightarrow> bool \<Rightarrow> nat \<Rightarrow> block_table \<Rightarrow> (bool \<times> block_table) outcome" where
  "block_overlaps base len phys ignore T =
     (if len = 0 then Some (False, T)
      else case checked_add64 base len of
        None \<Rightarrow> Some (True, T)
      | Some fin \<Rightarrow>
          if phys then overlaps_physical base fin ignore T
          else Some (virtual_overlap (entries T) base fin ignore [0..<MAX_BLOCKS], T))"

section \<open>Registration\<close>

definition free_slot_or_full :: "block_table \<Rightarrow> nat step" where
  "free_slot_or_full T0 = do {
     (slot, T) \<leftarrow> block_free_slot T0;
     ok_or slot TableFull T (\<lambda>s. ok s T)
   }"

definition block_register :: "block \<Rightarrow> block_table \<Rightarrow> nat step" where
  "block_register request T =
     check (validate request) T (do {
       (p, T1) \<leftarrow> block_overlaps (b_phys_base request) (b_phys_len request) True 0 T;
       (v, T2) \<leftarrow> (if p then Some (True, T1)
                   else block_overlaps (b_virt_base request) (b_virt_len request) False 0 T1);
       if p \<or> v then err Overlap T2
       else andthen (free_slot_or_full T2) (\<lambda>index T3.
         ok_or (take_id (bt_next_id T3)) Overflow T3 (\<lambda>(ident, next1). do {
           T4 \<leftarrow> block_replace index (block_entry request ident) (T3\<lparr>bt_next_id := next1\<rparr>);
           ok ident T4
         }))
     })"

section \<open>Lookup of containing blocks\<close>

definition block_containing :: "nat \<Rightarrow> nat \<Rightarrow> bool \<Rightarrow> block_table \<Rightarrow> (nat option \<times> block_table) outcome" where
  "block_containing base len free T =
     (case checked_add64 base len of
        None \<Rightarrow> Some (None, T)
      | Some fin \<Rightarrow> do {
          (at, T1) \<leftarrow> avl_floor base T;
          (case at of
             None \<Rightarrow> Some (None, T1)
           | Some index \<Rightarrow> do {
               b \<leftarrow> index_get MAX_BLOCKS (entries T1) index;
               if (if free then \<not> canonical_free b
                   else \<not> block_active b \<or> b_kind b = FREE_KIND \<or> b_status b = FREE \<or> b_phys_len b = 0)
               then Some (None, T1)
               else (case checked_add64 (b_phys_base b) (b_phys_len b) of
                   None \<Rightarrow> Some (None, T1)
                 | Some block_end \<Rightarrow> Some (if fin \<le> block_end then Some index else None, T1))
             })
        })"

definition block_prefix :: "nat \<Rightarrow> nat \<Rightarrow> bool \<Rightarrow> block_table \<Rightarrow> (nat \<times> block_table) outcome" where
  "block_prefix base max_len free T =
     (if max_len = 0 then Some (0, T)
      else do {
        (at, T1) \<leftarrow> avl_floor base T;
        (case at of
           None \<Rightarrow> Some (0, T1)
         | Some index \<Rightarrow> do {
             b \<leftarrow> index_get MAX_BLOCKS (entries T1) index;
             if (if free then \<not> canonical_free b \<or> base < b_phys_base b
                 else \<not> block_active b \<or> b_kind b = FREE_KIND \<or> b_status b = FREE \<or> b_phys_len b = 0
                   \<or> base < b_phys_base b)
             then Some (0, T1)
             else (case checked_add64 (b_phys_base b) (b_phys_len b) of
                 None \<Rightarrow> Some (0, T1)
               | Some fin \<Rightarrow> Some (if fin \<le> base then 0 else min max_len (fin - base), T1))
           })
      })"

section \<open>Merging\<close>

definition merge_slot :: "block \<Rightarrow> block_table \<Rightarrow> nat option step" where
  "merge_slot request T =
     ok_or (checked_add64 (b_phys_base request) (b_phys_len request)) Overflow T (\<lambda>fin. do {
       (lo, T1) \<leftarrow> predecessor_before (b_phys_base request) 0 T;
       andthen (case lo of
           None \<Rightarrow> ok None T1
         | Some index \<Rightarrow> do {
             b \<leftarrow> index_get MAX_BLOCKS (entries T1) index;
             ok_or (checked_add64 (b_phys_base b) (b_phys_len b)) Overflow T1 (\<lambda>block_end.
               ok (if block_end = b_phys_base request \<and> merge_compatible b request then Some index else None) T1)
           })
         (\<lambda>found T2.
           case found of
             Some index \<Rightarrow> ok (Some index) T2
           | None \<Rightarrow> do {
               (hi, T3) \<leftarrow> avl_lower_bound fin T2;
               (case hi of
                  None \<Rightarrow> ok None T3
                | Some index \<Rightarrow> do {
                    b \<leftarrow> index_get MAX_BLOCKS (entries T3) index;
                    ok (if b_phys_base b = fin \<and> merge_compatible b request then Some index else None) T3
                  })
             })
     })"

definition add_or_merge :: "block \<Rightarrow> block_table \<Rightarrow> nat step" where
  "add_or_merge request T =
     andthen (merge_slot request T) (\<lambda>found T1.
       case found of
         None \<Rightarrow> block_register request T1
       | Some index \<Rightarrow> do {
           b \<leftarrow> index_get MAX_BLOCKS (entries T1) index;
           ok_or (checked_add64 (b_phys_base b) (b_phys_len b)) Overflow T1 (\<lambda>block_end.
           ok_or (checked_add64 (b_phys_base request) (b_phys_len request)) Overflow T1 (\<lambda>fin.
           ok_or (checked_add64 (b_phys_len b) (b_phys_len request)) Overflow T1 (\<lambda>len.
           ok_or (checked_add64 (b_reserved b) (b_reserved request)) Overflow T1 (\<lambda>res.
           ok_or (checked_add64 (b_committed b) (b_committed request)) Overflow T1 (\<lambda>com. do {
             b1 \<leftarrow> (if block_end = b_phys_base request then Some (b\<lparr>b_phys_len := len\<rparr>)
                    else if fin = b_phys_base b then Some (b\<lparr>b_phys_base := b_phys_base request, b_phys_len := len\<rparr>)
                    else None);
             T2 \<leftarrow> block_replace index (b1\<lparr>b_reserved := res, b_committed := com\<rparr>) T1;
             ok (b_id b) T2
           })))))
         })"

section \<open>Coalescing\<close>

definition merged_block :: "block \<Rightarrow> block \<Rightarrow> block option" where
  "merged_block l r = do {
     fin \<leftarrow> checked_add64 (b_phys_base l) (b_phys_len l);
     if fin \<noteq> b_phys_base r \<or> \<not> block_active r \<or> \<not> merge_compatible l r \<or> b_virt_len r \<noteq> 0 \<or> b_phys_len r = 0
     then None
     else do {
       len \<leftarrow> checked_add64 (b_phys_len l) (b_phys_len r);
       res \<leftarrow> checked_add64 (b_reserved l) (b_reserved r);
       com \<leftarrow> checked_add64 (b_committed l) (b_committed r);
       Some (l\<lparr>b_phys_len := len, b_reserved := res, b_committed := com\<rparr>)
     }
   }"

partial_function (option) coalesce_loop :: "nat option \<Rightarrow> block_table \<Rightarrow> block_table option" where
  "coalesce_loop current T =
     (case current of
        None \<Rightarrow> Some T
      | Some left_index \<Rightarrow> do {
          (nx, T1) \<leftarrow> avl_successor left_index T;
          (case nx of
             None \<Rightarrow> Some T1
           | Some right_index \<Rightarrow> do {
               l \<leftarrow> index_get MAX_BLOCKS (entries T1) left_index;
               r \<leftarrow> index_get MAX_BLOCKS (entries T1) right_index;
               (case merged_block l r of
                  Some b \<Rightarrow> do {
                    T2 \<leftarrow> block_replace left_index b T1;
                    T3 \<leftarrow> block_replace right_index (released r) T2;
                    coalesce_loop (Some left_index) T3
                  }
                | None \<Rightarrow> coalesce_loop (Some right_index) T1)
             })
        })"

definition block_coalesce :: "block_table \<Rightarrow> block_table outcome" where
  "block_coalesce T = do { m \<leftarrow> avl_minimum T (root T); coalesce_loop m T }"

section \<open>The undo journal and claims\<close>

record journal =
  images :: "(nat \<times> block) list"
  j_next_id :: nat

definition remember :: "nat \<Rightarrow> journal \<times> block_table \<Rightarrow> (unit, journal \<times> block_table) effect" where
  "remember index = (\<lambda>(J, T).
     if index \<in> set (map fst (images J)) then ok () (J, T)
     else if length (images J) = 4 then err TableFull (J, T)
     else do {
       b \<leftarrow> index_get MAX_BLOCKS (entries T) index;
       ok () (J\<lparr>images := images J @ [(index, b)]\<rparr>, T)
     })"

primrec restore_images :: "(nat \<times> block) list \<Rightarrow> block_table \<Rightarrow> block_table outcome" where
  "restore_images [] T = Some T"
| "restore_images (img # rest) T = do {
     es \<leftarrow> index_set MAX_BLOCKS (entries T) (fst img) (snd img);
     restore_images rest (T\<lparr>entries := es\<rparr>)
   }"

definition rollback :: "journal \<Rightarrow> block_table \<Rightarrow> block_table outcome" where
  "rollback J T = do {
     T1 \<leftarrow> restore_images (rev (images J)) T;
     block_rebuild (T1\<lparr>bt_next_id := j_next_id J\<rparr>)
   }"

definition on_table :: "(block_table \<Rightarrow> 'a step) \<Rightarrow> journal \<times> block_table \<Rightarrow> ('a, journal \<times> block_table) effect" where
  "on_table f = (\<lambda>(J, T). do { (r, T1) \<leftarrow> f T; Some (r, (J, T1)) })"

definition replace_step :: "nat \<Rightarrow> block \<Rightarrow> block_table \<Rightarrow> unit step" where
  "replace_step index b T = do { T1 \<leftarrow> block_replace index b T; ok () T1 }"

text \<open>
  The parts shared by a claim and a retag: a part of the split block goes to a fresh slot, which is
  remembered first; the new block goes to the slot it merges into or to a fresh one.
\<close>

definition journal_part :: "block \<Rightarrow> journal \<times> block_table \<Rightarrow> (unit, journal \<times> block_table) effect" where
  "journal_part request s =
     andthen (on_table free_slot_or_full s) (\<lambda>slot s1.
     andthen (remember slot s1) (\<lambda>_ s2.
     andthen (on_table (block_register request) s2) (\<lambda>_ s3. ok () s3)))"

definition journal_place :: "block \<Rightarrow> journal \<times> block_table \<Rightarrow> (nat, journal \<times> block_table) effect" where
  "journal_place request s =
     andthen (on_table (merge_slot request) s) (\<lambda>found s1.
     andthen (case found of Some slot \<Rightarrow> ok slot s1 | None \<Rightarrow> on_table free_slot_or_full s1) (\<lambda>slot s2.
     andthen (remember slot s2) (\<lambda>_ s3.
     on_table (add_or_merge request) s3)))"

definition when_step :: "bool \<Rightarrow> ('s \<Rightarrow> (unit, 's) effect) \<Rightarrow> 's \<Rightarrow> (unit, 's) effect" where
  "when_step c f s = (if c then f s else ok () s)"

definition block_claim :: "block \<Rightarrow> block_table \<Rightarrow> nat step" where
  "block_claim request T0 =
     (let base = b_phys_base request; len = b_phys_len request in
      if len = 0 \<or> checked_add64 base len = None then err EmptyRange T0
      else do {
        let T = T0\<lparr>hot := (hot T0)\<lparr>claim_transactions := wrapping_add64 (claim_transactions (hot T0)) 1\<rparr>\<rparr>;
        (at, T1) \<leftarrow> block_containing base len True T;
        ok_or at NotFree T1 (\<lambda>index. do {
          free \<leftarrow> index_get MAX_BLOCKS (entries T1) index;
          ok_or (checked_add64 (b_phys_base free) (b_phys_len free)) Overflow T1 (\<lambda>fin.
          ok_or (checked_add64 base len) Overflow T1 (\<lambda>claim_end. do {
            before \<leftarrow> sub_unsigned base (b_phys_base free);
            after \<leftarrow> sub_unsigned fin claim_end;
            (r0, s1) \<leftarrow> remember index (\<lparr>images = [], j_next_id = bt_next_id T1\<rparr>, T1);
            check r0 (snd s1) (do {
            (r, (J, T2)) \<leftarrow>
              andthen (on_table (replace_step index (released free)) s1) (\<lambda>_ s2.
              andthen (when_step (before \<noteq> 0) (journal_part (free_request (b_phys_base free) before)) s2) (\<lambda>_ s3.
              andthen (journal_place (request\<lparr>b_status := COMMITTED, b_reserved := len, b_committed := len\<rparr>) s3) (\<lambda>ident s4.
              andthen (when_step (after \<noteq> 0) (journal_part (free_request claim_end after)) s4) (\<lambda>_ s5.
              ok ident s5))));
            (case r of
               Inr ident \<Rightarrow> ok ident T2
             | Inl e \<Rightarrow> do {
                 T3 \<leftarrow> rollback J (T2\<lparr>hot := (hot T2)\<lparr>claim_rollbacks := wrapping_add64 (claim_rollbacks (hot T2)) 1\<rparr>\<rparr>);
                 err e T3
               })
            })
          }))
        })
      })"

definition block_retag :: "block \<Rightarrow> block_table \<Rightarrow> nat step" where
  "block_retag request T =
     (let base = b_phys_base request; len = b_phys_len request in
      if len = 0 \<or> checked_add64 base len = None then err EmptyRange T
      else do {
        (at, T1) \<leftarrow> block_containing base len False T;
        ok_or at NotFound T1 (\<lambda>index. do {
          b \<leftarrow> index_get MAX_BLOCKS (entries T1) index;
          ok_or (checked_add64 (b_phys_base b) (b_phys_len b)) Overflow T1 (\<lambda>block_end.
          ok_or (checked_add64 base len) Overflow T1 (\<lambda>fin. do {
            before \<leftarrow> sub_unsigned base (b_phys_base b);
            after \<leftarrow> sub_unsigned block_end fin;
            let request1 = request\<lparr>
              b_reserved := if b_status request = FREE \<or> b_status request = RELEASED then 0 else len,
              b_committed := if b_status request = COMMITTED \<or> b_status request = MAPPED then len else 0\<rparr>;
            (r0, s1) \<leftarrow> remember index (\<lparr>images = [], j_next_id = bt_next_id T1\<rparr>, T1);
            check r0 (snd s1) (do {
            (r, (J, T2)) \<leftarrow>
              andthen (on_table (replace_step index (released b)) s1) (\<lambda>_ s2.
              andthen (when_step (before \<noteq> 0) (journal_part (part_request b (b_phys_base b) before)) s2) (\<lambda>_ s3.
              andthen (journal_place request1 s3) (\<lambda>ident s4.
              andthen (when_step (after \<noteq> 0) (journal_part (part_request b fin after)) s4) (\<lambda>_ s5.
              andthen (on_table (\<lambda>T. do { T1 \<leftarrow> block_coalesce T; ok () T1 }) s5) (\<lambda>_ s6.
              ok ident s6)))));
            (case r of
               Inr ident \<Rightarrow> ok ident T2
             | Inl e \<Rightarrow> do { T3 \<leftarrow> rollback J T2; err e T3 })
            })
          }))
        })
      })"

end
