(* ===== verification/Block_Release.thy ===== *)
theory Block_Release
  imports Block_Catalogue
begin

text \<open>
  Release plans, updates, queries, the self-check and the exported entry points of the block
  catalogue, \<open>src/Rust/memory/blocks.rs\<close>. A plan holds the values to write, as the code's fixed
  arrays of three do, so the table may change only between preparation and completion by the plan
  itself.
\<close>

section \<open>Release plans\<close>

record release_plan =
  target_index :: nat
  target_released :: block
  plan_writes :: "(nat \<times> block) list"
  merge_primary :: "(nat \<times> block) option"
  merge_secondary :: "(nat \<times> block) option"
  next_id_after :: nat
  plan_active :: bool

definition plan_new :: "nat \<Rightarrow> block \<Rightarrow> nat \<Rightarrow> release_plan" where
  "plan_new index entry next1 = \<lparr>target_index = index, target_released = released entry, plan_writes = [],
     merge_primary = None, merge_secondary = None, next_id_after = next1, plan_active = False\<rparr>"

definition free_left :: "nat \<Rightarrow> nat \<Rightarrow> block_table \<Rightarrow> (nat \<times> block) option step" where
  "free_left base ignore T = do {
     (lo, T1) \<leftarrow> predecessor_before base ignore T;
     (case lo of
        None \<Rightarrow> ok None T1
      | Some index \<Rightarrow> do {
          b \<leftarrow> index_get MAX_BLOCKS (entries T1) index;
          ok_or (checked_add64 (b_phys_base b) (b_phys_len b)) Overflow T1 (\<lambda>entry_end.
            ok (if entry_end \<noteq> base \<or> \<not> canonical_free b then None else Some (index, b)) T1)
        })
   }"

definition free_right :: "nat \<Rightarrow> nat \<Rightarrow> block_table \<Rightarrow> ((nat \<times> block) option \<times> block_table) outcome" where
  "free_right fin ignore T = do {
     (hi, T1) \<leftarrow> avl_lower_bound fin T;
     (hi1, T2) \<leftarrow> (case hi of
         None \<Rightarrow> Some (None, T1)
       | Some index \<Rightarrow> do {
           b \<leftarrow> index_get MAX_BLOCKS (entries T1) index;
           if b_id b = ignore then avl_successor index T1 else Some (Some index, T1)
         });
     (case hi1 of
        None \<Rightarrow> Some (None, T2)
      | Some index \<Rightarrow> do {
          b \<leftarrow> index_get MAX_BLOCKS (entries T2) index;
          Some (if b_phys_base b \<noteq> fin \<or> \<not> canonical_free b then None else Some (index, b), T2)
        })
   }"

definition plan_free_merge :: "nat \<Rightarrow> nat \<Rightarrow> nat \<Rightarrow> release_plan \<Rightarrow> block_table \<Rightarrow> release_plan step" where
  "plan_free_merge base fin ignore plan T =
     andthen (free_left base ignore T) (\<lambda>lo T1. do {
       (hi, T2) \<leftarrow> free_right fin ignore T1;
       (case (case lo of Some x \<Rightarrow> Some x | None \<Rightarrow> hi) of
          None \<Rightarrow> ok plan T2
        | Some (primary_index, primary) \<Rightarrow>
            let merged_base = (case lo of Some (_, b) \<Rightarrow> b_phys_base b | None \<Rightarrow> base) in
            ok_or (case hi of Some (_, b) \<Rightarrow> checked_add64 (b_phys_base b) (b_phys_len b) | None \<Rightarrow> Some fin)
              Overflow T2 (\<lambda>merged_end.
            ok_or (checked_sub merged_end merged_base) Overflow T2 (\<lambda>len.
              ok (plan\<lparr>merge_primary := Some (primary_index, primary\<lparr>b_phys_base := merged_base,
                         b_phys_len := len, b_reserved := 0, b_committed := 0\<rparr>),
                       merge_secondary :=
                         (case (lo, hi) of
                            (Some (l, _), Some (r, b)) \<Rightarrow> if l \<noteq> r then Some (r, released b) else None
                          | _ \<Rightarrow> None)\<rparr>) T2)))
     })"

primrec plan_outputs ::
  "block list \<Rightarrow> nat list \<Rightarrow> nat \<Rightarrow> nat \<Rightarrow> (nat \<times> block) list \<Rightarrow> block_table \<Rightarrow> ((nat \<times> block) list \<times> nat) step" where
  "plan_outputs [] free ignore next1 acc T = ok (acc, next1) T"
| "plan_outputs (request # rest) free ignore next1 acc T =
     check (validate request) T (do {
       (over, T1) \<leftarrow> block_overlaps (b_phys_base request) (b_phys_len request) True ignore T;
       if over then err Overlap T1
       else ok_or (take_id next1) Overflow T1 (\<lambda>(ident, next2).
         plan_outputs rest free ignore next2
           (acc @ [(free ! length acc, block_entry request ident)]) T1)
     })"

definition build_release :: "nat \<Rightarrow> nat \<Rightarrow> block_table \<Rightarrow> release_plan step" where
  "build_release base len T =
     (if len = 0 then err EmptyRange T
      else ok_or (checked_add64 base len) Overflow T (\<lambda>fin. do {
        (at, T1) \<leftarrow> block_containing base len False T;
        ok_or at NotFound T1 (\<lambda>index. do {
          b \<leftarrow> index_get MAX_BLOCKS (entries T1) index;
          if b_virt_len b \<noteq> 0 \<or> b_kind b = FREE_KIND \<or> b_status b = FREE then err InvalidRange T1
          else ok_or (checked_add64 (b_phys_base b) (b_phys_len b)) Overflow T1 (\<lambda>block_end. do {
            before \<leftarrow> sub_unsigned base (b_phys_base b);
            after \<leftarrow> sub_unsigned block_end fin;
            andthen (plan_free_merge base fin (b_id b) (plan_new index b (bt_next_id T1)) T1) (\<lambda>plan T2.
              let requests =
                    (if before \<noteq> 0 then [part_request b (b_phys_base b) before] else [])
                    @ (if after \<noteq> 0 then [part_request b fin after] else [])
                    @ (if merge_primary plan = None then [free_request base len] else []);
                  (free, T3) = collect_slots (if requests \<noteq> [] then [index] else []) (length requests) index T2
              in if length free \<noteq> length requests then err TableFull T3
                 else andthen (plan_outputs requests free (b_id b) (bt_next_id T3) [] T3) (\<lambda>(writes, next1) T4.
                   ok (plan\<lparr>plan_writes := writes, next_id_after := next1\<rparr>) T4))
          })
        })
      }))"

definition prepare_release :: "nat \<Rightarrow> nat \<Rightarrow> block_table \<Rightarrow> release_plan step" where
  "prepare_release base len T = do {
     (r, T1) \<leftarrow> build_release base len T;
     if r = Inl TableFull then do {
       T2 \<leftarrow> block_coalesce T1;
       build_release base len T2
     } else Some (r, T1)
   }"

primrec replace_all :: "(nat \<times> block) list \<Rightarrow> block_table \<Rightarrow> block_table outcome" where
  "replace_all [] T = Some T"
| "replace_all (w # rest) T = do { T1 \<leftarrow> block_replace (fst w) (snd w) T; replace_all rest T1 }"

definition finish_release :: "release_plan \<Rightarrow> bool \<Rightarrow> block_table \<Rightarrow> block_table outcome" where
  "finish_release plan coalesce T = do {
     T1 \<leftarrow> block_replace (target_index plan) (target_released plan) T;
     T2 \<leftarrow> (case merge_primary plan of None \<Rightarrow> Some T1 | Some (i, b) \<Rightarrow> block_replace i b T1);
     T3 \<leftarrow> (case merge_secondary plan of None \<Rightarrow> Some T2 | Some (i, b) \<Rightarrow> block_replace i b T2);
     T4 \<leftarrow> replace_all (plan_writes plan) T3;
     let T5 = T4\<lparr>bt_next_id := next_id_after plan\<rparr>;
     if coalesce then block_coalesce T5 else Some T5
   }"

section \<open>Updates\<close>

definition lookup_or_missing :: "nat \<Rightarrow> block_table \<Rightarrow> nat step" where
  "lookup_or_missing ident T = do { (at, T1) \<leftarrow> block_by_id ident T; ok_or at NotFound T1 (\<lambda>i. ok i T1) }"

definition apply_update :: "block_update \<Rightarrow> block \<Rightarrow> block" where
  "apply_update u b0 =
     (let b1 = (if bit (u_mask u) 0 then b0\<lparr>b_kind := u_kind u\<rparr> else b0);
          b2 = (if bit (u_mask u) 1 then b1\<lparr>b_owner := u_owner u\<rparr> else b1);
          b3 = (if bit (u_mask u) 2 then b2\<lparr>b_owner_id := u_owner_id u\<rparr> else b2);
          b4 = (if bit (u_mask u) 3 then b3\<lparr>b_status := u_status u\<rparr> else b3);
          b5 = (if bit (u_mask u) 4 then b4\<lparr>b_name := u_name u\<rparr> else b4);
          b6 = (if bit (u_mask u) 5 then b5\<lparr>b_reserved := u_reserved u\<rparr> else b5)
      in if bit (u_mask u) 6 then b6\<lparr>b_committed := u_committed u\<rparr> else b6)"

definition block_update_op :: "nat \<Rightarrow> block_update \<Rightarrow> block_table \<Rightarrow> unit step" where
  "block_update_op ident u T =
     andthen (lookup_or_missing ident T) (\<lambda>index T1. do {
       b \<leftarrow> index_get MAX_BLOCKS (entries T1) index;
       if \<not> block_active b then err NotFound T1
       else let b1 = apply_update u b in
         check (validate_bytes (b_reserved b1) (b_committed b1)) T1 (replace_step index b1 T1)
     })"

definition set_committed :: "nat \<Rightarrow> nat \<Rightarrow> block_table \<Rightarrow> unit step" where
  "set_committed ident bytes T =
     block_update_op ident \<lparr>u_mask = 72, u_kind = 0, u_owner = 0,
       u_status = (if bytes = 0 then RESERVED else COMMITTED), u_owner_id = 0, u_name = '''',
       u_reserved = 0, u_committed = bytes\<rparr> T"

definition change_committed :: "nat \<Rightarrow> nat \<Rightarrow> bool \<Rightarrow> block_table \<Rightarrow> unit step" where
  "change_committed ident bytes subtract T =
     andthen (lookup_or_missing ident T) (\<lambda>index T1. do {
       b \<leftarrow> index_get MAX_BLOCKS (entries T1) index;
       (if subtract
        then ok_or (checked_sub (b_committed b) bytes) InvalidBytes T1 (\<lambda>n. set_committed ident n T1)
        else ok_or (checked_add64 (b_committed b) bytes) Overflow T1 (\<lambda>n. set_committed ident n T1))
     })"

definition block_release :: "nat \<Rightarrow> block_table \<Rightarrow> unit step" where
  "block_release ident T =
     andthen (lookup_or_missing ident T) (\<lambda>index T1. do {
       b \<leftarrow> index_get MAX_BLOCKS (entries T1) index;
       replace_step index (released b) T1
     })"

section \<open>The self-check\<close>

record validation =
  v_valid :: bool
  v_count :: nat
  v_height :: nat
  v_minimum :: "nat option"
  v_maximum :: "nat option"

definition VALIDATION_EMPTY :: validation where
  "VALIDATION_EMPTY = \<lparr>v_valid = True, v_count = 0, v_height = 0, v_minimum = None, v_maximum = None\<rparr>"

definition VALIDATION_INVALID :: validation where
  "VALIDATION_INVALID = VALIDATION_EMPTY\<lparr>v_valid := False\<rparr>"

definition block_ends_after :: "block \<Rightarrow> nat \<Rightarrow> bool" where
  "block_ends_after b limit =
     (case checked_add64 (b_phys_base b) (b_phys_len b) of None \<Rightarrow> True | Some fin \<Rightarrow> limit < fin)"

definition validate_node :: "block_table \<Rightarrow> nat \<Rightarrow> avl_node \<Rightarrow> validation \<Rightarrow> validation \<Rightarrow> validation outcome" where
  "validate_node T slot n lv rv = do {
     bad_left \<leftarrow> (case v_maximum lv of
         None \<Rightarrow> Some False
       | Some m \<Rightarrow> do {
           lt \<leftarrow> avl_less (entries T) m slot;
           Some (\<not> lt \<or> block_ends_after (entries T m) (b_phys_base (entries T slot)))
         });
     bad_right \<leftarrow> (case v_minimum rv of
         None \<Rightarrow> Some False
       | Some m \<Rightarrow> do {
           lt \<leftarrow> avl_less (entries T) slot m;
           Some (\<not> lt \<or> block_ends_after (entries T slot) (b_phys_base (entries T m)))
         });
     if bad_left \<or> bad_right then Some VALIDATION_INVALID
     else do {
       h \<leftarrow> add8 1 (max (v_height lv) (v_height rv));
       if n_height n \<noteq> h \<or> v_height lv > v_height rv + 1 \<or> v_height rv > v_height lv + 1
       then Some VALIDATION_INVALID
       else Some \<lparr>v_valid = True,
                  v_count = min (min (v_count lv + v_count rv) U32_MAX + 1) U32_MAX,
                  v_height = h,
                  v_minimum = (case v_minimum lv of Some m \<Rightarrow> Some m | None \<Rightarrow> Some slot),
                  v_maximum = (case v_maximum rv of Some m \<Rightarrow> Some m | None \<Rightarrow> Some slot)\<rparr>
     }
   }"

text \<open>The depth is checked against 64, so the recursion is bounded; it starts with 65 levels left.\<close>

fun validate_tree :: "block_table \<Rightarrow> nat option \<Rightarrow> nat \<Rightarrow> validation outcome" where
  "validate_tree T None levels = Some VALIDATION_EMPTY"
| "validate_tree T (Some slot) levels = do {
     n \<leftarrow> index_get MAX_BLOCKS (nodes T) slot;
     if levels = 0 \<or> \<not> in_tree n \<or> \<not> physical_index (entries T slot) then Some VALIDATION_INVALID
     else do {
       lv \<leftarrow> validate_tree T (n_left n) (levels - 1);
       if \<not> v_valid lv then Some VALIDATION_INVALID
       else do {
         rv \<leftarrow> validate_tree T (n_right n) (levels - 1);
         if \<not> v_valid rv then Some VALIDATION_INVALID
         else validate_node T slot n lv rv
       }
     }
   }"

primrec invariant_loop :: "block_table \<Rightarrow> nat list \<Rightarrow> nat \<Rightarrow> nat \<Rightarrow> (nat \<times> nat) option outcome" where
  "invariant_loop T [] pc ic = Some (Some (pc, ic))"
| "invariant_loop T (index # rest) pc ic = do {
     entry \<leftarrow> index_get MAX_BLOCKS (entries T) index;
     w \<leftarrow> index_get SLOT_WORDS (slots T) (index div 64);
     let free = (w AND push_bit (index mod 64) 1 \<noteq> 0);
     if free \<noteq> (\<not> b_slot_used entry \<or> b_status entry = RELEASED) then Some None
     else do {
       raw \<leftarrow> (if b_slot_used entry then raw_id T (b_id entry) else Some (Some index));
       if raw \<noteq> Some index then Some None
       else do {
         n \<leftarrow> index_get MAX_BLOCKS (nodes T) index;
         if physical_index entry \<noteq> in_tree n then Some None
         else invariant_loop T rest (if physical_index entry then min (pc + 1) U32_MAX else pc)
                (if b_slot_used entry then min (ic + 1) U32_MAX else ic)
       }
     }
   }"

definition block_invariant :: "block_table \<Rightarrow> bool outcome" where
  "block_invariant T = do {
     v \<leftarrow> validate_tree T (root T) 65;
     if \<not> v_valid v \<or> v_count v \<noteq> physical_count T then Some False
     else do {
       counts \<leftarrow> invariant_loop T [0..<MAX_BLOCKS] 0 0;
       Some (case counts of
           None \<Rightarrow> False
         | Some (pc, ic) \<Rightarrow> pc = physical_count T \<and> ic = id_count T)
     }
   }"

section \<open>Summaries\<close>

record block_summary =
  total_slots_used :: nat
  active_blocks :: nat
  released_blocks :: nat
  error_blocks :: nat
  physical_bytes :: nat
  virtual_bytes :: nat
  reserved_bytes :: nat
  committed_bytes :: nat
  free_physical_bytes :: nat
  largest_free_phys_base :: nat
  largest_free_phys_len :: nat
  by_kind :: "nat \<Rightarrow> nat"
  by_owner :: "nat \<Rightarrow> nat"
  by_status :: "nat \<Rightarrow> nat"
  summary_overflow :: bool

definition SUMMARY_EMPTY :: block_summary where
  "SUMMARY_EMPTY = \<lparr>total_slots_used = 0, active_blocks = 0, released_blocks = 0, error_blocks = 0,
     physical_bytes = 0, virtual_bytes = 0, reserved_bytes = 0, committed_bytes = 0, free_physical_bytes = 0,
     largest_free_phys_base = 0, largest_free_phys_len = 0, by_kind = (\<lambda>_. 0), by_owner = (\<lambda>_. 0),
     by_status = (\<lambda>_. 0), summary_overflow = False\<rparr>"

definition count_in :: "nat \<Rightarrow> (nat \<Rightarrow> nat) \<Rightarrow> nat \<Rightarrow> bool \<Rightarrow> ((nat \<Rightarrow> nat) \<times> bool) outcome" where
  "count_in n f i over = do {
     v \<leftarrow> index_get n f i;
     let (v1, over1) = add_summary v 1 over;
     f1 \<leftarrow> index_set n f i v1;
     Some (f1, over1)
   }"

definition summary_block :: "block \<Rightarrow> block_summary \<Rightarrow> block_summary outcome" where
  "summary_block b s0 =
     (if \<not> b_slot_used b then Some s0
      else
        let s = s0\<lparr>total_slots_used := total_slots_used s0 + 1\<rparr> in
        if b_status b = RELEASED then Some (s\<lparr>released_blocks := released_blocks s + 1\<rparr>)
        else do {
          let (p, o1) = add_summary (physical_bytes s) (b_phys_len b) (summary_overflow s);
          let (v, o2) = add_summary (virtual_bytes s) (b_virt_len b) o1;
          let (r, o3) = add_summary (reserved_bytes s) (b_reserved b) o2;
          let (c, o4) = add_summary (committed_bytes s) (b_committed b) o3;
          (k, o5) \<leftarrow> count_in 14 (by_kind s) (b_kind b) o4;
          (w, o6) \<leftarrow> count_in 8 (by_owner s) (b_owner b) o5;
          (t, o7) \<leftarrow> count_in 7 (by_status s) (b_status b) o6;
          let s1 = s\<lparr>active_blocks := active_blocks s + 1,
                     error_blocks := error_blocks s + (if b_status b = 6 then 1 else 0),
                     physical_bytes := p, virtual_bytes := v, reserved_bytes := r, committed_bytes := c,
                     by_kind := k, by_owner := w, by_status := t, summary_overflow := o7\<rparr>;
          if b_kind b = FREE_KIND \<and> b_status b = FREE \<and> b_phys_len b \<noteq> 0 then
            let (f, o8) = add_summary (free_physical_bytes s1) (b_phys_len b) (summary_overflow s1);
                s2 = s1\<lparr>free_physical_bytes := f, summary_overflow := o8\<rparr>
            in Some (if largest_free_phys_len s2 < b_phys_len b
                     then s2\<lparr>largest_free_phys_base := b_phys_base b, largest_free_phys_len := b_phys_len b\<rparr>
                     else s2)
          else Some s1
        })"

primrec summary_loop :: "(nat \<Rightarrow> block) \<Rightarrow> nat list \<Rightarrow> block_summary \<Rightarrow> block_summary outcome" where
  "summary_loop ents [] s = Some s"
| "summary_loop ents (i # rest) s = do { s1 \<leftarrow> summary_block (ents i) s; summary_loop ents rest s1 }"

definition block_summary_of :: "block_table \<Rightarrow> block_summary outcome" where
  "block_summary_of T = summary_loop (entries T) [0..<MAX_BLOCKS] SUMMARY_EMPTY"

section \<open>Entry points\<close>

definition with_table :: "(block_table \<Rightarrow> 'a step) \<Rightarrow> block_table \<Rightarrow> 'a step" where
  "with_table operation T = (if \<not> initialized T then err NotInitialized T else operation T)"

definition result_code :: "block_error + 'a \<Rightarrow> nat" where
  "result_code r = (case r of Inl e \<Rightarrow> error_code e | Inr _ \<Rightarrow> 0)"

text \<open>The code of a result and the value written to the output on success.\<close>

definition output_id :: "'a step \<Rightarrow> ((nat \<times> 'a option) \<times> block_table) outcome" where
  "output_id s = do {
     (r, T) \<leftarrow> s;
     Some ((result_code r, case r of Inl _ \<Rightarrow> None | Inr v \<Rightarrow> Some v), T)
   }"

primrec init_entries :: "memory_entry list \<Rightarrow> block_table \<Rightarrow> (bool \<times> block_table) outcome" where
  "init_entries [] T = Some (True, T)"
| "init_entries (e # rest) T =
     (if \<not> me_valid e \<or> me_length e = 0 then init_entries rest T
      else do {
        (r, T1) \<leftarrow> with_table (block_register (block_boot_request e)) T;
        (case r of Inl _ \<Rightarrow> Some (False, T1) | Inr _ \<Rightarrow> init_entries rest T1)
      })"

definition blocks_init :: "memory_entry list \<Rightarrow> block_table \<Rightarrow> (bool \<times> block_table) outcome" where
  "blocks_init memory T = init_entries memory ((table_reset T)\<lparr>initialized := True\<rparr>)"

definition blocks_register :: "block \<Rightarrow> block_table \<Rightarrow> ((nat \<times> nat option) \<times> block_table) outcome" where
  "blocks_register request T = output_id (with_table (block_register request) T)"

definition blocks_claim :: "block \<Rightarrow> block_table \<Rightarrow> nat step" where
  "blocks_claim request T = with_table (block_claim request) T"

definition blocks_range :: "block \<Rightarrow> bool \<Rightarrow> block_table \<Rightarrow> ((nat \<times> nat option) \<times> block_table) outcome" where
  "blocks_range request retag T =
     output_id (with_table (if retag then block_retag request else block_claim request) T)"

definition blocks_prefix :: "nat \<Rightarrow> nat \<Rightarrow> bool \<Rightarrow> block_table \<Rightarrow> (nat \<times> block_table) outcome" where
  "blocks_prefix base max_len free T = do {
     (r, T1) \<leftarrow> with_table (\<lambda>T. do { (n, T2) \<leftarrow> block_prefix base max_len free T; ok n T2 }) T;
     Some (case r of Inl _ \<Rightarrow> 0 | Inr n \<Rightarrow> n, T1)
   }"

definition blocks_prepare :: "nat \<Rightarrow> nat \<Rightarrow> block_table \<Rightarrow> ((nat \<times> release_plan option) \<times> block_table) outcome" where
  "blocks_prepare base len T =
     output_id (andthen (with_table (prepare_release base len) T) (\<lambda>plan T1. ok (plan\<lparr>plan_active := True\<rparr>) T1))"

definition blocks_finish ::
  "release_plan \<Rightarrow> bool \<Rightarrow> bool \<Rightarrow> block_table \<Rightarrow> (release_plan \<times> block_table) outcome" where
  "blocks_finish plan coalesce cancel T =
     (if cancel \<and> \<not> plan_active plan then Some (plan, T)
      else do {
        assert (plan_active plan);
        T1 \<leftarrow> (if cancel then Some T else finish_release plan coalesce T);
        Some (plan\<lparr>plan_active := False\<rparr>, T1)
      })"

definition blocks_change :: "nat \<Rightarrow> nat \<Rightarrow> nat \<Rightarrow> block_update \<Rightarrow> block_table \<Rightarrow> (nat \<times> block_table) outcome" where
  "blocks_change ident operation bytes u T = do {
     (r, T1) \<leftarrow> with_table (\<lambda>T.
       if operation = 0 then block_update_op ident u T
       else if operation = 1 then set_committed ident bytes T
       else if operation = 2 then change_committed ident bytes False T
       else if operation = 3 then change_committed ident bytes True T
       else if operation = 4 then block_release ident T
       else err InvalidRange T) T;
     Some (result_code r, T1)
   }"

definition blocks_coalesce :: "block_table \<Rightarrow> block_table outcome" where
  "blocks_coalesce T = do {
     (_, T1) \<leftarrow> with_table (\<lambda>T. do { T2 \<leftarrow> block_coalesce T; ok () T2 }) T;
     Some T1
   }"

primrec read_from :: "(nat \<Rightarrow> block) \<Rightarrow> nat \<Rightarrow> nat \<Rightarrow> nat \<Rightarrow> nat \<Rightarrow> nat list \<Rightarrow> block option" where
  "read_from ents operation owner number seen [] = None"
| "read_from ents operation owner number seen (i # rest) =
     (let b = ents i in
      if \<not> block_active b then read_from ents operation owner number seen rest
      else
        let hit = (if operation = 0 then b_owner b = owner \<and> b_owner_id b = number
                   else if operation = 1 then b_virt_len b \<noteq> 0
                     \<and> (case checked_add64 (b_virt_base b) (b_virt_len b) of
                          None \<Rightarrow> False | Some fin \<Rightarrow> b_virt_base b \<le> number \<and> number < fin)
                   else operation = 2 \<and> seen = number);
            seen1 = (if operation = 2 then seen + 1 else seen)
        in if hit then Some b else read_from ents operation owner number seen1 rest)"

definition blocks_read :: "nat \<Rightarrow> nat \<Rightarrow> nat \<Rightarrow> block_table \<Rightarrow> block option" where
  "blocks_read operation owner number T =
     (if \<not> initialized T then None else read_from (entries T) operation owner number 0 [0..<MAX_BLOCKS])"

definition blocks_count :: "nat \<Rightarrow> nat \<Rightarrow> block_table \<Rightarrow> nat" where
  "blocks_count owner owner_id T =
     (if \<not> initialized T then 0
      else length (filter (\<lambda>i. block_active (entries T i) \<and> b_owner (entries T i) = owner
                              \<and> b_owner_id (entries T i) = owner_id) [0..<MAX_BLOCKS]))"

definition blocks_summary :: "block_table \<Rightarrow> block_summary outcome" where
  "blocks_summary T = (if \<not> initialized T then Some SUMMARY_EMPTY else block_summary_of T)"

definition blocks_stats :: "block_table \<Rightarrow> hot_stats" where
  "blocks_stats T = (if \<not> initialized T then HOT_EMPTY
     else (hot T)\<lparr>physical_index_entries := physical_count T, id_index_entries := id_count T\<rparr>)"

definition blocks_invariant :: "block_table \<Rightarrow> bool outcome" where
  "blocks_invariant T = (if \<not> initialized T then Some False else block_invariant T)"

end
