(* ===== verification/Block_Avl.thy ===== *)
theory Block_Avl
  imports Block_Tree
begin

text \<open>
  Correctness of the AVL index of \<open>Block_Tree\<close>. Abstract trees with their balance lemmas come first;
  \<open>holds\<close> relates a tree to the links of the node array, and the rotations, the rebalancing step,
  insertion, the detaching of the minimum and removal are shown to compute the abstract operations
  and to leave all other nodes alone. \<open>avl_index T xs\<close> states it for a table, with the slots \<open>xs\<close> in
  order; a table has at most 8192 slots, so a balanced tree has height at most 27, which bounds every
  search and excludes an overflow of the 8-bit heights.
\<close>

section \<open>The abstract trees\<close>

datatype avl = Tip | Bin avl nat avl

primrec ht :: "avl \<Rightarrow> nat" where
  "ht Tip = 0"
| "ht (Bin l x r) = 1 + max (ht l) (ht r)"

primrec inorder :: "avl \<Rightarrow> nat list" where
  "inorder Tip = []"
| "inorder (Bin l x r) = inorder l @ x # inorder r"

primrec balanced :: "avl \<Rightarrow> bool" where
  "balanced Tip = True"
| "balanced (Bin l x r) \<longleftrightarrow> ht l \<le> ht r + 1 \<and> ht r \<le> ht l + 1 \<and> balanced l \<and> balanced r"

fun rot_right :: "avl \<Rightarrow> avl" where
  "rot_right (Bin (Bin a y b) x c) = Bin a y (Bin b x c)"
| "rot_right t = t"

fun rot_left :: "avl \<Rightarrow> avl" where
  "rot_left (Bin a x (Bin b y c)) = Bin (Bin a x b) y c"
| "rot_left t = t"

fun left_heavy :: "avl \<Rightarrow> bool" where
  "left_heavy (Bin a x b) \<longleftrightarrow> ht b < ht a"
| "left_heavy Tip = False"

fun right_heavy :: "avl \<Rightarrow> bool" where
  "right_heavy (Bin a x b) \<longleftrightarrow> ht a < ht b"
| "right_heavy Tip = False"

definition bal :: "avl \<Rightarrow> nat \<Rightarrow> avl \<Rightarrow> avl" where
  "bal l x r =
     (if ht l > ht r + 1 then rot_right (Bin (if right_heavy l then rot_left l else l) x r)
      else if ht r > ht l + 1 then rot_left (Bin l x (if left_heavy r then rot_right r else r))
      else Bin l x r)"

primrec ins :: "(nat \<Rightarrow> nat \<Rightarrow> bool) \<Rightarrow> nat \<Rightarrow> avl \<Rightarrow> avl" where
  "ins lt s Tip = Bin Tip s Tip"
| "ins lt s (Bin l x r) = (if lt s x then bal (ins lt s l) x r else bal l x (ins lt s r))"

fun dmin :: "avl \<Rightarrow> avl \<times> nat" where
  "dmin Tip = (Tip, 0)"
| "dmin (Bin Tip x r) = (r, x)"
| "dmin (Bin l x r) = (let (l', m) = dmin l in (bal l' x r, m))"

fun join :: "avl \<Rightarrow> avl \<Rightarrow> avl" where
  "join Tip r = r"
| "join l Tip = l"
| "join l r = (let (r', m) = dmin r in bal l m r')"

primrec del :: "(nat \<Rightarrow> nat \<Rightarrow> bool) \<Rightarrow> nat \<Rightarrow> avl \<Rightarrow> avl" where
  "del lt s Tip = Tip"
| "del lt s (Bin l x r) =
     (if lt s x then bal (del lt s l) x r else if lt x s then bal l x (del lt s r) else join l r)"

primrec holds :: "(nat \<Rightarrow> avl_node) \<Rightarrow> nat option \<Rightarrow> avl \<Rightarrow> bool" where
  "holds ns rt Tip \<longleftrightarrow> rt = None"
| "holds ns rt (Bin l x r) \<longleftrightarrow> rt = Some x \<and> x < MAX_BLOCKS \<and> in_tree (ns x)
     \<and> n_height (ns x) = ht (Bin l x r) \<and> holds ns (n_left (ns x)) l \<and> holds ns (n_right (ns x)) r"

text \<open>A node whose children are trees, its own height not yet up to date.\<close>

definition links :: "(nat \<Rightarrow> avl_node) \<Rightarrow> nat \<Rightarrow> avl \<Rightarrow> avl \<Rightarrow> bool" where
  "links ns x l r \<longleftrightarrow> x < MAX_BLOCKS \<and> in_tree (ns x) \<and> holds ns (n_left (ns x)) l \<and> holds ns (n_right (ns x)) r
     \<and> distinct (inorder l @ x # inorder r)"

definition before :: "(nat \<Rightarrow> block) \<Rightarrow> nat \<Rightarrow> nat \<Rightarrow> bool" where
  "before ents a b \<longleftrightarrow> b_phys_base (ents a) < b_phys_base (ents b)
     \<or> b_phys_base (ents a) = b_phys_base (ents b) \<and> a < b"

abbreviation ordered :: "(nat \<Rightarrow> block) \<Rightarrow> nat list \<Rightarrow> bool" where
  "ordered ents \<equiv> sorted_wrt (before ents)"

text \<open>\<open>avl_index T xs\<close>: the node array of \<open>T\<close> is a balanced search tree with the slots \<open>xs\<close>, in order.\<close>

definition avl_index :: "block_table \<Rightarrow> nat list \<Rightarrow> bool" where
  "avl_index T xs \<longleftrightarrow> (\<exists>t. holds (nodes T) (root T) t \<and> balanced t \<and> inorder t = xs \<and> ordered (entries T) xs)
     \<and> physical_count T = length xs \<and> (\<forall>i<MAX_BLOCKS. in_tree (nodes T i) \<longleftrightarrow> i \<in> set xs)"

text \<open>\<open>low_steps\<close>: the recorded maximum of the search steps never exceeds the height bound.\<close>

definition low_steps :: "block_table \<Rightarrow> bool" where
  "low_steps T \<longleftrightarrow> physical_step_max (hot T) \<le> 27"

definition sample_index :: block_table where
  "sample_index = TABLE_EMPTY\<lparr>nodes := (\<lambda>i. if i = 5 then NODE_EMPTY\<lparr>in_tree := True\<rparr> else NODE_EMPTY),
     entries := (\<lambda>i. BLOCK_EMPTY\<lparr>b_phys_base := 4096 * i\<rparr>), root := Some 5, physical_count := 1\<rparr>"

lemma inorder_rot_right [simp]: "inorder (rot_right t) = inorder t"
  by (cases t rule: rot_right.cases) simp_all

lemma inorder_rot_left [simp]: "inorder (rot_left t) = inorder t"
  by (cases t rule: rot_left.cases) simp_all

lemma inorder_bal [simp]: "inorder (bal l x r) = inorder l @ x # inorder r"
  by (simp add: bal_def)

text \<open>Rebalancing two balanced trees whose heights differ by at most two.\<close>

lemma bal_ok:
  assumes "balanced l" and "balanced r" and "ht l \<le> ht r + 2" and "ht r \<le> ht l + 2"
  shows "balanced (bal l x r)" and "ht (bal l x r) \<le> 1 + max (ht l) (ht r)" and "max (ht l) (ht r) \<le> ht (bal l x r)"
    and "ht l \<le> ht r + 1 \<and> ht r \<le> ht l + 1 \<longrightarrow> ht (bal l x r) = 1 + max (ht l) (ht r)"
proof -
  have "balanced (bal l x r) \<and> ht (bal l x r) \<le> 1 + max (ht l) (ht r) \<and> max (ht l) (ht r) \<le> ht (bal l x r)"
  proof -
    consider (left) "ht l = ht r + 2" | (right) "ht r = ht l + 2" | (even) "ht l \<le> ht r + 1" "ht r \<le> ht l + 1"
      using assms(3,4) by linarith
    then show ?thesis
    proof cases
      case left
      then obtain a y b where l: "l = Bin a y b" by (cases l) auto
      show ?thesis
      proof (cases "ht a < ht b")
        case True
        then obtain c z d where b: "b = Bin c z d" by (cases b) auto
        show ?thesis using assms(1,2) left l b True by (auto simp: bal_def max_def split: if_splits)
      next
        case False
        then show ?thesis using assms(1,2) left l by (auto simp: bal_def max_def split: if_splits)
      qed
    next
      case right
      then obtain a y b where r: "r = Bin a y b" by (cases r) auto
      show ?thesis
      proof (cases "ht b < ht a")
        case True
        then obtain c z d where a: "a = Bin c z d" by (cases a) auto
        show ?thesis using assms(1,2) right r a True by (auto simp: bal_def max_def split: if_splits)
      next
        case False
        then show ?thesis using assms(1,2) right r by (auto simp: bal_def max_def split: if_splits)
      qed
    next
      case even
      then show ?thesis using assms(1,2) by (auto simp: bal_def)
    qed
  qed
  then show "balanced (bal l x r)" and "ht (bal l x r) \<le> 1 + max (ht l) (ht r)"
    and "max (ht l) (ht r) \<le> ht (bal l x r)" by auto
  show "ht l \<le> ht r + 1 \<and> ht r \<le> ht l + 1 \<longrightarrow> ht (bal l x r) = 1 + max (ht l) (ht r)"
    by (auto simp: bal_def)
qed

lemma ins_ok: "balanced t \<Longrightarrow> balanced (ins lt s t) \<and> ht t \<le> ht (ins lt s t) \<and> ht (ins lt s t) \<le> ht t + 1"
proof (induction t)
  case (Bin l x r)
  have a: "balanced l" "balanced r" "ht l \<le> ht r + 1" "ht r \<le> ht l + 1" using Bin.prems by auto
  show ?case
  proof (cases "lt s x")
    case True
    have i: "balanced (ins lt s l)" "ht l \<le> ht (ins lt s l)" "ht (ins lt s l) \<le> ht l + 1" using Bin.IH(1) a by auto
    have "ht (ins lt s l) \<le> ht r + 2" "ht r \<le> ht (ins lt s l) + 2" using i a by auto
    from bal_ok [OF i(1) a(2) this, of x] show ?thesis using True i a by (auto simp: max_def split: if_splits)
  next
    case False
    have i: "balanced (ins lt s r)" "ht r \<le> ht (ins lt s r)" "ht (ins lt s r) \<le> ht r + 1" using Bin.IH(2) a by auto
    have "ht l \<le> ht (ins lt s r) + 2" "ht (ins lt s r) \<le> ht l + 2" using i a by auto
    from bal_ok [OF a(1) i(1) this, of x] show ?thesis using False i a by (auto simp: max_def split: if_splits)
  qed
qed simp

lemma dmin_ok:
  assumes "t \<noteq> Tip" and "balanced t"
  shows "balanced (fst (dmin t)) \<and> ht (fst (dmin t)) \<le> ht t \<and> ht t \<le> ht (fst (dmin t)) + 1
     \<and> inorder t = snd (dmin t) # inorder (fst (dmin t))"
  using assms
proof (induction t rule: dmin.induct)
  case (3 a y b x r)
  let ?l = "Bin a y b"
  obtain l' m where d: "dmin ?l = (l', m)" by force
  have a: "balanced ?l" "balanced r" "ht ?l \<le> ht r + 1" "ht r \<le> ht ?l + 1" using 3(3) by auto
  have i: "balanced l'" "ht l' \<le> ht ?l" "ht ?l \<le> ht l' + 1" "inorder ?l = m # inorder l'" using 3(1) a(1) d by auto
  have "ht l' \<le> ht r + 2" "ht r \<le> ht l' + 2" using i a by auto
  note b = bal_ok [OF i(1) a(2) this, of x]
  have e: "dmin (Bin ?l x r) = (bal l' x r, m)" using d by simp
  define p where "p = ht ?l"
  have hh: "ht (Bin ?l x r) = 1 + max p (ht r)" by (simp add: p_def)
  have "ht (bal l' x r) \<le> ht (Bin ?l x r)" unfolding hh using b(2) i(2) unfolding p_def [symmetric] by linarith
  moreover have "ht (Bin ?l x r) \<le> ht (bal l' x r) + 1"
    unfolding hh using b(3,4) i(2,3) a(3,4) unfolding p_def [symmetric] by (auto simp: max_def split: if_splits)
  ultimately show ?case unfolding e using b(1) i(4) by simp
qed auto

lemma join_ok:
  assumes "balanced l" and "balanced r" and "ht l \<le> ht r + 1" and "ht r \<le> ht l + 1"
  shows "balanced (join l r) \<and> max (ht l) (ht r) \<le> ht (join l r) \<and> ht (join l r) \<le> 1 + max (ht l) (ht r)
     \<and> inorder (join l r) = inorder l @ inorder r"
proof (cases "l = Tip \<or> r = Tip")
  case True
  then show ?thesis using assms by (cases l; cases r) auto
next
  case False
  then obtain a y b where l: "l = Bin a y b" by (cases l) auto
  obtain c z d where r: "r = Bin c z d" using False by (cases r) auto
  obtain r' m where dm: "dmin r = (r', m)" by force
  have i: "balanced r'" "ht r' \<le> ht r" "ht r \<le> ht r' + 1" "inorder r = m # inorder r'"
    using dmin_ok [of r] assms(2) r dm by auto
  have "ht l \<le> ht r' + 2" "ht r' \<le> ht l + 2" using i assms by auto
  note b = bal_ok [OF assms(1) i(1) this, of m]
  have j: "join l r = bal l m r'" using l r dm by simp
  have "max (ht l) (ht r) \<le> ht (bal l m r')"
    using b(3,4) i(2,3) assms(3,4) by (auto simp: max_def split: if_splits)
  then show ?thesis unfolding j using b i by auto
qed

lemma del_ok: "balanced t \<Longrightarrow> balanced (del lt s t) \<and> ht (del lt s t) \<le> ht t \<and> ht t \<le> ht (del lt s t) + 1"
proof (induction t)
  case (Bin l x r)
  have a: "balanced l" "balanced r" "ht l \<le> ht r + 1" "ht r \<le> ht l + 1" using Bin.prems by auto
  consider (lt) "lt s x" | (gt) "\<not> lt s x" "lt x s" | (eq) "\<not> lt s x" "\<not> lt x s" by blast
  then show ?case
  proof cases
    case lt
    have i: "balanced (del lt s l)" "ht (del lt s l) \<le> ht l" "ht l \<le> ht (del lt s l) + 1" using Bin.IH(1) a by auto
    have "ht (del lt s l) \<le> ht r + 2" "ht r \<le> ht (del lt s l) + 2" using i a by auto
    from bal_ok [OF i(1) a(2) this, of x] show ?thesis using lt i a by (auto simp: max_def split: if_splits)
  next
    case gt
    have i: "balanced (del lt s r)" "ht (del lt s r) \<le> ht r" "ht r \<le> ht (del lt s r) + 1" using Bin.IH(2) a by auto
    have "ht l \<le> ht (del lt s r) + 2" "ht (del lt s r) \<le> ht l + 2" using i a by auto
    from bal_ok [OF a(1) i(1) this, of x] show ?thesis using gt i a by (auto simp: max_def split: if_splits)
  next
    case eq
    then show ?thesis using join_ok [OF a] by auto
  qed
qed simp

text \<open>A balanced tree is low: its node count grows with the square root of two to its height.\<close>

lemma balanced_size: "balanced t \<Longrightarrow> 2 ^ (ht t div 2) \<le> length (inorder t) + 1"
proof (induction t)
  case (Bin l x r)
  have a: "balanced l" "balanced r" "ht l \<le> ht r + 1" "ht r \<le> ht l + 1" using Bin.prems by auto
  define h where "h = ht (Bin l x r)"
  have h: "h = 1 + max (ht l) (ht r)" by (simp add: h_def)
  show ?case
  proof (cases "h = 1")
    case True
    then show ?thesis unfolding h_def [symmetric] by simp
  next
    case False
    then have l2: "h div 2 - 1 \<le> ht l div 2" and r2: "h div 2 - 1 \<le> ht r div 2" using h a(3,4) by (auto simp: max_def split: if_splits)
    have "(2::nat) ^ (h div 2 - 1) \<le> length (inorder l) + 1"
      by (rule order_trans [OF power_increasing [OF l2] Bin.IH(1) [OF a(1)]]) simp
    moreover have "(2::nat) ^ (h div 2 - 1) \<le> length (inorder r) + 1"
      by (rule order_trans [OF power_increasing [OF r2] Bin.IH(2) [OF a(2)]]) simp
    moreover have "(2::nat) ^ (h div 2) = 2 ^ (h div 2 - 1) + 2 ^ (h div 2 - 1)"
    proof -
      have "h div 2 = Suc (h div 2 - 1)" using False h by (simp add: max_def split: if_splits)
      then show ?thesis by (metis mult_2 power_Suc)
    qed
    ultimately show ?thesis unfolding h_def [symmetric] by simp
  qed
qed simp

section \<open>Trees in the node array\<close>

lemma holds_frame:
  "holds ns rt t \<Longrightarrow> (\<And>x. x \<in> set (inorder t) \<Longrightarrow> ns' x = ns x) \<Longrightarrow> holds ns' rt t"
  by (induction t arbitrary: rt) auto

lemma holds_upd [simp]: "x \<notin> set (inorder t) \<Longrightarrow> holds (ns(x := n)) rt t \<longleftrightarrow> holds ns rt t"
  by (induction t arbitrary: rt) auto

lemma holds_height [simp]: "holds ns rt t \<Longrightarrow> avl_height ns rt = Some (ht t)"
  by (cases t) (auto simp: avl_height_def)

lemma holds_lt: "holds ns rt t \<Longrightarrow> x \<in> set (inorder t) \<Longrightarrow> x < MAX_BLOCKS \<and> in_tree (ns x)"
  by (induction t arbitrary: rt) auto

lemma update_height_ok:
  assumes "links ns x l r" and "ht l \<le> 254" and "ht r \<le> 254"
  shows "update_height x ns = Some (ns(x := (ns x)\<lparr>n_height := ht (Bin l x r)\<rparr>))"
    and "holds (ns(x := (ns x)\<lparr>n_height := ht (Bin l x r)\<rparr>)) (Some x) (Bin l x r)"
  using assms by (auto simp: update_height_def links_def add8_def)

lemma rotate_right_ok:
  assumes x: "x < MAX_BLOCKS" "in_tree (ns x)" "n_left (ns x) = Some y"
    and y: "y < MAX_BLOCKS" "in_tree (ns y)"
    and sub: "holds ns (n_left (ns y)) a" "holds ns (n_right (ns y)) b" "holds ns (n_right (ns x)) c"
    and dist: "distinct (inorder a @ y # inorder b @ x # inorder c)"
    and small: "ht a \<le> 250" "ht b \<le> 250" "ht c \<le> 250"
  shows "\<exists>ns'. rotate_right x ns = Some (y, ns') \<and> holds ns' (Some y) (Bin a y (Bin b x c))
     \<and> (\<forall>z. z \<noteq> x \<and> z \<noteq> y \<longrightarrow> ns' z = ns z)"
proof -
  let ?ns1 = "ns(y := (ns y)\<lparr>n_right := Some x\<rparr>)"
  let ?ns2 = "?ns1(x := (ns x)\<lparr>n_left := n_right (ns y)\<rparr>)"
  let ?ns3 = "?ns2(x := (?ns2 x)\<lparr>n_height := ht (Bin b x c)\<rparr>)"
  let ?ns4 = "?ns3(y := (?ns3 y)\<lparr>n_height := ht (Bin a y (Bin b x c))\<rparr>)"
  have ne: "x \<noteq> y" "x \<notin> set (inorder a)" "x \<notin> set (inorder b)" "x \<notin> set (inorder c)"
    "y \<notin> set (inorder a)" "y \<notin> set (inorder b)" "y \<notin> set (inorder c)" using dist by auto
  have l1: "links ?ns2 x b c" using x y sub ne dist by (auto simp: links_def)
  have u1: "update_height x ?ns2 = Some ?ns3" and h1: "holds ?ns3 (Some x) (Bin b x c)"
    using update_height_ok [OF l1] small by auto
  have yn: "n_left (?ns3 y) = n_left (ns y)" "n_right (?ns3 y) = Some x" "in_tree (?ns3 y)" using ne y by auto
  have ha: "holds ?ns3 (n_left (?ns3 y)) a" unfolding yn(1) using sub(1) ne by simp
  have l2: "links ?ns3 y a (Bin b x c)"
    unfolding links_def using ha h1 yn y(1) dist by auto
  have small2: "ht (Bin b x c) \<le> 254" using small by simp
  have u2: "update_height y ?ns3 = Some ?ns4" and h2: "holds ?ns4 (Some y) (Bin a y (Bin b x c))"
    using update_height_ok [OF l2 _ small2] small(1) by auto
  have "rotate_right x ns = Some (y, ?ns4)"
    using x y ne u1 u2 by (simp add: rotate_right_def Let_def)
  then show ?thesis using h2 by auto
qed

lemma rotate_left_ok:
  assumes x: "x < MAX_BLOCKS" "in_tree (ns x)" "n_right (ns x) = Some y"
    and y: "y < MAX_BLOCKS" "in_tree (ns y)"
    and sub: "holds ns (n_left (ns x)) a" "holds ns (n_left (ns y)) b" "holds ns (n_right (ns y)) c"
    and dist: "distinct (inorder a @ x # inorder b @ y # inorder c)"
    and small: "ht a \<le> 250" "ht b \<le> 250" "ht c \<le> 250"
  shows "\<exists>ns'. rotate_left x ns = Some (y, ns') \<and> holds ns' (Some y) (Bin (Bin a x b) y c)
     \<and> (\<forall>z. z \<noteq> x \<and> z \<noteq> y \<longrightarrow> ns' z = ns z)"
proof -
  let ?ns1 = "ns(y := (ns y)\<lparr>n_left := Some x\<rparr>)"
  let ?ns2 = "?ns1(x := (ns x)\<lparr>n_right := n_left (ns y)\<rparr>)"
  let ?ns3 = "?ns2(x := (?ns2 x)\<lparr>n_height := ht (Bin a x b)\<rparr>)"
  let ?ns4 = "?ns3(y := (?ns3 y)\<lparr>n_height := ht (Bin (Bin a x b) y c)\<rparr>)"
  have ne: "x \<noteq> y" "x \<notin> set (inorder a)" "x \<notin> set (inorder b)" "x \<notin> set (inorder c)"
    "y \<notin> set (inorder a)" "y \<notin> set (inorder b)" "y \<notin> set (inorder c)" using dist by auto
  have l1: "links ?ns2 x a b" using x y sub ne dist by (auto simp: links_def)
  have u1: "update_height x ?ns2 = Some ?ns3" and h1: "holds ?ns3 (Some x) (Bin a x b)"
    using update_height_ok [OF l1] small by auto
  have yn: "n_right (?ns3 y) = n_right (ns y)" "n_left (?ns3 y) = Some x" "in_tree (?ns3 y)" using ne y by auto
  have hc: "holds ?ns3 (n_right (?ns3 y)) c" unfolding yn(1) using sub(3) ne by simp
  have l2: "links ?ns3 y (Bin a x b) c"
    unfolding links_def using hc h1 yn y(1) dist by auto
  have small2: "ht (Bin a x b) \<le> 254" using small by simp
  have u2: "update_height y ?ns3 = Some ?ns4" and h2: "holds ?ns4 (Some y) (Bin (Bin a x b) y c)"
    using update_height_ok [OF l2 small2] small(3) by auto
  have "rotate_left x ns = Some (y, ?ns4)"
    using x y ne u1 u2 by (simp add: rotate_left_def Let_def)
  then show ?thesis using h2 by auto
qed

lemma rebalance_ok:
  assumes l: "links ns x l r" and small: "ht l \<le> 240" "ht r \<le> 240"
  shows "\<exists>y ns'. rebalance x ns = Some (y, ns') \<and> holds ns' (Some y) (bal l x r)
     \<and> (\<forall>z. z \<notin> set (inorder l @ x # inorder r) \<longrightarrow> ns' z = ns z)"
proof -
  let ?ns = "ns(x := (ns x)\<lparr>n_height := ht (Bin l x r)\<rparr>)"
  have u: "update_height x ns = Some ?ns" and h: "holds ?ns (Some x) (Bin l x r)"
    using update_height_ok [OF l] small by auto
  have x: "x < MAX_BLOCKS" "in_tree (?ns x)" "holds ?ns (n_left (?ns x)) l" "holds ?ns (n_right (?ns x)) r"
    using h by auto
  have dist: "distinct (inorder l @ x # inorder r)" using l by (simp add: links_def)
  have fr: "\<forall>z. z \<noteq> x \<longrightarrow> ?ns z = ns z" by simp
  consider (left) "ht r + 1 < ht l" | (right) "ht l + 1 < ht r" "\<not> ht r + 1 < ht l" | (even) "\<not> ht r + 1 < ht l" "\<not> ht l + 1 < ht r"
    by linarith
  then show ?thesis
  proof cases
    case even
    then have "rebalance x ns = Some (x, ?ns)" using u x by (simp add: rebalance_def)
    then show ?thesis using h even fr by (auto simp: bal_def)
  next
    case left
    then obtain a y b where lt: "l = Bin a y b" by (cases l) auto
    have y: "n_left (?ns x) = Some y" "y < MAX_BLOCKS" "in_tree (?ns y)"
       "holds ?ns (n_left (?ns y)) a" "holds ?ns (n_right (?ns y)) b" using x(3) lt by auto
    have sa: "ht a \<le> 250" "ht b \<le> 250" "ht r \<le> 250" using small lt by auto
    show ?thesis
    proof (cases "ht a < ht b")
      case False
      have d: "distinct (inorder a @ y # inorder b @ x # inorder r)" using dist lt by simp
      obtain ns' where ns': "rotate_right x ?ns = Some (y, ns')" "holds ns' (Some y) (Bin a y (Bin b x r))"
          "\<forall>z. z \<noteq> x \<and> z \<noteq> y \<longrightarrow> ns' z = ?ns z"
        using rotate_right_ok [OF x(1,2) y(1,2,3,4,5) x(4) d sa] by blast
      have "rebalance x ns = Some (y, ns')"
        unfolding rebalance_def using u x y ns'(1) left False by simp
      then show ?thesis using ns'(2,3) left lt False by (auto simp: bal_def)
    next
      case True
      then obtain c w d where b: "b = Bin c w d" by (cases b) auto
      have w: "n_right (?ns y) = Some w" "w < MAX_BLOCKS" "in_tree (?ns w)"
         "holds ?ns (n_left (?ns w)) c" "holds ?ns (n_right (?ns w)) d" using y(5) b by auto
      have sc: "ht a \<le> 250" "ht c \<le> 250" "ht d \<le> 250" using sa b by auto
      have d1: "distinct (inorder a @ y # inorder c @ w # inorder d)" using dist lt b by auto
      obtain ns1 where ns1: "rotate_left y ?ns = Some (w, ns1)" "holds ns1 (Some w) (Bin (Bin a y c) w d)"
          "\<forall>z. z \<noteq> y \<and> z \<noteq> w \<longrightarrow> ns1 z = ?ns z"
        using rotate_left_ok [OF y(2,3) w(1,2,3) y(4) w(4,5) d1 sc] by blast
      have xn: "x \<noteq> y" "x \<noteq> w" "x \<notin> set (inorder a)" "x \<notin> set (inorder c)" "x \<notin> set (inorder d)" using dist lt b by auto
      let ?ns2 = "ns1(x := (ns1 x)\<lparr>n_left := Some w\<rparr>)"
      have x1: "ns1 x = ?ns x" using ns1(3) xn by simp
      have h2: "holds ?ns2 (Some w) (Bin (Bin a y c) w d)" using ns1(2) xn by simp
      have hr: "holds ?ns2 (n_right (?ns2 x)) r"
      proof -
        have "holds ns1 (n_right (?ns x)) r"
          by (rule holds_frame [OF x(4)]) (use ns1(3) dist lt b in auto)
        then show ?thesis using x1 dist by simp
      qed
      have d2: "distinct (inorder (Bin a y c) @ w # inorder d @ x # inorder r)" using dist lt b by auto
      have s2: "ht (Bin a y c) \<le> 250" "ht d \<le> 250" "ht r \<le> 250" using small lt b sc by auto
      have in2: "in_tree (?ns2 x)" "n_left (?ns2 x) = Some w" using x(2) x1 by auto
      have w2: "in_tree (?ns2 w)" "holds ?ns2 (n_left (?ns2 w)) (Bin a y c)" "holds ?ns2 (n_right (?ns2 w)) d"
        using h2 by auto
      obtain ns' where ns': "rotate_right x ?ns2 = Some (w, ns')" "holds ns' (Some w) (Bin (Bin a y c) w (Bin d x r))"
          "\<forall>z. z \<noteq> x \<and> z \<noteq> w \<longrightarrow> ns' z = ?ns2 z"
        using rotate_right_ok [OF x(1) in2 w(2) w2 hr d2 s2] by blast
      have "rebalance x ns = Some (w, ns')"
        unfolding rebalance_def using u x y(1-3) y(4,5) ns1(1) ns'(1) left True by simp
      moreover have "bal l x r = Bin (Bin a y c) w (Bin d x r)" using left lt b True by (simp add: bal_def)
      moreover have "\<forall>z. z \<notin> set (inorder l @ x # inorder r) \<longrightarrow> ns' z = ns z"
        using ns'(3) ns1(3) lt b by auto
      ultimately show ?thesis using ns'(2) by auto
    qed
  next
    case right
    then obtain a y b where rt: "r = Bin a y b" by (cases r) auto
    have y: "n_right (?ns x) = Some y" "y < MAX_BLOCKS" "in_tree (?ns y)"
       "holds ?ns (n_left (?ns y)) a" "holds ?ns (n_right (?ns y)) b" using x(4) rt by auto
    have sa: "ht l \<le> 250" "ht a \<le> 250" "ht b \<le> 250" using small rt by auto
    show ?thesis
    proof (cases "ht b < ht a")
      case False
      have d: "distinct (inorder l @ x # inorder a @ y # inorder b)" using dist rt by simp
      obtain ns' where ns': "rotate_left x ?ns = Some (y, ns')" "holds ns' (Some y) (Bin (Bin l x a) y b)"
          "\<forall>z. z \<noteq> x \<and> z \<noteq> y \<longrightarrow> ns' z = ?ns z"
        using rotate_left_ok [OF x(1,2) y(1,2,3) x(3) y(4,5) d sa] by blast
      have "rebalance x ns = Some (y, ns')"
        unfolding rebalance_def using u x y ns'(1) right False by simp
      then show ?thesis using ns'(2,3) right rt False by (auto simp: bal_def)
    next
      case True
      then obtain c w d where a: "a = Bin c w d" by (cases a) auto
      have w: "n_left (?ns y) = Some w" "w < MAX_BLOCKS" "in_tree (?ns w)"
         "holds ?ns (n_left (?ns w)) c" "holds ?ns (n_right (?ns w)) d" using y(4) a by auto
      have sc: "ht c \<le> 250" "ht d \<le> 250" "ht b \<le> 250" using sa a by auto
      have d1: "distinct (inorder c @ w # inorder d @ y # inorder b)" using dist rt a by auto
      obtain ns1 where ns1: "rotate_right y ?ns = Some (w, ns1)" "holds ns1 (Some w) (Bin c w (Bin d y b))"
          "\<forall>z. z \<noteq> y \<and> z \<noteq> w \<longrightarrow> ns1 z = ?ns z"
        using rotate_right_ok [OF y(2,3) w(1,2,3) w(4,5) y(5) d1 sc] by blast
      have xn: "x \<noteq> y" "x \<noteq> w" "x \<notin> set (inorder b)" "x \<notin> set (inorder c)" "x \<notin> set (inorder d)" using dist rt a by auto
      let ?ns2 = "ns1(x := (ns1 x)\<lparr>n_right := Some w\<rparr>)"
      have x1: "ns1 x = ?ns x" using ns1(3) xn by simp
      have h2: "holds ?ns2 (Some w) (Bin c w (Bin d y b))" using ns1(2) xn by simp
      have hl: "holds ?ns2 (n_left (?ns2 x)) l"
      proof -
        have "holds ns1 (n_left (?ns x)) l"
          by (rule holds_frame [OF x(3)]) (use ns1(3) dist rt a in auto)
        then show ?thesis using x1 dist by simp
      qed
      have d2: "distinct (inorder l @ x # inorder c @ w # inorder (Bin d y b))" using dist rt a by auto
      have s2: "ht l \<le> 250" "ht c \<le> 250" "ht (Bin d y b) \<le> 250" using small rt a sc by auto
      have in2: "in_tree (?ns2 x)" "n_right (?ns2 x) = Some w" using x(2) x1 by auto
      have w2: "in_tree (?ns2 w)" "holds ?ns2 (n_left (?ns2 w)) c" "holds ?ns2 (n_right (?ns2 w)) (Bin d y b)"
        using h2 by auto
      obtain ns' where ns': "rotate_left x ?ns2 = Some (w, ns')" "holds ns' (Some w) (Bin (Bin l x c) w (Bin d y b))"
          "\<forall>z. z \<noteq> x \<and> z \<noteq> w \<longrightarrow> ns' z = ?ns2 z"
        using rotate_left_ok [OF x(1) in2 w(2) w2(1) hl w2(2,3) d2 s2] by blast
      have "rebalance x ns = Some (w, ns')"
        unfolding rebalance_def using u x y(1-3) y(4,5) ns1(1) ns'(1) right True by simp
      moreover have "bal l x r = Bin (Bin l x c) w (Bin d y b)" using right rt a True by (simp add: bal_def)
      moreover have "\<forall>z. z \<notin> set (inorder l @ x # inorder r) \<longrightarrow> ns' z = ns z"
        using ns'(3) ns1(3) rt a by auto
      ultimately show ?thesis using ns'(2) by auto
    qed
  qed
qed

section \<open>Insertion and removal on the node array\<close>

lemma avl_less_ok [simp]: "a < MAX_BLOCKS \<Longrightarrow> b < MAX_BLOCKS \<Longrightarrow> avl_less ents a b = Some (before ents a b)"
  by (simp add: avl_less_def before_def)

lemma before_total: "a \<noteq> b \<Longrightarrow> before ents a b \<or> before ents b a"
  and before_irrefl [simp]: "\<not> before ents a a"
  and before_trans: "before ents a b \<Longrightarrow> before ents b c \<Longrightarrow> before ents a c"
  by (auto simp: before_def)

lemma set_ins [simp]: "set (inorder (ins lt s t)) = insert s (set (inorder t))"
  by (induction t) auto

lemma distinct_ins: "distinct (inorder t) \<Longrightarrow> s \<notin> set (inorder t) \<Longrightarrow> distinct (inorder (ins lt s t))"
  by (induction t) auto

lemma holds_None [simp]: "holds ns None t \<longleftrightarrow> t = Tip"
  by (cases t) auto

lemma holds_SomeE:
  assumes "holds ns (Some x) t"
  obtains l r where "t = Bin l x r"
  using assms by (cases t) auto

lemma insert_at_ok:
  assumes "holds ns rt t" and "balanced t" and "ht t \<le> 230" and "distinct (inorder t)"
    and "s < MAX_BLOCKS" and "s \<notin> set (inorder t)" and "ns s = NODE_EMPTY\<lparr>in_tree := True\<rparr>"
  shows "\<exists>y ns'. insert_at ents rt s ns = Some (y, ns') \<and> holds ns' (Some y) (ins (before ents) s t)
     \<and> (\<forall>z. z \<noteq> s \<and> z \<notin> set (inorder t) \<longrightarrow> ns' z = ns z)"
  using assms
proof (induction t arbitrary: rt)
  case Tip
  then show ?case by (auto simp: insert_at.simps [of ents None] NODE_EMPTY_def)
next
  case (Bin l x r)
  have x: "rt = Some x" "x < MAX_BLOCKS" "in_tree (ns x)" "holds ns (n_left (ns x)) l" "holds ns (n_right (ns x)) r"
    using Bin.prems(1) by auto
  have bal2: "balanced l" "balanced r" "ht l \<le> ht r + 1" "ht r \<le> ht l + 1" using Bin.prems(2) by auto
  have hs: "ht l \<le> 230" "ht r \<le> 230" using Bin.prems(3) by auto
  have dist: "distinct (inorder l)" "distinct (inorder r)" "x \<notin> set (inorder l)" "x \<notin> set (inorder r)"
    "set (inorder l) \<inter> set (inorder r) = {}" using Bin.prems(4) by auto
  have s: "s \<noteq> x" "s \<notin> set (inorder l)" "s \<notin> set (inorder r)" using Bin.prems(6) by auto
  show ?case
  proof (cases "before ents s x")
    case True
    obtain y ns1 where i: "insert_at ents (n_left (ns x)) s ns = Some (y, ns1)" "holds ns1 (Some y) (ins (before ents) s l)"
        "\<forall>z. z \<noteq> s \<and> z \<notin> set (inorder l) \<longrightarrow> ns1 z = ns z"
      using Bin.IH(1) [OF x(4) bal2(1) hs(1) dist(1) Bin.prems(5) s(2) Bin.prems(7)] by blast
    let ?ns2 = "ns1(x := (ns1 x)\<lparr>n_left := Some y\<rparr>)"
    have x1: "ns1 x = ns x" using i(3) s dist by auto
    have "holds ns1 (n_right (ns x)) r" by (rule holds_frame [OF x(5)]) (use i(3) s dist in auto)
    then have lk: "links ?ns2 x (ins (before ents) s l) r"
      using x i(2) x1 dist s distinct_ins [OF dist(1) s(2)] by (auto simp: links_def)
    have h2: "ht (ins (before ents) s l) \<le> 240" "ht r \<le> 240" using ins_ok [OF bal2(1), of "before ents" s] hs by auto
    obtain w ns' where w: "rebalance x ?ns2 = Some (w, ns')" "holds ns' (Some w) (bal (ins (before ents) s l) x r)"
        "\<forall>z. z \<notin> set (inorder (ins (before ents) s l) @ x # inorder r) \<longrightarrow> ns' z = ?ns2 z"
      using rebalance_ok [OF lk h2] by blast
    have "insert_at ents rt s ns = Some (w, ns')"
      using x True i(1) w(1) Bin.prems(5) by (subst insert_at.simps) simp
    moreover have "\<forall>z. z \<noteq> s \<and> z \<notin> set (inorder (Bin l x r)) \<longrightarrow> ns' z = ns z" using w(3) i(3) by auto
    ultimately show ?thesis using w(2) True by auto
  next
    case False
    obtain y ns1 where i: "insert_at ents (n_right (ns x)) s ns = Some (y, ns1)" "holds ns1 (Some y) (ins (before ents) s r)"
        "\<forall>z. z \<noteq> s \<and> z \<notin> set (inorder r) \<longrightarrow> ns1 z = ns z"
      using Bin.IH(2) [OF x(5) bal2(2) hs(2) dist(2) Bin.prems(5) s(3) Bin.prems(7)] by blast
    let ?ns2 = "ns1(x := (ns1 x)\<lparr>n_right := Some y\<rparr>)"
    have x1: "ns1 x = ns x" using i(3) s dist by auto
    have "holds ns1 (n_left (ns x)) l" by (rule holds_frame [OF x(4)]) (use i(3) s dist in auto)
    then have lk: "links ?ns2 x l (ins (before ents) s r)"
      using x i(2) x1 dist s distinct_ins [OF dist(2) s(3)] by (auto simp: links_def)
    have h2: "ht l \<le> 240" "ht (ins (before ents) s r) \<le> 240" using ins_ok [OF bal2(2), of "before ents" s] hs by auto
    obtain w ns' where w: "rebalance x ?ns2 = Some (w, ns')" "holds ns' (Some w) (bal l x (ins (before ents) s r))"
        "\<forall>z. z \<notin> set (inorder l @ x # inorder (ins (before ents) s r)) \<longrightarrow> ns' z = ?ns2 z"
      using rebalance_ok [OF lk h2] by blast
    have "insert_at ents rt s ns = Some (w, ns')"
      using x False i(1) w(1) Bin.prems(5) by (subst insert_at.simps) simp
    moreover have "\<forall>z. z \<noteq> s \<and> z \<notin> set (inorder (Bin l x r)) \<longrightarrow> ns' z = ns z" using w(3) i(3) by auto
    ultimately show ?thesis using w(2) False by auto
  qed
qed

lemma detach_minimum_ok:
  assumes "holds ns (Some r) t" and "balanced t" and "ht t \<le> 230" and "distinct (inorder t)"
  shows "\<exists>rm ns'. detach_minimum r ns = Some ((rm, snd (dmin t)), ns') \<and> holds ns' rm (fst (dmin t))
     \<and> ns' (snd (dmin t)) = ns (snd (dmin t)) \<and> (\<forall>z. z \<notin> set (inorder t) \<longrightarrow> ns' z = ns z)"
  using assms
proof (induction t arbitrary: r rule: dmin.induct)
  case 1
  then show ?case by simp
next
  case (2 x b)
  then show ?case by (subst detach_minimum.simps) auto
next
  case (3 a y b x c)
  let ?l = "Bin a y b"
  obtain l' m where d: "dmin ?l = (l', m)" by force
  have x: "r = x" "x < MAX_BLOCKS" "in_tree (ns x)" "n_left (ns x) = Some y" "holds ns (Some y) ?l" "holds ns (n_right (ns x)) c"
    using "3.prems"(1) by auto
  have bal2: "balanced ?l" "balanced c" "ht ?l \<le> 230" "ht c \<le> 230" "distinct (inorder ?l)" using "3.prems"(2-4) by auto
  have dist: "x \<notin> set (inorder ?l)" "x \<notin> set (inorder c)" "set (inorder ?l) \<inter> set (inorder c) = {}" "distinct (inorder c)"
    using "3.prems"(4) by auto
  have il: "inorder ?l = m # inorder l'" "ht l' \<le> ht ?l" using dmin_ok [OF _ bal2(1)] d by auto
  obtain rm ns1 where i: "detach_minimum y ns = Some ((rm, m), ns1)" "holds ns1 rm l'" "ns1 m = ns m"
      "\<forall>z. z \<notin> set (inorder ?l) \<longrightarrow> ns1 z = ns z"
    using "3.IH" [OF x(5) bal2(1,3,5)] d by auto
  let ?ns2 = "ns1(x := (ns1 x)\<lparr>n_left := rm\<rparr>)"
  have x1: "ns1 x = ns x" using i(4) dist(1) by blast
  have hc: "holds ns1 (n_right (ns x)) c" by (rule holds_frame [OF x(6)]) (use i(4) dist in blast)
  have "x \<notin> set (inorder l')" and dl: "distinct (inorder l')" "m \<notin> set (inorder l')"
    and dlc: "set (inorder l') \<inter> set (inorder c) = {}" and mx: "m \<noteq> x" "m \<notin> set (inorder c)"
    using dist bal2(5) unfolding il by auto
  then have lk: "links ?ns2 x l' c"
    using x i(2) x1 dist hc by (auto simp: links_def)
  have h2: "ht l' \<le> 240" "ht c \<le> 240" using il bal2 by auto
  obtain w ns' where w: "rebalance x ?ns2 = Some (w, ns')" "holds ns' (Some w) (bal l' x c)"
      "\<forall>z. z \<notin> set (inorder l' @ x # inorder c) \<longrightarrow> ns' z = ?ns2 z"
    using rebalance_ok [OF lk h2] by blast
  have "detach_minimum r ns = Some ((Some w, m), ns')"
    using x i(1) w(1) by (subst detach_minimum.simps) simp
  moreover have "dmin (Bin ?l x c) = (bal l' x c, m)" using d by simp
  moreover have "ns' m = ns m" using w(3) dl mx i(3) by auto
  moreover have "\<forall>z. z \<notin> set (inorder (Bin ?l x c)) \<longrightarrow> ns' z = ns z"
  proof (intro allI impI)
    fix z assume "z \<notin> set (inorder (Bin ?l x c))"
    then have "z \<notin> set (inorder ?l)" "z \<noteq> x" "z \<notin> set (inorder c)" by auto
    moreover from this(1) have "z \<notin> set (inorder l')" unfolding il by simp
    ultimately show "ns' z = ns z" using w(3) i(4) by simp
  qed
  ultimately show ?case using w(2) by simp
qed

lemma join_nodes_ok:
  assumes x: "x < MAX_BLOCKS" and hl: "holds ns (n_left (ns x)) l" and hr: "holds ns (n_right (ns x)) r"
    and b: "balanced l" "balanced r" "ht l \<le> 230" "ht r \<le> 230"
    and dist: "distinct (inorder l @ x # inorder r)"
  shows "\<exists>rt ns'. (case n_left (ns x) of
              None \<Rightarrow> Some (n_right (ns x), ns)
            | Some l \<Rightarrow>
                (case n_right (ns x) of
                   None \<Rightarrow> Some (n_left (ns x), ns)
                 | Some rr \<Rightarrow> do {
                     ((remainder, minimum1), ns1) \<leftarrow> detach_minimum rr ns;
                     n1 \<leftarrow> index_get MAX_BLOCKS ns1 minimum1;
                     ns2 \<leftarrow> index_set MAX_BLOCKS ns1 minimum1 (n1\<lparr>n_left := Some l\<rparr>);
                     n2 \<leftarrow> index_get MAX_BLOCKS ns2 minimum1;
                     ns3 \<leftarrow> index_set MAX_BLOCKS ns2 minimum1 (n2\<lparr>n_right := remainder\<rparr>);
                     (r1, ns4) \<leftarrow> rebalance minimum1 ns3;
                     Some (Some r1, ns4)
                   })) = Some (rt, ns') \<and> holds ns' rt (join l r)
     \<and> (\<forall>z. z \<notin> set (inorder l) \<union> set (inorder r) \<longrightarrow> ns' z = ns z)"
proof (cases "l = Tip \<or> r = Tip")
  case True
  then show ?thesis using hl hr by (cases l; cases r) auto
next
  case False
  then obtain a y c where l: "l = Bin a y c" by (cases l) auto
  obtain d z e where r: "r = Bin d z e" using False by (cases r) auto
  have nl: "n_left (ns x) = Some y" "n_right (ns x) = Some z" using hl hr l r by auto
  obtain r' m where dm: "dmin r = (r', m)" by force
  have ir: "inorder r = m # inorder r'" "ht r' \<le> ht r" using dmin_ok [OF _ b(2)] r dm by auto
  have dr: "distinct (inorder r)" "set (inorder l) \<inter> set (inorder r) = {}" "distinct (inorder l)" using dist by auto
  have hz: "holds ns (Some z) r" using hr nl by simp
  obtain rm ns1 where i: "detach_minimum z ns = Some ((rm, m), ns1)" "holds ns1 rm r'" "ns1 m = ns m"
      "\<forall>w. w \<notin> set (inorder r) \<longrightarrow> ns1 w = ns w"
    using detach_minimum_ok [OF hz b(2,4) dr(1)] dm by auto
  have m: "m < MAX_BLOCKS" "in_tree (ns m)" using holds_lt [OF hr, of m] ir by auto
  have ml: "m \<notin> set (inorder l)" "m \<notin> set (inorder r')" "distinct (inorder r')" using dr ir by auto
  let ?ns3 = "ns1(m := (ns1 m)\<lparr>n_left := Some y, n_right := rm\<rparr>)"
  have "holds ns1 (Some y) l" by (rule holds_frame [of ns]) (use hl nl i(4) dr in auto)
  then have lk: "links ?ns3 m l r'" using m i(2,3) ml dr ir by (auto simp: links_def)
  have h2: "ht l \<le> 240" "ht r' \<le> 240" using b ir by auto
  obtain w ns' where w: "rebalance m ?ns3 = Some (w, ns')" "holds ns' (Some w) (bal l m r')"
      "\<forall>z. z \<notin> set (inorder l @ m # inorder r') \<longrightarrow> ns' z = ?ns3 z"
    using rebalance_ok [OF lk h2] by blast
  have j: "join l r = bal l m r'" using l r dm by simp
  have fr: "\<forall>z. z \<notin> set (inorder l) \<union> set (inorder r) \<longrightarrow> ns' z = ns z" using w(3) i(4) ir by auto
  show ?thesis unfolding j using nl i(1) m w(1,2) fr by simp
qed

lemma set_del: "balanced t \<Longrightarrow> set (inorder (del lt s t)) \<subseteq> set (inorder t)"
  and distinct_del: "balanced t \<Longrightarrow> distinct (inorder t) \<Longrightarrow> distinct (inorder (del lt s t))"
proof -
  show a: "balanced t \<Longrightarrow> set (inorder (del lt s t)) \<subseteq> set (inorder t)" for t
  proof (induction t)
    case (Bin l x r)
    then show ?case using join_ok [of l r] by auto
  qed simp
  show "balanced t \<Longrightarrow> distinct (inorder t) \<Longrightarrow> distinct (inorder (del lt s t))"
  proof (induction t)
    case (Bin l x r)
    then show ?case using join_ok [of l r] a [of l] a [of r] by auto
  qed simp
qed

lemma remove_at_ok:
  assumes "holds ns rt t" and "balanced t" and "ht t \<le> 230" and "distinct (inorder t)" and "s < MAX_BLOCKS"
  shows "\<exists>rt' ns'. remove_at ents rt s ns = Some (rt', ns') \<and> holds ns' rt' (del (before ents) s t)
     \<and> (\<forall>z. z \<notin> set (inorder t) \<longrightarrow> ns' z = ns z)"
  using assms
proof (induction t arbitrary: rt)
  case Tip
  then show ?case by (auto simp: remove_at.simps [of ents None])
next
  case (Bin l x r)
  have x: "rt = Some x" "x < MAX_BLOCKS" "in_tree (ns x)" "holds ns (n_left (ns x)) l" "holds ns (n_right (ns x)) r"
    using Bin.prems(1) by auto
  have bal2: "balanced l" "balanced r" "ht l \<le> ht r + 1" "ht r \<le> ht l + 1" using Bin.prems(2) by auto
  have hs: "ht l \<le> 230" "ht r \<le> 230" using Bin.prems(3) by auto
  have dist: "distinct (inorder l)" "distinct (inorder r)" "x \<notin> set (inorder l)" "x \<notin> set (inorder r)"
    "set (inorder l) \<inter> set (inorder r) = {}" using Bin.prems(4) by auto
  consider (lt) "before ents s x" | (gt) "\<not> before ents s x" "before ents x s"
    | (eq) "\<not> before ents s x" "\<not> before ents x s" by blast
  then show ?case
  proof cases
    case lt
    obtain y ns1 where i: "remove_at ents (n_left (ns x)) s ns = Some (y, ns1)" "holds ns1 y (del (before ents) s l)"
        "\<forall>z. z \<notin> set (inorder l) \<longrightarrow> ns1 z = ns z"
      using Bin.IH(1) [OF x(4) bal2(1) hs(1) dist(1) Bin.prems(5)] by blast
    let ?ns2 = "ns1(x := (ns1 x)\<lparr>n_left := y\<rparr>)"
    have x1: "ns1 x = ns x" using i(3) dist by auto
    note sd = set_del [OF bal2(1), of "before ents" s]
    have "holds ns1 (n_right (ns x)) r" by (rule holds_frame [OF x(5)]) (use i(3) dist in auto)
    moreover have "x \<notin> set (inorder (del (before ents) s l))" using sd dist by blast
    moreover have "set (inorder (del (before ents) s l)) \<inter> set (inorder r) = {}" using sd dist by blast
    ultimately have lk: "links ?ns2 x (del (before ents) s l) r"
      using x i(2) x1 dist distinct_del [OF bal2(1) dist(1)] by (auto simp: links_def)
    have h2: "ht (del (before ents) s l) \<le> 240" "ht r \<le> 240" using del_ok [OF bal2(1), of "before ents" s] hs by auto
    obtain w ns' where w: "rebalance x ?ns2 = Some (w, ns')" "holds ns' (Some w) (bal (del (before ents) s l) x r)"
        "\<forall>z. z \<notin> set (inorder (del (before ents) s l) @ x # inorder r) \<longrightarrow> ns' z = ?ns2 z"
      using rebalance_ok [OF lk h2] by blast
    have "remove_at ents rt s ns = Some (Some w, ns')"
      using x lt i(1) w(1) Bin.prems(5) by (subst remove_at.simps) simp
    moreover have "\<forall>z. z \<notin> set (inorder (Bin l x r)) \<longrightarrow> ns' z = ns z" using w(3) i(3) sd by auto
    ultimately show ?thesis using w(2) lt by auto
  next
    case gt
    obtain y ns1 where i: "remove_at ents (n_right (ns x)) s ns = Some (y, ns1)" "holds ns1 y (del (before ents) s r)"
        "\<forall>z. z \<notin> set (inorder r) \<longrightarrow> ns1 z = ns z"
      using Bin.IH(2) [OF x(5) bal2(2) hs(2) dist(2) Bin.prems(5)] by blast
    let ?ns2 = "ns1(x := (ns1 x)\<lparr>n_right := y\<rparr>)"
    have x1: "ns1 x = ns x" using i(3) dist by auto
    note sd = set_del [OF bal2(2), of "before ents" s]
    have "holds ns1 (n_left (ns x)) l" by (rule holds_frame [OF x(4)]) (use i(3) dist in auto)
    moreover have "x \<notin> set (inorder (del (before ents) s r))" using sd dist by blast
    moreover have "set (inorder l) \<inter> set (inorder (del (before ents) s r)) = {}" using sd dist by blast
    ultimately have lk: "links ?ns2 x l (del (before ents) s r)"
      using x i(2) x1 dist distinct_del [OF bal2(2) dist(2)] by (auto simp: links_def)
    have h2: "ht l \<le> 240" "ht (del (before ents) s r) \<le> 240" using del_ok [OF bal2(2), of "before ents" s] hs by auto
    obtain w ns' where w: "rebalance x ?ns2 = Some (w, ns')" "holds ns' (Some w) (bal l x (del (before ents) s r))"
        "\<forall>z. z \<notin> set (inorder l @ x # inorder (del (before ents) s r)) \<longrightarrow> ns' z = ?ns2 z"
      using rebalance_ok [OF lk h2] by blast
    have "remove_at ents rt s ns = Some (Some w, ns')"
      using x gt i(1) w(1) Bin.prems(5) by (subst remove_at.simps) simp
    moreover have "\<forall>z. z \<notin> set (inorder (Bin l x r)) \<longrightarrow> ns' z = ns z" using w(3) i(3) sd by auto
    ultimately show ?thesis using w(2) gt by auto
  next
    case eq
    have "\<exists>rt' ns'. remove_at ents rt s ns = Some (rt', ns') \<and> holds ns' rt' (join l r)
        \<and> (\<forall>z. z \<notin> set (inorder l) \<union> set (inorder r) \<longrightarrow> ns' z = ns z)"
      using join_nodes_ok [OF x(2,4,5) bal2(1,2) hs Bin.prems(4) [simplified inorder.simps]] x eq Bin.prems(5)
      by (subst remove_at.simps) simp
    then show ?thesis using eq by auto
  qed
qed

section \<open>The order of the slots\<close>

lemma ordered_distinct: "ordered ents xs \<Longrightarrow> distinct xs"
  by (induction xs) auto

lemma ordered_ins:
  "ordered ents (inorder t) \<Longrightarrow> s \<notin> set (inorder t) \<Longrightarrow> ordered ents (inorder (ins (before ents) s t))"
proof (induction t)
  case (Bin l x r)
  show ?case
  proof (cases "before ents s x")
    case True
    then show ?thesis using Bin before_trans [of ents s x] by (auto simp: sorted_wrt_append)
  next
    case False
    then have "before ents x s" using Bin.prems(2) before_total [of s x ents] by auto
    then show ?thesis using Bin False before_trans [of ents _ x s] by (auto simp: sorted_wrt_append)
  qed
qed simp

lemma set_del_ordered:
  "balanced t \<Longrightarrow> ordered ents (inorder t) \<Longrightarrow> set (inorder (del (before ents) s t)) = set (inorder t) - {s}"
proof (induction t)
  case (Bin l x r)
  have b: "balanced l" "balanced r" "ht l \<le> ht r + 1" "ht r \<le> ht l + 1" using Bin.prems(1) by auto
  have o: "ordered ents (inorder l)" "ordered ents (inorder r)" "\<forall>y\<in>set (inorder l). before ents y x"
    "\<forall>y\<in>set (inorder r). before ents x y" using Bin.prems(2) by (auto simp: sorted_wrt_append)
  note IH = Bin.IH(1) [OF b(1) o(1)] Bin.IH(2) [OF b(2) o(2)]
  have nl: "y \<notin> set (inorder l)" if "before ents x y" for y using that o(3) before_trans [of ents x y x] by auto
  have nr: "y \<notin> set (inorder r)" if "before ents y x" for y using that o(4) before_trans [of ents x y x] by auto
  consider (lt) "before ents s x" | (gt) "\<not> before ents s x" "before ents x s"
    | (eq) "s = x" "\<not> before ents s x" "\<not> before ents x s" using before_total [of s x ents] by blast
  then show ?case
  proof cases
    case lt
    then show ?thesis using IH nr [of s] by auto
  next
    case gt
    then show ?thesis using IH nl [of s] by auto
  next
    case eq
    then show ?thesis using join_ok [OF b] o by auto
  qed
qed simp

lemma ordered_del:
  "balanced t \<Longrightarrow> ordered ents (inorder t) \<Longrightarrow> ordered ents (inorder (del (before ents) s t))"
proof (induction t)
  case (Bin l x r)
  have b: "balanced l" "balanced r" "ht l \<le> ht r + 1" "ht r \<le> ht l + 1" using Bin.prems(1) by auto
  have s: "set (inorder (del (before ents) s l)) \<subseteq> set (inorder l)" "set (inorder (del (before ents) s r)) \<subseteq> set (inorder r)"
    using set_del b by auto
  have o: "ordered ents (inorder l)" "ordered ents (inorder r)" using Bin.prems(2) by (auto simp: sorted_wrt_append)
  show ?case using Bin.IH(1) [OF b(1) o(1)] Bin.IH(2) [OF b(2) o(2)] Bin.prems(2) s join_ok [OF b]
    by (auto simp: sorted_wrt_append; blast)
qed simp

lemma ordered_cong:
  "(\<And>i. i \<in> set xs \<Longrightarrow> b_phys_base (e' i) = b_phys_base (e i)) \<Longrightarrow> ordered e' xs \<longleftrightarrow> ordered e xs"
  by (induction xs) (auto simp: before_def)

section \<open>The index of a table\<close>

lemma avl_indexE:
  assumes "avl_index T xs"
  obtains t where "holds (nodes T) (root T) t" "balanced t" "inorder t = xs" "ordered (entries T) xs"
    "physical_count T = length xs" "\<forall>i<MAX_BLOCKS. in_tree (nodes T i) \<longleftrightarrow> i \<in> set xs"
  using assms unfolding avl_index_def by blast

lemma avl_index_lt: "avl_index T xs \<Longrightarrow> x \<in> set xs \<Longrightarrow> x < MAX_BLOCKS"
  unfolding avl_index_def using holds_lt by blast

lemma avl_index_distinct: "avl_index T xs \<Longrightarrow> distinct xs"
  unfolding avl_index_def using ordered_distinct by blast

lemma avl_index_length: "avl_index T xs \<Longrightarrow> length xs \<le> MAX_BLOCKS"
proof -
  assume a: "avl_index T xs"
  have "set xs \<subseteq> {..<MAX_BLOCKS}" using avl_index_lt [OF a] by auto
  from card_mono [OF _ this] show ?thesis using distinct_card [OF avl_index_distinct [OF a]] by simp
qed

lemma avl_index_height:
  assumes "avl_index T xs" and "balanced t" and "inorder t = xs"
  shows "ht t \<le> 27"
proof -
  have "(2::nat) ^ (ht t div 2) \<le> 8193"
    using balanced_size [OF assms(2)] avl_index_length [OF assms(1)] assms(3) by (simp add: MAX_BLOCKS_def)
  moreover have "(2::nat) ^ 14 \<le> 2 ^ (ht t div 2)" if "14 \<le> ht t div 2" using that by (rule power_increasing) simp
  ultimately have "ht t div 2 < 14" by fastforce
  then show ?thesis by simp
qed

lemma avl_index_cong:
  assumes "avl_index T xs" and "nodes T' = nodes T" "root T' = root T" "physical_count T' = physical_count T"
    and "\<And>i. i \<in> set xs \<Longrightarrow> b_phys_base (entries T' i) = b_phys_base (entries T i)"
  shows "avl_index T' xs"
  using assms ordered_cong [of xs "entries T'" "entries T"] unfolding avl_index_def by simp

lemma avl_index_empty: "(\<And>i. in_tree (nodes T i) = False) \<Longrightarrow> root T = None \<Longrightarrow> physical_count T = 0 \<Longrightarrow> avl_index T []"
  unfolding avl_index_def by (auto intro!: exI [of _ Tip])

lemma insert_physical_ok:
  assumes inv: "avl_index T xs" and s: "s < MAX_BLOCKS" "s \<notin> set xs"
  shows "\<exists>T' xs'. insert_physical s T = Some T' \<and> avl_index T' xs' \<and> set xs' = insert s (set xs)
     \<and> T' = T\<lparr>nodes := nodes T', root := root T', physical_count := physical_count T + 1\<rparr>"
proof -
  obtain t where t: "holds (nodes T) (root T) t" "balanced t" "inorder t = xs" "ordered (entries T) xs"
      "physical_count T = length xs" "\<forall>i<MAX_BLOCKS. in_tree (nodes T i) \<longleftrightarrow> i \<in> set xs"
    using avl_indexE [OF inv] .
  let ?ns = "(nodes T)(s := NODE_EMPTY\<lparr>in_tree := True\<rparr>)" and ?t = "ins (before (entries T)) s t"
  have h: "holds ?ns (root T) t" using t(1,3) s by simp
  have d: "distinct (inorder t)" "s \<notin> set (inorder t)" "ht t \<le> 230"
    using avl_index_distinct [OF inv] s avl_index_height [OF inv t(2,3)] t(3) by auto
  obtain y ns' where i: "insert_at (entries T) (root T) s ?ns = Some (y, ns')" "holds ns' (Some y) ?t"
      "\<forall>z. z \<noteq> s \<and> z \<notin> set (inorder t) \<longrightarrow> ns' z = ?ns z"
    using insert_at_ok [OF h t(2) d(3,1) s(1) d(2), of "entries T"] by auto
  let ?T = "T\<lparr>nodes := ns', root := Some y, physical_count := physical_count T + 1\<rparr>"
  have len: "length (inorder ?t) = Suc (length xs)"
    using distinct_card [OF distinct_ins [OF d(1,2), of "before (entries T)"]] distinct_card [OF d(1)] d(2) t(3) by simp
  have "length xs \<le> 8192" using avl_index_length [OF inv] by (simp add: MAX_BLOCKS_def)
  then have run: "insert_physical s T = Some ?T" using s i(1) t(5) by (simp add: insert_physical_def)
  have mem: "\<forall>i<MAX_BLOCKS. in_tree (ns' i) \<longleftrightarrow> i \<in> set (inorder ?t)"
  proof (intro allI impI)
    fix i assume "i < MAX_BLOCKS"
    then show "in_tree (ns' i) \<longleftrightarrow> i \<in> set (inorder ?t)"
      using holds_lt [OF i(2), of i] i(3) t(3,6) by (cases "i = s \<or> i \<in> set xs") auto
  qed
  have "avl_index ?T (inorder ?t)" unfolding avl_index_def
    using i(2) ins_ok [OF t(2)] ordered_ins [of "entries T" t s] t d len mem by auto
  then show ?thesis using run t(3) by (intro exI [of _ ?T] exI [of _ "inorder ?t"]) simp
qed

lemma remove_physical_ok:
  assumes inv: "avl_index T xs" and s: "s < MAX_BLOCKS"
  shows "\<exists>T' xs'. remove_physical s T = Some T' \<and> avl_index T' xs' \<and> set xs' = set xs - {s}
     \<and> T' = T\<lparr>nodes := nodes T', root := root T', physical_count := physical_count T'\<rparr>"
proof -
  obtain t where t: "holds (nodes T) (root T) t" "balanced t" "inorder t = xs" "ordered (entries T) xs"
      "physical_count T = length xs" "\<forall>i<MAX_BLOCKS. in_tree (nodes T i) \<longleftrightarrow> i \<in> set xs"
    using avl_indexE [OF inv] .
  show ?thesis
  proof (cases "s \<in> set xs")
    case False
    then have "remove_physical s T = Some T" using s t(6) by (simp add: remove_physical_def)
    then show ?thesis using inv False by (intro exI [of _ T] exI [of _ xs]) simp
  next
    case True
    let ?t = "del (before (entries T)) s t"
    have d: "distinct (inorder t)" "ht t \<le> 230"
      using avl_index_distinct [OF inv] avl_index_height [OF inv t(2,3)] t(3) by auto
    obtain rt ns' where i: "remove_at (entries T) (root T) s (nodes T) = Some (rt, ns')" "holds ns' rt ?t"
        "\<forall>z. z \<notin> set (inorder t) \<longrightarrow> ns' z = nodes T z"
      using remove_at_ok [OF t(1,2) d(2,1) s, of "entries T"] by blast
    have set1: "set (inorder ?t) = set xs - {s}" using set_del_ordered [OF t(2), of "entries T"] t(3,4) by simp
    let ?T = "T\<lparr>nodes := ns'(s := NODE_EMPTY), root := rt, physical_count := length xs - 1\<rparr>"
    have pos: "length xs \<noteq> 0" using True by auto
    have run: "remove_physical s T = Some ?T" using s i(1) t(5,6) True pos by (simp add: remove_physical_def)
    have len: "length (inorder ?t) = length xs - 1"
      using distinct_card [OF distinct_del [OF t(2) d(1), of "before (entries T)" s]] distinct_card [OF d(1)]
        set1 True t(3) by simp
    have mem: "\<forall>i<MAX_BLOCKS. in_tree ((ns'(s := NODE_EMPTY)) i) \<longleftrightarrow> i \<in> set (inorder ?t)"
    proof (intro allI impI)
      fix i assume "i < MAX_BLOCKS"
      then show "in_tree ((ns'(s := NODE_EMPTY)) i) \<longleftrightarrow> i \<in> set (inorder ?t)"
        using holds_lt [OF i(2), of i] i(3) t(3,6) set1 by (cases "i = s"; cases "i \<in> set xs") (auto simp: NODE_EMPTY_def)
    qed
    have h: "holds (ns'(s := NODE_EMPTY)) rt ?t" using i(2) set1 by simp
    have "avl_index ?T (inorder ?t)" unfolding avl_index_def
      using h del_ok [OF t(2)] ordered_del [OF t(2), of "entries T" s] t len mem by auto
    then show ?thesis using run set1 by (intro exI [of _ ?T] exI [of _ "inorder ?t"]) simp
  qed
qed

section \<open>Searches\<close>

lemma descend_low_ok:
  assumes "holds ns rt t" and "\<And>x. x \<in> set (inorder t) \<Longrightarrow> test x = Some (P x)"
    and "sorted_wrt (\<lambda>a b. P b \<longrightarrow> P a) (inorder t)"
  shows "\<exists>n. descend_low test ns rt res k = Some
     (case filter P (inorder t) of [] \<Rightarrow> res | y # ys \<Rightarrow> Some (last (y # ys)), n) \<and> n \<le> k + ht t"
  using assms
proof (induction t arbitrary: rt res k)
  case Tip
  then show ?case by (subst descend_low.simps) simp
next
  case (Bin l x r)
  have x: "rt = Some x" "x < MAX_BLOCKS" "holds ns (n_left (ns x)) l" "holds ns (n_right (ns x)) r"
    using Bin.prems(1) by auto
  have o: "sorted_wrt (\<lambda>a b. P b \<longrightarrow> P a) (inorder l)" "sorted_wrt (\<lambda>a b. P b \<longrightarrow> P a) (inorder r)"
    using Bin.prems(3) by (auto simp: sorted_wrt_append)
  have t: "test x = Some (P x)" using Bin.prems(2) by simp
  have tl: "\<And>z. z \<in> set (inorder l) \<Longrightarrow> test z = Some (P z)" and tr: "\<And>z. z \<in> set (inorder r) \<Longrightarrow> test z = Some (P z)"
    using Bin.prems(2) by auto
  show ?case
  proof (cases "P x")
    case True
    then have "filter P (inorder l) = inorder l" using Bin.prems(3) by (auto simp: sorted_wrt_append intro!: filter_True)
    then have f: "(case filter P (inorder (Bin l x r)) of [] \<Rightarrow> res | y # ys \<Rightarrow> Some (last (y # ys)))
        = (case filter P (inorder r) of [] \<Rightarrow> Some x | y # ys \<Rightarrow> Some (last (y # ys)))"
      using True by (cases "filter P (inorder r)"; cases "inorder l") auto
    obtain n where "descend_low test ns (n_right (ns x)) (Some x) (k + 1) = Some
       (case filter P (inorder r) of [] \<Rightarrow> Some x | y # ys \<Rightarrow> Some (last (y # ys)), n)" "n \<le> k + 1 + ht r"
      using Bin.IH(2) [OF x(4) tr o(2), of "Some x" "k + 1"] by blast
    then show ?thesis unfolding f using x t True by (subst descend_low.simps) simp
  next
    case False
    then have "filter P (inorder r) = []" using Bin.prems(3) by (auto simp: sorted_wrt_append filter_empty_conv)
    then have f: "filter P (inorder (Bin l x r)) = filter P (inorder l)" using False by simp
    obtain n where "descend_low test ns (n_left (ns x)) res (k + 1) = Some
       (case filter P (inorder l) of [] \<Rightarrow> res | y # ys \<Rightarrow> Some (last (y # ys)), n)" "n \<le> k + 1 + ht l"
      using Bin.IH(1) [OF x(3) tl o(1), of "res" "k + 1"] by blast
    then show ?thesis unfolding f using x t False by (subst descend_low.simps) simp
  qed
qed

lemma descend_high_ok:
  assumes "holds ns rt t" and "\<And>x. x \<in> set (inorder t) \<Longrightarrow> test x = Some (P x)"
    and "sorted_wrt (\<lambda>a b. P a \<longrightarrow> P b) (inorder t)"
  shows "\<exists>n. descend_high test ns rt res k = Some
     (case filter P (inorder t) of [] \<Rightarrow> res | y # ys \<Rightarrow> Some y, n) \<and> n \<le> k + ht t"
  using assms
proof (induction t arbitrary: rt res k)
  case Tip
  then show ?case by (subst descend_high.simps) simp
next
  case (Bin l x r)
  have x: "rt = Some x" "x < MAX_BLOCKS" "holds ns (n_left (ns x)) l" "holds ns (n_right (ns x)) r"
    using Bin.prems(1) by auto
  have o: "sorted_wrt (\<lambda>a b. P a \<longrightarrow> P b) (inorder l)" "sorted_wrt (\<lambda>a b. P a \<longrightarrow> P b) (inorder r)"
    using Bin.prems(3) unfolding inorder.simps sorted_wrt_append sorted_wrt.simps by blast+
  have t: "test x = Some (P x)" using Bin.prems(2) by simp
  have tl: "\<And>z. z \<in> set (inorder l) \<Longrightarrow> test z = Some (P z)" and tr: "\<And>z. z \<in> set (inorder r) \<Longrightarrow> test z = Some (P z)"
    using Bin.prems(2) by auto
  show ?case
  proof (cases "P x")
    case True
    have f: "(case filter P (inorder (Bin l x r)) of [] \<Rightarrow> res | y # ys \<Rightarrow> Some y)
        = (case filter P (inorder l) of [] \<Rightarrow> Some x | y # ys \<Rightarrow> Some y)"
      using True by (cases "filter P (inorder l)") auto
    obtain n where "descend_high test ns (n_left (ns x)) (Some x) (k + 1) = Some
       (case filter P (inorder l) of [] \<Rightarrow> Some x | y # ys \<Rightarrow> Some y, n)" "n \<le> k + 1 + ht l"
      using Bin.IH(1) [OF x(3) tl o(1), of "Some x" "k + 1"] by blast
    then show ?thesis unfolding f using x t True by (subst descend_high.simps) simp
  next
    case False
    then have "filter P (inorder l) = []"
      using Bin.prems(3) unfolding inorder.simps sorted_wrt_append filter_empty_conv by (meson list.set_intros(1))
    then have f: "filter P (inorder (Bin l x r)) = filter P (inorder r)" using False by simp
    obtain n where "descend_high test ns (n_right (ns x)) res (k + 1) = Some
       (case filter P (inorder r) of [] \<Rightarrow> res | y # ys \<Rightarrow> Some y, n)" "n \<le> k + 1 + ht r"
      using Bin.IH(2) [OF x(4) tr o(2), of "res" "k + 1"] by blast
    then show ?thesis unfolding f using x t False by (subst descend_high.simps) simp
  qed
qed

lemma case_filter_find: "(case filter P xs of [] \<Rightarrow> None | y # ys \<Rightarrow> Some y) = find P xs"
  by (induction xs) auto

lemma case_filter_find_rev: "(case filter P xs of [] \<Rightarrow> None | y # ys \<Rightarrow> Some (last (y # ys))) = find P (rev xs)"
proof -
  have "(case ys of [] \<Rightarrow> None | z # zs \<Rightarrow> Some (last (z # zs))) = (case rev ys of [] \<Rightarrow> None | z # zs \<Rightarrow> Some z)" for ys :: "'a list"
    by (cases ys rule: rev_cases) (auto split: list.splits, metis last_ConsR last_snoc)
  then show ?thesis using case_filter_find [of P "rev xs"] by (simp add: rev_filter)
qed

lemma index_descend_low:
  assumes inv: "avl_index T xs" and t: "\<forall>x<MAX_BLOCKS. test x = Some (P x)"
    and m: "\<forall>a b. before (entries T) a b \<longrightarrow> P b \<longrightarrow> P a"
  shows "\<exists>n\<le>27. descend_low test (nodes T) (root T) None 0 = Some (find P (rev xs), n)"
proof -
  obtain t where tr: "holds (nodes T) (root T) t" "balanced t" "inorder t = xs" "ordered (entries T) xs"
    using avl_indexE [OF inv] by metis
  have "sorted_wrt (\<lambda>a b. P b \<longrightarrow> P a) (inorder t)"
    unfolding tr(3) by (rule sorted_wrt_mono_rel [OF _ tr(4)]) (use m in blast)
  moreover have "\<And>x. x \<in> set (inorder t) \<Longrightarrow> test x = Some (P x)" using t holds_lt [OF tr(1)] by blast
  ultimately obtain n where "descend_low test (nodes T) (root T) None 0 = Some
     (case filter P (inorder t) of [] \<Rightarrow> None | y # ys \<Rightarrow> Some (last (y # ys)), n)" "n \<le> 0 + ht t"
    using descend_low_ok [OF tr(1), of test P None 0] by blast
  then show ?thesis
    using avl_index_height [OF inv tr(2,3)] unfolding tr(3) case_filter_find_rev by (intro exI [of _ n]) simp
qed

lemma index_descend_high:
  assumes inv: "avl_index T xs" and t: "\<forall>x<MAX_BLOCKS. test x = Some (P x)"
    and m: "\<forall>a b. before (entries T) a b \<longrightarrow> P a \<longrightarrow> P b"
  shows "\<exists>n\<le>27. descend_high test (nodes T) (root T) None 0 = Some (find P xs, n)"
proof -
  obtain t where tr: "holds (nodes T) (root T) t" "balanced t" "inorder t = xs" "ordered (entries T) xs"
    using avl_indexE [OF inv] by metis
  have "sorted_wrt (\<lambda>a b. P a \<longrightarrow> P b) (inorder t)"
    unfolding tr(3) by (rule sorted_wrt_mono_rel [OF _ tr(4)]) (use m in blast)
  moreover have "\<And>x. x \<in> set (inorder t) \<Longrightarrow> test x = Some (P x)" using t holds_lt [OF tr(1)] by blast
  ultimately obtain n where "descend_high test (nodes T) (root T) None 0 = Some
     (case filter P (inorder t) of [] \<Rightarrow> None | y # ys \<Rightarrow> Some y, n)" "n \<le> 0 + ht t"
    using descend_high_ok [OF tr(1), of test P None 0] by blast
  then show ?thesis
    using avl_index_height [OF inv tr(2,3)] unfolding tr(3) case_filter_find by (intro exI [of _ n]) simp
qed

lemma base_test_ok [simp]: "x < MAX_BLOCKS \<Longrightarrow> base_test ents P x = Some (P (b_phys_base (ents x)))"
  by (simp add: base_test_def)

lemma count_lookup_fields [simp]:
  "entries (count_lookup T) = entries T" "nodes (count_lookup T) = nodes T" "root (count_lookup T) = root T"
  by (simp_all add: count_lookup_def)

lemma count_steps_hot: "count_steps n (count_lookup T) = T\<lparr>hot := hot (count_steps n (count_lookup T))\<rparr>"
  by (simp add: count_lookup_def count_steps_def)

lemma before_base:
  "before e a b \<Longrightarrow> b_phys_base (e b) \<le> k \<Longrightarrow> b_phys_base (e a) \<le> k"
  "before e a b \<Longrightarrow> b_phys_base (e b) < k \<Longrightarrow> b_phys_base (e a) < k"
  "before e a b \<Longrightarrow> k \<le> b_phys_base (e a) \<Longrightarrow> k \<le> b_phys_base (e b)"
  by (auto simp: before_def)

lemma count_steps_low: "low_steps T \<Longrightarrow> n \<le> 27 \<Longrightarrow> low_steps (count_steps n (count_lookup T))"
  by (auto simp: low_steps_def count_steps_def count_lookup_def record_physical_def record_steps_def split: prod.splits)

lemma avl_floor_ok:
  assumes "avl_index T xs"
  shows "\<exists>T'. avl_floor base T = Some (find (\<lambda>x. b_phys_base (entries T x) \<le> base) (rev xs), T')
     \<and> T' = T\<lparr>hot := hot T'\<rparr> \<and> (low_steps T \<longrightarrow> low_steps T')"
proof -
  obtain n where "n \<le> 27" "descend_low (base_test (entries T) (\<lambda>b. b \<le> base)) (nodes T) (root T) None 0
      = Some (find (\<lambda>x. b_phys_base (entries T x) \<le> base) (rev xs), n)"
    using index_descend_low [OF assms, where test = "base_test (entries T) (\<lambda>b. b \<le> base)" and P = "\<lambda>x. b_phys_base (entries T x) \<le> base"] before_base(1) [of "entries T"] base_test_ok
    by (metis (no_types, lifting))
  then show ?thesis unfolding avl_floor_def Let_def using count_steps_low by (auto intro: count_steps_hot)
qed

lemma avl_lower_bound_ok:
  assumes "avl_index T xs"
  shows "\<exists>T'. avl_lower_bound base T = Some (find (\<lambda>x. base \<le> b_phys_base (entries T x)) xs, T')
     \<and> T' = T\<lparr>hot := hot T'\<rparr> \<and> (low_steps T \<longrightarrow> low_steps T')"
proof -
  obtain n where "n \<le> 27" "descend_high (base_test (entries T) (\<lambda>b. base \<le> b)) (nodes T) (root T) None 0
      = Some (find (\<lambda>x. base \<le> b_phys_base (entries T x)) xs, n)"
    using index_descend_high [OF assms, where test = "base_test (entries T) (\<lambda>b. base \<le> b)" and P = "\<lambda>x. base \<le> b_phys_base (entries T x)"] before_base(3) [of "entries T"] base_test_ok
    by (metis (no_types, lifting))
  then show ?thesis unfolding avl_lower_bound_def Let_def using count_steps_low by (auto intro: count_steps_hot)
qed

lemma predecessor_ok:
  assumes "avl_index T xs" and "target < MAX_BLOCKS"
  shows "predecessor T target = Some (find (\<lambda>x. before (entries T) x target) (rev xs))"
proof -
  obtain n where "descend_low (\<lambda>slot. avl_less (entries T) slot target) (nodes T) (root T) None 0
      = Some (find (\<lambda>x. before (entries T) x target) (rev xs), n)"
    using index_descend_low [OF assms(1), of "\<lambda>slot. avl_less (entries T) slot target" "\<lambda>x. before (entries T) x target"]
      assms(2) before_trans [of "entries T"] avl_less_ok [of _ _ "entries T"] by (metis (no_types, lifting))
  then show ?thesis unfolding predecessor_def by simp
qed

lemma avl_successor_ok:
  assumes "avl_index T xs" and "target < MAX_BLOCKS"
  shows "\<exists>T'. avl_successor target T = Some (find (before (entries T) target) xs, T')
     \<and> T' = T\<lparr>hot := hot T'\<rparr> \<and> (low_steps T \<longrightarrow> low_steps T')"
proof -
  obtain n where "n \<le> 27" "descend_high (\<lambda>slot. avl_less (entries T) target slot) (nodes T) (root T) None 0
      = Some (find (before (entries T) target) xs, n)"
    using index_descend_high [OF assms(1), of "\<lambda>slot. avl_less (entries T) target slot" "before (entries T) target"]
      assms(2) before_trans [of "entries T"] avl_less_ok [of _ _ "entries T"] by (metis (no_types, lifting))
  then show ?thesis unfolding avl_successor_def Let_def using count_steps_low by (auto intro: count_steps_hot)
qed

lemma predecessor_before_ok:
  assumes "avl_index T xs"
  shows "\<exists>T'. predecessor_before base ignore T =
     Some (case find (\<lambda>x. b_phys_base (entries T x) < base) (rev xs) of None \<Rightarrow> None
       | Some i \<Rightarrow> if ignore \<noteq> 0 \<and> b_id (entries T i) = ignore then find (\<lambda>x. before (entries T) x i) (rev xs) else Some i, T')
     \<and> T' = T\<lparr>hot := hot T'\<rparr> \<and> (low_steps T \<longrightarrow> low_steps T')"
proof -
  let ?f = "find (\<lambda>x. b_phys_base (entries T x) < base) (rev xs)"
  obtain n where n: "n \<le> 27" "descend_low (base_test (entries T) (\<lambda>b. b < base)) (nodes T) (root T) None 0 = Some (?f, n)"
    using index_descend_low [OF assms, where test = "base_test (entries T) (\<lambda>b. b < base)" and P = "\<lambda>x. b_phys_base (entries T x) < base"] before_base(2) [of "entries T"] base_test_ok
    by (metis (no_types, lifting))
  have lt: "i < MAX_BLOCKS" if "?f = Some i" for i
    using that avl_index_lt [OF assms, of i] by (auto simp: find_Some_iff) (metis nth_mem length_rev set_rev)
  have pr: "predecessor (count_lookup T) i = Some (find (\<lambda>x. before (entries T) x i) (rev xs))" if "i < MAX_BLOCKS" for i
    using predecessor_ok [OF assms that] by (simp add: predecessor_def)
  show ?thesis unfolding predecessor_before_def Let_def using n lt pr count_steps_low [OF _ n(1), of T]
    by (auto split: option.splits intro: count_steps_hot)
qed

lemma minimum_loop_ok: "holds ns (Some x) t \<Longrightarrow> minimum_loop ns x = Some (hd (inorder t))"
proof (induction t arbitrary: x)
  case (Bin l y r)
  then show ?case by (subst minimum_loop.simps) (cases l; auto simp: hd_append)
qed simp

lemma avl_minimum_ok:
  assumes "avl_index T xs"
  shows "avl_minimum T (root T) = Some (case xs of [] \<Rightarrow> None | x # _ \<Rightarrow> Some x)"
proof -
  obtain t where tr: "holds (nodes T) (root T) t" "inorder t = xs" using avl_indexE [OF assms] by metis
  show ?thesis
  proof (cases t)
    case Tip
    then show ?thesis using tr by (auto simp: avl_minimum_def)
  next
    case (Bin l x r)
    then have "root T = Some x" "holds (nodes T) (Some x) t" using tr(1) by auto
    then show ?thesis using minimum_loop_ok [of "nodes T" x t] tr(2) Bin
      by (auto simp: avl_minimum_def split: list.splits)
  qed
qed

lemma ordered_unique:
  "ordered e xs \<Longrightarrow> ordered e ys \<Longrightarrow> set xs = set ys \<Longrightarrow> xs = ys"
proof (induction xs arbitrary: ys)
  case (Cons x xs)
  then obtain y zs where ys: "ys = y # zs" by (cases ys) auto
  have "x = y"
  proof (rule ccontr)
    assume "x \<noteq> y"
    then have "before e x y" "before e y x" using Cons.prems ys by auto
    then show False using before_trans [of e x y x] by simp
  qed
  moreover have "x \<notin> set xs" "y \<notin> set zs" using Cons.prems ys ordered_distinct [of e] by fastforce+
  ultimately show ?case using Cons ys by (metis insert_ident list.simps(15) sorted_wrt.simps(2))
qed simp

text \<open>
  C28. The AVL index is a sorted set of slots. On every table whose node array is a balanced search
  tree, inserting a new slot returns, keeps a balanced search tree whose in-order list is that of the
  old slots and the new one, and touches nothing but the index; removing the slot again returns and
  gives back the old in-order list.
\<close>

theorem avl_insert_remove:
  assumes "avl_index T xs" and "s < MAX_BLOCKS" and "s \<notin> set xs"
  shows "\<exists>T1 ys T2. insert_physical s T = Some T1 \<and> avl_index T1 ys \<and> set ys = insert s (set xs)
     \<and> entries T1 = entries T \<and> block_ids T1 = block_ids T \<and> slots T1 = slots T
     \<and> remove_physical s T1 = Some T2 \<and> avl_index T2 xs \<and> entries T2 = entries T"
proof -
  obtain T1 ys where 1: "insert_physical s T = Some T1" "avl_index T1 ys" "set ys = insert s (set xs)"
     "T1 = T\<lparr>nodes := nodes T1, root := root T1, physical_count := physical_count T + 1\<rparr>"
    using insert_physical_ok [OF assms] by blast
  have e1: "entries T1 = entries T" "block_ids T1 = block_ids T" "slots T1 = slots T"
    by (subst 1(4), simp)+
  obtain T2 zs where 2: "remove_physical s T1 = Some T2" "avl_index T2 zs" "set zs = set ys - {s}"
     "T2 = T1\<lparr>nodes := nodes T2, root := root T2, physical_count := physical_count T2\<rparr>"
    using remove_physical_ok [OF 1(2) assms(2)] by blast
  have e2: "entries T2 = entries T" by (subst 2(4)) (simp add: e1)
  have "ordered (entries T) xs" "ordered (entries T) zs"
    using assms(1) 2(2) e2 unfolding avl_index_def by auto
  moreover have "set zs = set xs" using 2(3) 1(3) assms(3) by auto
  ultimately have "zs = xs" using ordered_unique by metis
  then show ?thesis using 1 2 e1 e2 by blast
qed

lemma sample_index_ok: "avl_index sample_index [5]"
  unfolding avl_index_def
  by (rule conjI, rule exI [of _ "Bin Tip 5 Tip"]) (auto simp: sample_index_def MAX_BLOCKS_def NODE_EMPTY_def TABLE_EMPTY_def)

theorem avl_insert_remove_witness:
  "\<exists>T1 ys T2. insert_physical 3 sample_index = Some T1 \<and> avl_index T1 ys \<and> set ys = {3, 5}
     \<and> entries T1 = entries sample_index \<and> block_ids T1 = block_ids sample_index \<and> slots T1 = slots sample_index
     \<and> remove_physical 3 T1 = Some T2 \<and> avl_index T2 [5] \<and> entries T2 = entries sample_index"
  using avl_insert_remove [OF sample_index_ok, of 3] by (simp add: MAX_BLOCKS_def)

text \<open>
  C29. The searches of the AVL index end, within 27 nodes, and are exact: the floor search returns the
  last slot whose base is at most the key, the lower bound the first slot whose base is at least the
  key, the successor and the predecessor of a slot the neighbours in the order. They change only the
  counters, and the recorded maximum of steps stays at most 27.
\<close>

theorem avl_searches:
  assumes "avl_index T xs" and "target < MAX_BLOCKS" and "physical_step_max (hot T) \<le> 27"
  shows "\<exists>T1 T2 T3.
       avl_floor key T = Some (find (\<lambda>x. b_phys_base (entries T x) \<le> key) (rev xs), T1)
     \<and> avl_lower_bound key T = Some (find (\<lambda>x. key \<le> b_phys_base (entries T x)) xs, T2)
     \<and> avl_successor target T = Some (find (before (entries T) target) xs, T3)
     \<and> predecessor T target = Some (find (\<lambda>x. before (entries T) x target) (rev xs))
     \<and> list_all (\<lambda>T'. T' = T\<lparr>hot := hot T'\<rparr> \<and> physical_step_max (hot T') \<le> 27) [T1, T2, T3]"
  using avl_floor_ok [OF assms(1), of key] avl_lower_bound_ok [OF assms(1), of key]
    avl_successor_ok [OF assms(1,2)] predecessor_ok [OF assms(1,2)] assms(3)
  unfolding low_steps_def list_all_iff list.set by (metis empty_iff insert_iff)

theorem avl_searches_witness:
  "\<exists>T1 T2 T3. avl_floor 30000 sample_index = Some (Some 5, T1)
     \<and> avl_lower_bound 30000 sample_index = Some (None, T2)
     \<and> avl_successor 3 sample_index = Some (Some 5, T3)
     \<and> predecessor sample_index 3 = Some None
     \<and> list_all (\<lambda>T'. T' = sample_index\<lparr>hot := hot T'\<rparr> \<and> physical_step_max (hot T') \<le> 27) [T1, T2, T3]"
  using avl_searches [OF sample_index_ok, of 3 30000]
  by (simp add: MAX_BLOCKS_def sample_index_def TABLE_EMPTY_def HOT_EMPTY_def before_def)

end
