(* ===== verification/Block_Index.thy ===== *)
theory Block_Index
  imports Block_Ids
begin

text \<open>
  Correctness of the identity index and of the reusable-slot bitmap of \<open>Block_Ids\<close>. The identity index
  interprets \<open>probe_ring\<close> and \<open>bounded_map\<close>: its removal, which inserts the rest of a cluster again, is
  followed with the \<open>cluster\<close> invariant of \<open>Probe_Ring\<close> and ends at the next empty cell.
\<close>

section \<open>Cells\<close>

definition cell_live :: "(nat \<Rightarrow> block_id_entry) \<Rightarrow> nat \<Rightarrow> bool" where
  "cell_live t p \<longleftrightarrow> bi_state (t p) = 1"

definition cell_key :: "(nat \<Rightarrow> block_id_entry) \<Rightarrow> nat \<Rightarrow> nat" where
  "cell_key t p = bi_id (t p)"

text \<open>Two states only and one cell for each identity; \<open>cells_ok\<close> adds that every identity is found.\<close>

definition cells_wf :: "(nat \<Rightarrow> block_id_entry) \<Rightarrow> bool" where
  "cells_wf t \<longleftrightarrow> (\<forall>p < ID_CAPACITY. bi_state (t p) \<le> 1) \<and> one_cell ID_CAPACITY (cell_live t) (cell_key t)"

definition cells_ok :: "(nat \<Rightarrow> block_id_entry) \<Rightarrow> bool" where
  "cells_ok t \<longleftrightarrow> cells_wf t \<and> reachable ID_CAPACITY id_start (cell_live t) (cell_live t) (cell_key t)"

definition live_cells :: "(nat \<Rightarrow> block_id_entry) \<Rightarrow> nat set" where
  "live_cells t = {p. p < ID_CAPACITY \<and> cell_live t p}"

definition cells_map :: "(nat \<Rightarrow> block_id_entry) \<Rightarrow> nat \<Rightarrow> nat option" where
  "cells_map t k = (case find (\<lambda>p. cell_live t p \<and> cell_key t p = k) [0..<ID_CAPACITY] of
     Some p \<Rightarrow> Some (bi_slot (t p)) | None \<Rightarrow> None)"

definition cell_stop :: "(nat \<Rightarrow> block_id_entry) \<Rightarrow> nat \<Rightarrow> nat \<Rightarrow> bool" where
  "cell_stop t k c \<longleftrightarrow> \<not> cell_live t c \<or> cell_key t c = k"

definition block_id_inv :: "block_table \<Rightarrow> bool" where
  "block_id_inv T \<longleftrightarrow> cells_ok (block_ids T) \<and> id_count T = card (live_cells (block_ids T)) \<and> id_count T < ID_CAPACITY"

definition block_id_map :: "block_table \<Rightarrow> nat \<Rightarrow> nat option" where
  "block_id_map T = cells_map (block_ids T)"

definition slot_free :: "block_table \<Rightarrow> nat \<Rightarrow> bool" where
  "slot_free T i \<longleftrightarrow> bit (slots T (i div 64)) (i mod 64)"

definition slot_inv :: "block_table \<Rightarrow> bool" where
  "slot_inv T \<longleftrightarrow> next_slot_word T < SLOT_WORDS"

lemma ID_CAPACITY_pos [simp]: "0 < ID_CAPACITY"
  by (simp add: ID_CAPACITY_def MAX_BLOCKS_def)

lemma id_start_lt [simp]: "id_start k < ID_CAPACITY"
  by (simp add: id_start_def)

interpretation block_ring: probe_ring ID_CAPACITY id_start
  by unfold_locales simp

lemma live_cells_finite [simp]: "finite (live_cells t)"
  by (simp add: live_cells_def)

lemma live_cells_le: "card (live_cells t) \<le> ID_CAPACITY"
proof -
  have "live_cells t \<subseteq> {..<ID_CAPACITY}" by (auto simp: live_cells_def)
  from card_mono [OF _ this] show ?thesis by simp
qed

lemma cells_map_None: "cells_map t k = None \<longleftrightarrow> (\<forall>p < ID_CAPACITY. cell_live t p \<longrightarrow> cell_key t p \<noteq> k)"
  by (auto simp: cells_map_def find_None_iff find_Some_iff split: option.splits)

lemma cells_map_Some:
  assumes "cells_wf t"
  shows "cells_map t k = Some s \<longleftrightarrow> (\<exists>p < ID_CAPACITY. cell_live t p \<and> cell_key t p = k \<and> bi_slot (t p) = s)"
proof
  assume "cells_map t k = Some s"
  then show "\<exists>p < ID_CAPACITY. cell_live t p \<and> cell_key t p = k \<and> bi_slot (t p) = s"
    by (auto simp: cells_map_def find_Some_iff split: option.splits)
next
  assume "\<exists>p < ID_CAPACITY. cell_live t p \<and> cell_key t p = k \<and> bi_slot (t p) = s"
  then obtain p where p: "p < ID_CAPACITY" "cell_live t p" "cell_key t p = k" "bi_slot (t p) = s" by blast
  have "one_cell ID_CAPACITY (cell_live t) (cell_key t)" using assms by (simp add: cells_wf_def)
  from find_cell [OF this p(1-3)] show "cells_map t k = Some s" using p(4) by (simp add: cells_map_def)
qed

lemma cells_map_eqI:
  assumes "cells_wf t'"
    and "\<And>k s. (\<exists>p < ID_CAPACITY. cell_live t' p \<and> cell_key t' p = k \<and> bi_slot (t' p) = s)
       \<longleftrightarrow> m k = Some s"
  shows "cells_map t' = m"
proof (rule ext)
  fix k
  have "cells_map t' k = Some s \<longleftrightarrow> m k = Some s" for s
    using cells_map_Some [OF assms(1)] assms(2) by blast
  then show "cells_map t' k = m k" by (metis option.exhaust)
qed

text \<open>All searches stop at the first empty cell or at the cell of the key.\<close>

lemma raw_id_loop_find:
  assumes "a < ID_CAPACITY" and "\<forall>p < ID_CAPACITY. bi_state (t p) \<le> 1"
  shows "raw_id_loop n t k a = Some (case find (cell_stop t k) (ring_seg ID_CAPACITY a n) of
     None \<Rightarrow> None | Some p \<Rightarrow> if cell_live t p then Some (bi_slot (t p)) else None)"
  using assms(1)
proof (induction n arbitrary: a)
  case (Suc n)
  have lt: "(a + 1) mod ID_CAPACITY < ID_CAPACITY" by simp
  have s: "bi_state (t a) = 0 \<or> bi_state (t a) = 1" using assms(2) Suc.prems by (simp add: le_Suc_eq)
  show ?case
  proof (cases "cell_stop t k a")
    case True
    then show ?thesis using Suc.prems s by (auto simp: ring_seg_Suc cell_stop_def cell_live_def cell_key_def Let_def)
  next
    case False
    then show ?thesis using Suc.prems Suc.IH [OF lt] s by (auto simp: ring_seg_Suc cell_stop_def cell_live_def cell_key_def)
  qed
qed simp

lemma block_by_id_loop_find:
  assumes "a < ID_CAPACITY" and "\<forall>p < ID_CAPACITY. bi_state (block_ids T p) \<le> 1"
  shows "\<exists>m. block_by_id_loop n T k a j = Some (case find (cell_stop (block_ids T) k) (ring_seg ID_CAPACITY a n) of
     None \<Rightarrow> None | Some p \<Rightarrow> if cell_live (block_ids T) p \<and> bi_slot (block_ids T p) < MAX_BLOCKS
         \<and> b_slot_used (entries T (bi_slot (block_ids T p))) \<and> b_id (entries T (bi_slot (block_ids T p))) = k
       then Some (bi_slot (block_ids T p)) else None, m)"
  using assms(1)
proof (induction n arbitrary: a j)
  case (Suc n)
  have lt: "(a + 1) mod ID_CAPACITY < ID_CAPACITY" by simp
  have s: "bi_state (block_ids T a) = 0 \<or> bi_state (block_ids T a) = 1" using assms(2) Suc.prems by (simp add: le_Suc_eq)
  show ?case
  proof (cases "cell_stop (block_ids T) k a")
    case True
    then show ?thesis using Suc.prems s by (auto simp: ring_seg_Suc cell_stop_def cell_live_def cell_key_def Let_def)
  next
    case False
    then show ?thesis using Suc.prems Suc.IH [OF lt, of "j + 1"] s by (auto simp: ring_seg_Suc cell_stop_def cell_live_def cell_key_def)
  qed
qed simp

lemma block_insert_id_loop_find:
  assumes "a < ID_CAPACITY" and "\<forall>p < ID_CAPACITY. bi_state (block_ids T p) \<le> 1"
  shows "block_insert_id_loop n k s a T = (case find (cell_stop (block_ids T) k) (ring_seg ID_CAPACITY a n) of
     None \<Rightarrow> None
   | Some p \<Rightarrow> if cell_live (block_ids T) p
       then Some (T\<lparr>block_ids := (block_ids T)(p := (block_ids T p)\<lparr>bi_slot := s\<rparr>)\<rparr>)
       else Some (T\<lparr>block_ids := (block_ids T)(p := \<lparr>bi_state = 1, bi_id = k, bi_slot = s\<rparr>),
                   id_count := min (id_count T + 1) U32_MAX\<rparr>))"
  using assms(1)
proof (induction n arbitrary: a)
  case (Suc n)
  have lt: "(a + 1) mod ID_CAPACITY < ID_CAPACITY" by simp
  have s: "bi_state (block_ids T a) = 0 \<or> bi_state (block_ids T a) = 1" using assms(2) Suc.prems by (simp add: le_Suc_eq)
  show ?case
  proof (cases "cell_stop (block_ids T) k a")
    case True
    then show ?thesis using Suc.prems s by (auto simp: ring_seg_Suc cell_stop_def cell_live_def cell_key_def Let_def)
  next
    case False
    then show ?thesis using Suc.prems Suc.IH [OF lt] s by (auto simp: ring_seg_Suc cell_stop_def cell_live_def cell_key_def)
  qed
qed simp

lemma block_remove_id_loop_find:
  assumes "a < ID_CAPACITY" and "\<forall>p < ID_CAPACITY. bi_state (block_ids T p) \<le> 1"
  shows "block_remove_id_loop n k a T = (case find (cell_stop (block_ids T) k) (ring_seg ID_CAPACITY a n) of
     None \<Rightarrow> Some T
   | Some p \<Rightarrow> if cell_live (block_ids T) p
       then rehash_cluster ((p + 1) mod ID_CAPACITY) (drop_count (T\<lparr>block_ids := (block_ids T)(p := BLOCK_ID_EMPTY)\<rparr>))
       else Some T)"
  using assms(1)
proof (induction n arbitrary: a)
  case (Suc n)
  have lt: "(a + 1) mod ID_CAPACITY < ID_CAPACITY" by simp
  have s: "bi_state (block_ids T a) = 0 \<or> bi_state (block_ids T a) = 1" using assms(2) Suc.prems by (simp add: le_Suc_eq)
  show ?case
  proof (cases "cell_stop (block_ids T) k a")
    case True
    then show ?thesis using Suc.prems s by (auto simp: ring_seg_Suc cell_stop_def cell_live_def cell_key_def Let_def)
  next
    case False
    then show ?thesis using Suc.prems Suc.IH [OF lt] s by (auto simp: ring_seg_Suc cell_stop_def cell_live_def cell_key_def)
  qed
qed simp

lemma cell_find_hit:
  assumes "cells_ok t" and "p < ID_CAPACITY" and "cell_live t p" and "cell_key t p = k"
  shows "find (cell_stop t k) (ring_order ID_CAPACITY (id_start k)) = Some p"
proof -
  have "(\<lambda>c. \<not> cell_live t c \<or> cell_live t c \<and> cell_key t c = k) = cell_stop t k" by (auto simp: cell_stop_def)
  then show ?thesis
    using block_ring.lookup_hit [of "cell_live t" "cell_live t" "cell_key t" p] assms by (simp add: cells_ok_def cells_wf_def)
qed

lemma cell_find_miss:
  assumes "cells_map t k = None" and "find (cell_stop t k) (ring_order ID_CAPACITY (id_start k)) = Some q"
  shows "q < ID_CAPACITY \<and> \<not> cell_live t q"
  using assms unfolding find_ring_Some [OF id_start_lt] cells_map_None cell_stop_def by blast

lemma raw_id_ok: "cells_ok (block_ids T) \<Longrightarrow> raw_id T k = Some (cells_map (block_ids T) k)"
proof -
  assume ok: "cells_ok (block_ids T)"
  let ?t = "block_ids T"
  have wf: "cells_wf ?t" and st: "\<forall>p < ID_CAPACITY. bi_state (?t p) \<le> 1" using ok by (auto simp: cells_ok_def cells_wf_def)
  have "(case find (cell_stop ?t k) (ring_order ID_CAPACITY (id_start k)) of
     None \<Rightarrow> None | Some p \<Rightarrow> if cell_live ?t p then Some (bi_slot (?t p)) else None) = cells_map ?t k"
  proof (cases "cells_map ?t k")
    case None
    then show ?thesis using cell_find_miss [OF None] by (auto split: option.splits)
  next
    case (Some s)
    then obtain p where "p < ID_CAPACITY" "cell_live ?t p" "cell_key ?t p = k" "bi_slot (?t p) = s"
      using cells_map_Some [OF wf] by blast
    then show ?thesis using cell_find_hit [OF ok] Some by simp
  qed
  then show ?thesis using raw_id_loop_find [OF id_start_lt st, of ID_CAPACITY k] by (simp add: raw_id_def ring_seg_full)
qed

lemma block_by_id_ok:
  assumes "cells_ok (block_ids T)"
  shows "\<exists>T'. block_by_id k T = Some (case cells_map (block_ids T) k of None \<Rightarrow> None
     | Some s \<Rightarrow> if s < MAX_BLOCKS \<and> b_slot_used (entries T s) \<and> b_id (entries T s) = k then Some s else None, T')
     \<and> T' = T\<lparr>hot := hot T'\<rparr> \<and> physical_step_max (hot T') = physical_step_max (hot T)"
proof -
  define T1 where "T1 = T\<lparr>hot := (hot T)\<lparr>id_index_lookups := wrapping_add64 (id_index_lookups (hot T)) 1\<rparr>\<rparr>"
  have f: "block_ids T1 = block_ids T" "entries T1 = entries T" by (auto simp: T1_def)
  let ?t = "block_ids T"
  have wf: "cells_wf ?t" and st: "\<forall>p < ID_CAPACITY. bi_state (block_ids T1 p) \<le> 1" using assms by (auto simp: cells_ok_def cells_wf_def f)
  have e: "(case find (cell_stop ?t k) (ring_order ID_CAPACITY (id_start k)) of
     None \<Rightarrow> None | Some p \<Rightarrow> if cell_live ?t p \<and> bi_slot (?t p) < MAX_BLOCKS \<and> b_slot_used (entries T (bi_slot (?t p)))
         \<and> b_id (entries T (bi_slot (?t p))) = k then Some (bi_slot (?t p)) else None) =
     (case cells_map ?t k of None \<Rightarrow> None
     | Some s \<Rightarrow> if s < MAX_BLOCKS \<and> b_slot_used (entries T s) \<and> b_id (entries T s) = k then Some s else None)"
  proof (cases "cells_map ?t k")
    case None
    then show ?thesis using cell_find_miss [OF None] by (auto split: option.splits)
  next
    case (Some s)
    then obtain p where "p < ID_CAPACITY" "cell_live ?t p" "cell_key ?t p = k" "bi_slot (?t p) = s"
      using cells_map_Some [OF wf] by blast
    then show ?thesis using cell_find_hit [OF assms] Some by simp
  qed
  obtain m where "block_by_id_loop ID_CAPACITY T1 k (id_start k) 0 = Some (case cells_map ?t k of None \<Rightarrow> None
     | Some s \<Rightarrow> if s < MAX_BLOCKS \<and> b_slot_used (entries T s) \<and> b_id (entries T s) = k then Some s else None, m)"
    using block_by_id_loop_find [OF id_start_lt st, of ID_CAPACITY k k 0] unfolding f ring_seg_full e by blast
  then show ?thesis unfolding block_by_id_def Let_def T1_def [symmetric]
    by (simp add: T1_def record_id_def record_steps_def Let_def)
qed

lemma cell_upd:
  "cell_live (t(p := e)) = (cell_live t)(p := bi_state e = 1)" "cell_key (t(p := e)) = (cell_key t)(p := bi_id e)"
  by (auto simp: fun_eq_iff cell_live_def cell_key_def)

lemma live_cells_upd:
  "p < ID_CAPACITY \<Longrightarrow> live_cells (t(p := e)) = (if bi_state e = 1 then insert p (live_cells t) else live_cells t - {p})"
  by (auto simp: live_cells_def cell_upd split: if_splits)

text \<open>An insertion of an absent identity takes the first empty cell of its path.\<close>

lemma insert_absent:
  assumes wf: "cells_wf (block_ids T)" and k: "cells_map (block_ids T) k = None"
    and room: "r < ID_CAPACITY" "\<not> cell_live (block_ids T) r"
  obtains q where "q < ID_CAPACITY" "\<not> cell_live (block_ids T) q"
    "\<And>c. c < ID_CAPACITY \<Longrightarrow> on_path ID_CAPACITY (id_start k) c q \<Longrightarrow> c \<noteq> q \<Longrightarrow> cell_live (block_ids T) c"
    "block_insert_id k s T = Some (T\<lparr>block_ids := (block_ids T)(q := \<lparr>bi_state = 1, bi_id = k, bi_slot = s\<rparr>),
        id_count := min (id_count T + 1) U32_MAX\<rparr>)"
proof -
  let ?t = "block_ids T" and ?f = "find (cell_stop (block_ids T) k) (ring_order ID_CAPACITY (id_start k))"
  have st: "\<forall>p < ID_CAPACITY. bi_state (?t p) \<le> 1" using wf by (simp add: cells_wf_def)
  have "?f \<noteq> None" using room by (auto simp: find_ring_None cell_stop_def)
  then obtain q where q: "?f = Some q" by blast
  have e: "q < ID_CAPACITY" "\<not> cell_live ?t q" using cell_find_miss [OF k q] by auto
  have p: "cell_live ?t c" if "c < ID_CAPACITY" "on_path ID_CAPACITY (id_start k) c q" "c \<noteq> q" for c
    using q that unfolding find_ring_Some [OF id_start_lt] cell_stop_def by blast
  have "block_insert_id k s T = Some (T\<lparr>block_ids := ?t(q := \<lparr>bi_state = 1, bi_id = k, bi_slot = s\<rparr>),
        id_count := min (id_count T + 1) U32_MAX\<rparr>)"
    using block_insert_id_loop_find [OF id_start_lt st, of ID_CAPACITY k s k] q e
    by (simp add: block_insert_id_def ring_seg_full)
  then show ?thesis using that e p by blast
qed

lemma cells_wf_put:
  assumes "cells_wf t" and "cells_map t k = None"
  shows "cells_wf (t(q := \<lparr>bi_state = 1, bi_id = k, bi_slot = s\<rparr>))"
  using assms block_ring.one_cell_store [of "cell_live t" "cell_key t" k q]
  unfolding cells_wf_def cells_map_None by (simp add: cell_upd)

lemma cells_wf_clear: "cells_wf t \<Longrightarrow> cells_wf (t(r := BLOCK_ID_EMPTY))"
  unfolding cells_wf_def one_cell_def by (auto simp: cell_upd BLOCK_ID_EMPTY_def)

lemma cells_map_put:
  assumes "cells_wf t" and "cells_map t k = None" and "q < ID_CAPACITY" and "\<not> cell_live t q"
  shows "cells_map (t(q := \<lparr>bi_state = 1, bi_id = k, bi_slot = s\<rparr>)) = (cells_map t)(k \<mapsto> s)"
proof (rule cells_map_eqI [OF cells_wf_put [OF assms(1,2)]])
  fix k' s'
  show "(\<exists>p<ID_CAPACITY. cell_live (t(q := \<lparr>bi_state = 1, bi_id = k, bi_slot = s\<rparr>)) p
      \<and> cell_key (t(q := \<lparr>bi_state = 1, bi_id = k, bi_slot = s\<rparr>)) p = k'
      \<and> bi_slot ((t(q := \<lparr>bi_state = 1, bi_id = k, bi_slot = s\<rparr>)) p) = s') \<longleftrightarrow> ((cells_map t)(k \<mapsto> s)) k' = Some s'"
    using cells_map_Some [OF assms(1), of k' s'] assms(2-4) unfolding cells_map_None cell_upd
    by (auto split: if_splits)
qed

lemma cells_map_clear:
  assumes "cells_wf t" and "r < ID_CAPACITY" and "cell_live t r"
  shows "cells_map (t(r := BLOCK_ID_EMPTY)) = (cells_map t)(cell_key t r := None)"
proof (rule cells_map_eqI [OF cells_wf_clear [OF assms(1)]])
  fix k' s'
  have "p = r" if "p < ID_CAPACITY" "cell_live t p" "cell_key t p = cell_key t r" for p
    using assms that unfolding cells_wf_def one_cell_def by blast
  then show "(\<exists>p<ID_CAPACITY. cell_live (t(r := BLOCK_ID_EMPTY)) p \<and> cell_key (t(r := BLOCK_ID_EMPTY)) p = k'
      \<and> bi_slot ((t(r := BLOCK_ID_EMPTY)) p) = s') \<longleftrightarrow> ((cells_map t)(cell_key t r := None)) k' = Some s'"
    using cells_map_Some [OF assms(1), of k' s'] unfolding cell_upd fun_upd_apply BLOCK_ID_EMPTY_def
    by (simp split: if_splits) metis
qed

lemma rehash_cluster_ok:
  assumes "cluster ID_CAPACITY id_start (cell_live (block_ids T)) (cell_key (block_ids T)) at m d"
    and "cells_wf (block_ids T)" and "id_count T = card (live_cells (block_ids T))"
  shows "\<exists>T'. rehash_cluster ((at + d) mod ID_CAPACITY) T = Some T' \<and> cells_ok (block_ids T')
     \<and> cells_map (block_ids T') = cells_map (block_ids T) \<and> id_count T' = card (live_cells (block_ids T'))
     \<and> id_count T' = id_count T \<and> T' = T\<lparr>block_ids := block_ids T', id_count := id_count T'\<rparr>"
  using assms
proof (induction "m - d" arbitrary: d T)
  case 0
  then have d: "d = m" using clusterD(3) [OF 0(2)] by simp
  let ?t = "block_ids T"
  have at: "at < ID_CAPACITY" and nl: "\<not> cell_live ?t ((at + d) mod ID_CAPACITY)"
    using clusterD(1,5) [OF 0(2)] d by auto
  have "(at + d) mod ID_CAPACITY < ID_CAPACITY" by simp
  then have "rehash_cluster ((at + d) mod ID_CAPACITY) T = Some T"
    using nl by (subst rehash_cluster.simps) (simp add: cell_live_def)
  moreover have "cells_ok ?t" using block_ring.cluster_done 0(2,3) d unfolding cells_ok_def by blast
  ultimately show ?case using 0(4) by auto
next
  case (Suc x)
  let ?t = "block_ids T" and ?r = "(at + d) mod ID_CAPACITY"
  have dm: "d < m" using Suc(2) by simp
  have r: "?r < ID_CAPACITY" "cell_live ?t ?r" using clusterD(4) [OF Suc(3), of d] dm by auto
  let ?k = "cell_key ?t ?r" and ?t1 = "?t(?r := BLOCK_ID_EMPTY)"
  define T1 where "T1 = drop_count (T\<lparr>block_ids := ?t1\<rparr>)"
  have rin: "?r \<in> live_cells ?t" using r by (simp add: live_cells_def)
  then have pos: "card (live_cells ?t) \<noteq> 0" by auto
  have T1: "block_ids T1 = ?t1" "id_count T1 = card (live_cells ?t) - 1"
    using Suc(5) pos by (auto simp: T1_def drop_count_def)
  have wf1: "cells_wf ?t1" by (rule cells_wf_clear [OF Suc(4)])
  have m1: "cells_map ?t1 = (cells_map ?t)(?k := None)" by (rule cells_map_clear [OF Suc(4) r])
  have l1: "\<not> cell_live ?t1 ?r" by (simp add: cell_live_def BLOCK_ID_EMPTY_def)
  obtain q where q: "q < ID_CAPACITY" "\<not> cell_live ?t1 q"
    "\<And>c. c < ID_CAPACITY \<Longrightarrow> on_path ID_CAPACITY (id_start ?k) c q \<Longrightarrow> c \<noteq> q \<Longrightarrow> cell_live ?t1 c"
    "block_insert_id ?k (bi_slot (?t ?r)) T1 = Some (T1\<lparr>block_ids := ?t1(q := \<lparr>bi_state = 1, bi_id = ?k, bi_slot = bi_slot (?t ?r)\<rparr>),
        id_count := min (id_count T1 + 1) U32_MAX\<rparr>)"
    using insert_absent [of T1 ?k ?r "bi_slot (?t ?r)"] wf1 m1 r(1) l1 unfolding T1(1) by auto
  let ?t2 = "?t1(q := \<lparr>bi_state = 1, bi_id = ?k, bi_slot = bi_slot (?t ?r)\<rparr>)"
  define T2 where "T2 = T1\<lparr>block_ids := ?t2, id_count := min (id_count T1 + 1) U32_MAX\<rparr>"
  have wf2: "cells_wf ?t2" by (rule cells_wf_put [OF wf1]) (simp add: m1)
  have m2: "cells_map ?t2 = cells_map ?t"
  proof -
    have "cells_map ?t2 = (cells_map ?t1)(?k \<mapsto> bi_slot (?t ?r))"
      by (rule cells_map_put [OF wf1 _ q(1,2)]) (simp add: m1)
    moreover have "cells_map ?t ?k = Some (bi_slot (?t ?r))" using cells_map_Some [OF Suc(4)] r by blast
    ultimately show ?thesis by (auto simp: m1 fun_eq_iff)
  qed
  have lc: "live_cells ?t2 = insert q (live_cells ?t - {?r})" using r q by (simp add: live_cells_upd BLOCK_ID_EMPTY_def)
  have "q \<notin> live_cells ?t - {?r}" using q(2) by (auto simp: live_cells_def cell_upd BLOCK_ID_EMPTY_def split: if_splits)
  then have card2: "card (live_cells ?t2) = card (live_cells ?t)" unfolding lc using card_Suc_Diff1 [OF _ rin] by simp
  have "id_count T1 + 1 = card (live_cells ?t)" using T1(2) pos by linarith
  moreover have "card (live_cells ?t) \<le> U32_MAX" using live_cells_le [of ?t] by (simp add: ID_CAPACITY_def MAX_BLOCKS_def)
  moreover have "id_count T2 = min (id_count T1 + 1) U32_MAX" by (simp add: T2_def)
  ultimately have cnt2: "id_count T2 = card (live_cells ?t2)" unfolding card2 by linarith
  have cl: "cluster ID_CAPACITY id_start ((cell_live ?t)(?r := False, q := True)) ((cell_key ?t)(q := ?k)) at m (d + 1)"
  proof (rule block_ring.cluster_step [OF Suc(3) dm refl q(1)])
    show "q = ?r \<or> \<not> cell_live ?t q" using q(2) by (auto simp: cell_upd BLOCK_ID_EMPTY_def)
    show "cell_live ?t c \<and> c \<noteq> ?r" if "c < ID_CAPACITY" "on_path ID_CAPACITY (id_start (cell_key ?t ?r)) c q" "c \<noteq> q" for c
      using q(3) [OF that] by (auto simp: cell_upd BLOCK_ID_EMPTY_def split: if_splits)
  qed
  have l2: "cell_live ?t2 = (cell_live ?t)(?r := False, q := True)" by (simp add: cell_upd BLOCK_ID_EMPTY_def)
  have "cluster ID_CAPACITY id_start (cell_live ?t2) (cell_key ?t2) at m (d + 1)"
    unfolding l2 by (rule cluster_key_cong [OF cl]) (auto simp: cell_upd split: if_splits)
  then have c2: "cluster ID_CAPACITY id_start (cell_live (block_ids T2)) (cell_key (block_ids T2)) at m (d + 1)"
    by (simp add: T2_def)
  have bt: "block_ids T2 = ?t2" by (simp add: T2_def)
  have x: "x = m - (d + 1)" using Suc(2) by simp
  have wf2': "cells_wf (block_ids T2)" and cnt2': "id_count T2 = card (live_cells (block_ids T2))"
    unfolding bt by (rule wf2, rule cnt2)
  obtain T' where T': "rehash_cluster ((at + (d + 1)) mod ID_CAPACITY) T2 = Some T'" "cells_ok (block_ids T')"
     "cells_map (block_ids T') = cells_map ?t2" "id_count T' = card (live_cells (block_ids T'))"
     "id_count T' = id_count T2" "T' = T2\<lparr>block_ids := block_ids T', id_count := id_count T'\<rparr>"
    using Suc(1) [OF x c2 wf2' cnt2'] unfolding bt by blast
  have nx: "(?r + 1) mod ID_CAPACITY = (at + (d + 1)) mod ID_CAPACITY" by (simp add: mod_simps)
  have "rehash_cluster ?r T = Some T'"
    using r T'(1) q(4) by (subst rehash_cluster.simps) (simp add: cell_live_def cell_key_def T1_def T2_def nx [simplified])
  moreover have "T' = T\<lparr>block_ids := block_ids T', id_count := id_count T'\<rparr>"
    by (subst T'(6)) (simp add: T2_def T1_def drop_count_def)
  moreover have "id_count T' = id_count T" unfolding T'(5) cnt2 card2 Suc(5) ..
  ultimately show ?case using T'(2,4) T'(3) [unfolded m2] by blast
qed

lemma cells_unique:
  "cells_ok t \<Longrightarrow> p < ID_CAPACITY \<Longrightarrow> q < ID_CAPACITY \<Longrightarrow> cell_live t p \<Longrightarrow> cell_live t q \<Longrightarrow> cell_key t p = cell_key t q \<Longrightarrow> p = q"
  unfolding cells_ok_def cells_wf_def one_cell_def by blast

lemma cells_rewrite:
  assumes ok: "cells_ok t" and p: "p < ID_CAPACITY" "cell_live t p" "cell_key t p = k"
  shows "cells_ok (t(p := (t p)\<lparr>bi_slot := s\<rparr>))" and "cells_map (t(p := (t p)\<lparr>bi_slot := s\<rparr>)) = (cells_map t)(k \<mapsto> s)"
    and "live_cells (t(p := (t p)\<lparr>bi_slot := s\<rparr>)) = live_cells t"
proof -
  let ?t = "t(p := (t p)\<lparr>bi_slot := s\<rparr>)"
  have same: "cell_live ?t = cell_live t" "cell_key ?t = cell_key t" by (auto simp: cell_live_def cell_key_def fun_eq_iff)
  have st: "bi_state (?t q) = bi_state (t q)" for q by simp
  show ok': "cells_ok ?t" using ok unfolding cells_ok_def cells_wf_def same st .
  show "live_cells ?t = live_cells t" by (simp add: live_cells_def same)
  have uniq: "q = p" if "q < ID_CAPACITY" "cell_live t q" "cell_key t q = k" for q
    using cells_unique [OF ok that(1) p(1) that(2) p(2)] that(3) p(3) by simp
  have wf: "cells_wf t" "cells_wf ?t" using ok ok' by (auto simp: cells_ok_def)
  show "cells_map ?t = (cells_map t)(k \<mapsto> s)"
  proof (rule cells_map_eqI [OF wf(2)])
    fix k' s'
    show "(\<exists>q<ID_CAPACITY. cell_live ?t q \<and> cell_key ?t q = k' \<and> bi_slot (?t q) = s') \<longleftrightarrow> ((cells_map t)(k \<mapsto> s)) k' = Some s'"
    proof (cases "k' = k")
      case True
      have sp: "bi_slot (?t p) = s" by simp
      show ?thesis unfolding same True using p uniq sp by (metis (no_types, lifting) fun_upd_same option.inject)
    next
      case False
      have sq: "bi_slot (?t q) = bi_slot (t q)" if "cell_key t q = k'" for q using that p(3) False by auto
      have "((cells_map t)(k \<mapsto> s)) k' = Some s' \<longleftrightarrow> (\<exists>q<ID_CAPACITY. cell_live t q \<and> cell_key t q = k' \<and> bi_slot (t q) = s')"
        using cells_map_Some [OF wf(1), of k' s'] False by simp
      then show ?thesis unfolding same using sq by (metis (no_types, lifting))
    qed
  qed
qed

lemma block_insert_id_ok:
  assumes inv: "block_id_inv T" and room: "id_count T + 1 < ID_CAPACITY \<or> block_id_map T k \<noteq> None"
  shows "\<exists>T'. block_insert_id k s T = Some T' \<and> block_id_inv T' \<and> block_id_map T' = (block_id_map T)(k \<mapsto> s)
     \<and> T' = T\<lparr>block_ids := block_ids T', id_count := id_count T'\<rparr>"
proof -
  let ?t = "block_ids T"
  have ok: "cells_ok ?t" and wf: "cells_wf ?t" and cnt: "id_count T = card (live_cells ?t)" "id_count T < ID_CAPACITY"
    using inv by (auto simp: block_id_inv_def cells_ok_def)
  have st: "\<forall>p < ID_CAPACITY. bi_state (?t p) \<le> 1" using wf by (simp add: cells_wf_def)
  show ?thesis
  proof (cases "cells_map ?t k")
    case None
    have "\<exists>r < ID_CAPACITY. \<not> cell_live ?t r"
    proof (rule ccontr)
      assume "\<not> ?thesis"
      then have "live_cells ?t = {..<ID_CAPACITY}" unfolding live_cells_def by blast
      then show False using cnt by (metis card_lessThan less_irrefl)
    qed
    then obtain r where r: "r < ID_CAPACITY" "\<not> cell_live ?t r" by blast
    obtain q where q: "q < ID_CAPACITY" "\<not> cell_live ?t q"
        "\<And>c. c < ID_CAPACITY \<Longrightarrow> on_path ID_CAPACITY (id_start k) c q \<Longrightarrow> c \<noteq> q \<Longrightarrow> cell_live ?t c"
        "block_insert_id k s T = Some (T\<lparr>block_ids := ?t(q := \<lparr>bi_state = 1, bi_id = k, bi_slot = s\<rparr>),
          id_count := min (id_count T + 1) U32_MAX\<rparr>)"
      using insert_absent [OF wf None r, of s] by blast
    let ?t' = "?t(q := \<lparr>bi_state = 1, bi_id = k, bi_slot = s\<rparr>)"
    have "reachable ID_CAPACITY id_start (cell_live ?t') (cell_live ?t') (cell_key ?t')"
      using block_ring.reachable_store [of "cell_live ?t" "cell_live ?t" "cell_key ?t" q k] ok q
      by (simp add: cell_upd cells_ok_def)
    then have ok': "cells_ok ?t'" using cells_wf_put [OF wf None] by (simp add: cells_ok_def)
    have "q \<notin> live_cells ?t" using q(2) by (simp add: live_cells_def)
    then have "card (live_cells ?t') = id_count T + 1" using q(1) cnt by (simp add: live_cells_upd)
    moreover have "id_count T + 1 < ID_CAPACITY" using room None by (simp add: block_id_map_def)
    moreover have "min (id_count T + 1) U32_MAX = id_count T + 1" using cnt(2) by (simp add: ID_CAPACITY_def MAX_BLOCKS_def)
    moreover have "cells_map ?t' = (cells_map ?t)(k \<mapsto> s)" by (rule cells_map_put [OF wf None q(1,2)])
    ultimately show ?thesis using q(4) ok' by (simp add: block_id_inv_def block_id_map_def)
  next
    case (Some s0)
    then obtain p where p: "p < ID_CAPACITY" "cell_live ?t p" "cell_key ?t p = k" using cells_map_Some [OF wf] by blast
    have "block_insert_id k s T = Some (T\<lparr>block_ids := ?t(p := (?t p)\<lparr>bi_slot := s\<rparr>)\<rparr>)"
      using block_insert_id_loop_find [OF id_start_lt st, of ID_CAPACITY k s k] cell_find_hit [OF ok p] p
      by (simp add: block_insert_id_def ring_seg_full)
    then show ?thesis using cells_rewrite [OF ok p, of s] cnt by (simp add: block_id_inv_def block_id_map_def)
  qed
qed

lemma block_remove_id_ok:
  assumes inv: "block_id_inv T"
  shows "\<exists>T'. block_remove_id k T = Some T' \<and> block_id_inv T' \<and> block_id_map T' = (block_id_map T)(k := None)
     \<and> T' = T\<lparr>block_ids := block_ids T', id_count := id_count T'\<rparr>"
proof -
  let ?t = "block_ids T"
  have ok: "cells_ok ?t" and wf: "cells_wf ?t" and cnt: "id_count T = card (live_cells ?t)" "id_count T < ID_CAPACITY"
    using inv by (auto simp: block_id_inv_def cells_ok_def)
  have st: "\<forall>p < ID_CAPACITY. bi_state (?t p) \<le> 1" using wf by (simp add: cells_wf_def)
  note run = block_remove_id_loop_find [OF id_start_lt st, of ID_CAPACITY k k, folded block_remove_id_def, unfolded ring_seg_full]
  show ?thesis
  proof (cases "cells_map ?t k")
    case None
    have "block_remove_id k T = Some T"
      unfolding run using cell_find_miss [OF None] by (auto split: option.splits)
    then show ?thesis using inv None by (auto simp: block_id_map_def intro!: exI [of _ T])
  next
    case (Some s0)
    then obtain p where p: "p < ID_CAPACITY" "cell_live ?t p" "cell_key ?t p = k" using cells_map_Some [OF wf] by blast
    let ?t1 = "?t(p := BLOCK_ID_EMPTY)"
    define T1 where "T1 = drop_count (T\<lparr>block_ids := ?t1\<rparr>)"
    have pin: "p \<in> live_cells ?t" using p by (simp add: live_cells_def)
    then have pos: "card (live_cells ?t) \<noteq> 0" by auto
    have lc: "live_cells ?t1 = live_cells ?t - {p}" using p(1) by (simp add: live_cells_upd BLOCK_ID_EMPTY_def)
    have T1: "block_ids T1 = ?t1" "id_count T1 = card (live_cells ?t1)" "id_count T1 \<le> id_count T"
      using cnt pos pin unfolding lc by (auto simp: T1_def drop_count_def)
    have r1: "block_remove_id k T = rehash_cluster ((p + 1) mod ID_CAPACITY) T1"
      unfolding run T1_def using cell_find_hit [OF ok p] p(2) by simp
    have lt: "1 + card (live_cells ?t - {p}) < ID_CAPACITY" using cnt card_Suc_Diff1 [OF _ pin] by simp
    have "\<exists>m. 1 \<le> m \<and> m < ID_CAPACITY \<and> \<not> cell_live ?t ((p + m) mod ID_CAPACITY)"
    proof (rule ccontr)
      assume none: "\<not> ?thesis"
      have "q \<in> live_cells ?t" if q: "q < ID_CAPACITY" for q
      proof (cases "q = p")
        case False
        have "1 \<le> ring_dist ID_CAPACITY p q" "ring_dist ID_CAPACITY p q < ID_CAPACITY"
          using ring_dist_zero [OF p(1) q] ring_dist_lt [OF p(1) q] False by (auto simp: Suc_le_eq)
        then show ?thesis using none ring_step_dist [OF p(1) q] q by (auto simp: live_cells_def)
      qed (use pin in simp)
      then have "{..<ID_CAPACITY} \<subseteq> live_cells ?t" by auto
      from card_mono [OF _ this] show False using cnt by simp
    qed
    then obtain m where m: "1 \<le> m" "m < ID_CAPACITY" "\<not> cell_live ?t ((p + m) mod ID_CAPACITY)"
        and first: "\<forall>e < m. \<not> (1 \<le> e \<and> e < ID_CAPACITY \<and> \<not> cell_live ?t ((p + e) mod ID_CAPACITY))"
      using exists_least_iff [of "\<lambda>m. 1 \<le> m \<and> m < ID_CAPACITY \<and> \<not> cell_live ?t ((p + m) mod ID_CAPACITY)"] by blast
    have run1: "\<And>e. 1 \<le> e \<Longrightarrow> e < m \<Longrightarrow> cell_live ?t ((p + e) mod ID_CAPACITY)" using first m(2) less_trans by blast
    have rch: "reachable ID_CAPACITY id_start (cell_live ?t) (cell_live ?t) (cell_key ?t)" using ok by (simp add: cells_ok_def)
    have "cluster ID_CAPACITY id_start ((cell_live ?t)(p := False)) (cell_key ?t) p m 1"
      by (rule block_ring.cluster_start [OF rch p(1) m(1,2) run1 m(3)])
    then have "cluster ID_CAPACITY id_start ((cell_live ?t)(p := False)) (cell_key ?t1) p m 1"
      by (rule cluster_key_cong) (auto simp: cell_upd split: if_splits)
    then have cl: "cluster ID_CAPACITY id_start (cell_live (block_ids T1)) (cell_key (block_ids T1)) p m 1"
      by (simp add: T1(1) cell_upd BLOCK_ID_EMPTY_def)
    have wf1: "cells_wf (block_ids T1)" and cnt1: "id_count T1 = card (live_cells (block_ids T1))"
      using cells_wf_clear [OF wf] T1 by auto
    obtain T' where T': "rehash_cluster ((p + 1) mod ID_CAPACITY) T1 = Some T'" "cells_ok (block_ids T')"
       "cells_map (block_ids T') = cells_map ?t1" "id_count T' = card (live_cells (block_ids T'))"
       "id_count T' = id_count T1" "T' = T1\<lparr>block_ids := block_ids T', id_count := id_count T'\<rparr>"
      using rehash_cluster_ok [OF cl wf1 cnt1] T1(1) by auto
    have "T' = T\<lparr>block_ids := block_ids T', id_count := id_count T'\<rparr>"
      by (subst T'(6)) (simp add: T1_def drop_count_def)
    moreover have "cells_map ?t1 = (cells_map ?t)(k := None)" using cells_map_clear [OF wf p(1,2)] p(3) by simp
    moreover have "id_count T' < ID_CAPACITY" using T'(5) T1(3) cnt(2) by simp
    ultimately show ?thesis using r1 T' by (auto simp: block_id_inv_def block_id_map_def)
  qed
qed

lemma block_id_dom_card: "block_id_inv T \<Longrightarrow> card (dom (block_id_map T)) = id_count T"
proof -
  assume inv: "block_id_inv T"
  let ?t = "block_ids T"
  have "inj_on (cell_key ?t) (live_cells ?t)"
    using inv unfolding block_id_inv_def cells_ok_def cells_wf_def one_cell_def inj_on_def live_cells_def by blast
  moreover have "dom (block_id_map T) = cell_key ?t ` live_cells ?t"
    using cells_map_None [of ?t] by (auto simp: dom_def block_id_map_def live_cells_def)
  ultimately show ?thesis using inv by (simp add: card_image block_id_inv_def)
qed

lemma block_id_dom_finite: "finite (dom (block_id_map T))"
proof (rule finite_subset)
  show "dom (block_id_map T) \<subseteq> cell_key (block_ids T) ` {..<ID_CAPACITY}"
    using cells_map_None [of "block_ids T"] by (auto simp: dom_def block_id_map_def)
qed simp

interpretation block_id_table: bounded_map block_id_inv block_id_map block_insert_id block_remove_id "ID_CAPACITY - 1"
proof unfold_locales
  fix T k v
  assume inv: "block_id_inv T" and c: "card (dom ((block_id_map T)(k \<mapsto> v))) \<le> ID_CAPACITY - 1"
  have "id_count T + 1 < ID_CAPACITY \<or> block_id_map T k \<noteq> None"
  proof (cases "block_id_map T k")
    case None
    then have "k \<notin> dom (block_id_map T)" by (simp add: domIff)
    then have "id_count T + 1 \<le> ID_CAPACITY - 1" using c block_id_dom_card [OF inv] block_id_dom_finite [of T] by simp
    then show ?thesis by (simp add: ID_CAPACITY_def MAX_BLOCKS_def)
  qed simp
  then show "\<exists>T'. block_insert_id k v T = Some T' \<and> block_id_inv T' \<and> block_id_map T' = (block_id_map T)(k \<mapsto> v)"
    using block_insert_id_ok [OF inv, of k v] by blast
next
  fix T k assume inv: "block_id_inv T"
  show "\<exists>T'. block_remove_id k T = Some T' \<and> block_id_inv T' \<and> block_id_map T' = (block_id_map T)(k := None)"
    using block_remove_id_ok [OF inv, of k] by blast
qed

lemma block_id_empty:
  assumes "block_ids T = (\<lambda>_. BLOCK_ID_EMPTY)" and "id_count T = 0"
  shows "block_id_inv T" and "block_id_map T = Map.empty"
  using assms by (auto simp: block_id_inv_def block_id_map_def cells_ok_def cells_wf_def live_cells_def cell_live_def
    BLOCK_ID_EMPTY_def reachable_def one_cell_def cells_map_None fun_eq_iff)

text \<open>
  C30. The identity index of the block catalogue is a finite map. Any sequence of insertions and
  removals that keeps at most 16383 identities at once runs without a panic: every insertion finds a
  cell and the unbounded loop of the removal, which empties a cell and inserts the rest of the cluster
  again, ends. Afterwards a raw lookup returns the slot last stored for the identity, or none, and the
  counter is the number of identities held.
\<close>

theorem block_ids_refine_map:
  assumes "within_capacity (ID_CAPACITY - 1) ops Map.empty"
  shows "\<exists>T. map_run block_insert_id block_remove_id ops TABLE_EMPTY = Some T
     \<and> id_count T = card (dom (fold map_apply ops Map.empty))
     \<and> (\<forall>k. raw_id T k = Some (fold map_apply ops Map.empty k))"
proof -
  have e: "block_id_inv TABLE_EMPTY" "block_id_map TABLE_EMPTY = Map.empty"
    using block_id_empty [of TABLE_EMPTY] by (auto simp: TABLE_EMPTY_def)
  obtain T where "map_run block_insert_id block_remove_id ops TABLE_EMPTY = Some T" "block_id_inv T"
      "block_id_map T = fold map_apply ops Map.empty"
    using block_id_table.run_refines [OF e(1), of ops] assms e(2) by auto
  then show ?thesis using block_id_dom_card [of T] raw_id_ok [of T]
    by (auto simp: block_id_inv_def block_id_map_def)
qed

theorem block_ids_refine_map_witness:
  "\<exists>T. map_run block_insert_id block_remove_id [Put 7 3, Put 9 4, Drop 7] TABLE_EMPTY = Some T
     \<and> id_count T = 1 \<and> raw_id T 7 = Some None \<and> raw_id T 9 = Some (Some 4)"
proof -
  have w: "within_capacity (ID_CAPACITY - 1) [Put 7 3, Put 9 4, Drop 7] (Map.empty :: nat \<Rightarrow> nat option)"
    by (simp add: ID_CAPACITY_def MAX_BLOCKS_def)
  have f: "fold map_apply [Put 7 3, Put 9 4, Drop 7] Map.empty = [9 :: nat \<mapsto> 4 :: nat]"
    by (auto simp: fun_eq_iff)
  show ?thesis using block_ids_refine_map [OF w] unfolding f by auto
qed

section \<open>Reusable slots\<close>

lemma SLOT_WORDS_eq: "SLOT_WORDS = 128" and slot_word_lt [simp]: "i < MAX_BLOCKS \<Longrightarrow> i div 64 < SLOT_WORDS"
  by (simp_all add: SLOT_WORDS_def MAX_BLOCKS_def)

lemma bit_slot_mask: "n < 64 \<Longrightarrow> bit (2 ^ n :: u64) k \<longleftrightarrow> k = n"
  by (auto simp: bit_simps)

lemma slot_word_mask: "i < MAX_BLOCKS \<Longrightarrow> (slots T (i div 64) AND push_bit (i mod 64) 1 \<noteq> 0) \<longleftrightarrow> slot_free T i"
proof -
  let ?w = "slots T (i div 64)"
  have "bit (?w AND push_bit (i mod 64) 1) k \<longleftrightarrow> bit ?w k \<and> k = i mod 64" for k
    by (simp add: bit_and_iff bit_slot_mask)
  then have "?w AND push_bit (i mod 64) 1 = 0 \<longleftrightarrow> \<not> bit ?w (i mod 64)" by (metis bit_eq_iff bit_0_eq bot_apply bot_bool_def)
  then show ?thesis by (simp add: slot_free_def)
qed

lemma same_slot: "(i::nat) div 64 = j div 64 \<Longrightarrow> i mod 64 = j mod 64 \<Longrightarrow> i = j"
  by (metis div_mult_mod_eq)

lemma reusable_ok:
  assumes "i < MAX_BLOCKS" and "slot_inv T"
  shows "\<exists>T'. reusable i flag T = Some T' \<and> slot_inv T' \<and> (\<forall>j. slot_free T' j \<longleftrightarrow> (if j = i then flag else slot_free T j))
     \<and> T' = T\<lparr>slots := slots T', next_slot_word := next_slot_word T'\<rparr>"
proof -
  let ?w = "slots T (i div 64)" and ?m = "push_bit (i mod 64) 1 :: u64"
  define v where "v = (if flag then ?w OR ?m else ?w AND NOT ?m)"
  have bv: "bit v k \<longleftrightarrow> (if k = i mod 64 then flag else bit ?w k)" if "k < 64" for k
    using that by (auto simp: v_def bit_or_iff bit_and_iff bit_not_iff bit_slot_mask)
  define T' where "T' = T\<lparr>slots := (slots T)(i div 64 := v),
     next_slot_word := if flag \<and> i div 64 < next_slot_word T then i div 64 else next_slot_word T\<rparr>"
  have "reusable i flag T = Some T'"
    using assms(1) by (cases flag) (simp_all add: reusable_def T'_def v_def Let_def)
  moreover have "slot_free T' j \<longleftrightarrow> (if j = i then flag else slot_free T j)" for j
    using bv [of "j mod 64"] same_slot [of j i] by (auto simp: slot_free_def T'_def)
  moreover have "slot_inv T'" using assms by (simp add: slot_inv_def T'_def)
  moreover have "T' = T\<lparr>slots := slots T', next_slot_word := next_slot_word T'\<rparr>" by (simp add: T'_def)
  ultimately show ?thesis by blast
qed

lemma free_word_from_ok:
  assumes "\<forall>n \<in> set ns. n < SLOT_WORDS" and "start0 < SLOT_WORDS"
  shows "\<exists>r. free_word_from ws start0 ns = Some r \<and> (case r of
      None \<Rightarrow> \<forall>n \<in> set ns. ws ((start0 + n) mod SLOT_WORDS) = 0
    | Some (slot, index, steps) \<Rightarrow> index < SLOT_WORDS \<and> slot div 64 = index \<and> bit (ws index) (slot mod 64) \<and> slot < MAX_BLOCKS)"
  using assms
proof (induction ns)
  case (Cons n ns)
  let ?i = "(start0 + n) mod SLOT_WORDS"
  have i: "?i < SLOT_WORDS" by (simp add: SLOT_WORDS_eq)
  show ?case
  proof (cases "ws ?i = 0")
    case True
    obtain r where r: "free_word_from ws start0 ns = Some r" "case r of
      None \<Rightarrow> \<forall>n \<in> set ns. ws ((start0 + n) mod SLOT_WORDS) = 0
    | Some (slot, index, steps) \<Rightarrow> index < SLOT_WORDS \<and> slot div 64 = index \<and> bit (ws index) (slot mod 64) \<and> slot < MAX_BLOCKS"
      using Cons by auto
    have "free_word_from ws start0 (n # ns) = Some r" using True i r(1) by simp
    moreover have "case r of
      None \<Rightarrow> \<forall>n \<in> set (n # ns). ws ((start0 + n) mod SLOT_WORDS) = 0
    | Some (slot, index, steps) \<Rightarrow> index < SLOT_WORDS \<and> slot div 64 = index \<and> bit (ws index) (slot mod 64) \<and> slot < MAX_BLOCKS"
      using r(2) True by (cases r) auto
    ultimately show ?thesis by blast
  next
    case False
    note tz = trailing_zeros_props [OF False]
    let ?s = "?i * 64 + trailing_zeros (ws ?i)"
    have "?s div 64 = ?i" "?s mod 64 = trailing_zeros (ws ?i)" using tz(1) by auto
    moreover have "?s < MAX_BLOCKS" using i tz(1) by (simp add: SLOT_WORDS_eq MAX_BLOCKS_def)
    ultimately show ?thesis using False i tz(2) by (simp add: Let_def)
  qed
qed simp

lemma block_free_slot_ok:
  assumes "slot_inv T"
  shows "\<exists>r T'. block_free_slot T = Some (r, T') \<and> T' = T\<lparr>hot := hot T', next_slot_word := next_slot_word T'\<rparr>
     \<and> slot_inv T' \<and> physical_step_max (hot T') = physical_step_max (hot T)
     \<and> (case r of Some s \<Rightarrow> s < MAX_BLOCKS \<and> slot_free T s | None \<Rightarrow> \<forall>i<MAX_BLOCKS. \<not> slot_free T i)"
proof -
  define T0 where "T0 = T\<lparr>hot := (hot T)\<lparr>free_slot_lookups := wrapping_add64 (free_slot_lookups (hot T)) 1\<rparr>\<rparr>"
  have f: "slots T0 = slots T" "next_slot_word T0 = next_slot_word T" by (auto simp: T0_def)
  have n: "next_slot_word T < SLOT_WORDS" using assms by (simp add: slot_inv_def)
  obtain r where r: "free_word_from (slots T) (next_slot_word T) [0..<SLOT_WORDS] = Some r" "case r of
      None \<Rightarrow> \<forall>n \<in> set [0..<SLOT_WORDS]. slots T ((next_slot_word T + n) mod SLOT_WORDS) = 0
    | Some (slot, index, steps) \<Rightarrow> index < SLOT_WORDS \<and> slot div 64 = index \<and> bit (slots T index) (slot mod 64) \<and> slot < MAX_BLOCKS"
    using free_word_from_ok [of "[0..<SLOT_WORDS]" "next_slot_word T" "slots T"] n by auto
  show ?thesis
  proof (cases r)
    case None
    have "\<not> slot_free T i" if i: "i < MAX_BLOCKS" for i
    proof -
      let ?n = "ring_dist SLOT_WORDS (next_slot_word T) (i div 64)"
      have "?n < SLOT_WORDS" "(next_slot_word T + ?n) mod SLOT_WORDS = i div 64"
        using ring_dist_lt [OF n] ring_step_dist [OF n] i by auto
      then have "slots T (i div 64) = 0" using r(2) None by force
      then show ?thesis by (simp add: slot_free_def)
    qed
    then show ?thesis unfolding block_free_slot_def Let_def T0_def [symmetric] f r(1) None
      using assms by (simp add: T0_def record_words_def record_steps_def slot_inv_def Let_def)
  next
    case (Some a)
    then obtain slot index steps where "r = Some (slot, index, steps)" by (cases a) auto
    then show ?thesis unfolding block_free_slot_def Let_def T0_def [symmetric] f r(1)
      using assms r(2) by (auto simp: T0_def record_words_def record_steps_def slot_inv_def slot_free_def Let_def)
  qed
qed

lemma collect_word_ok:
  "\<exists>ys. collect_word n wanted excluded base w acc = acc @ ys \<and> distinct ys \<and> length ys \<le> wanted - length acc
     \<and> (\<forall>y \<in> set ys. y \<noteq> excluded \<and> base \<le> y \<and> y < base + 64 \<and> bit w (y - base))"
proof (induction n arbitrary: w acc)
  case (Suc n)
  show ?case
  proof (cases "w \<noteq> 0 \<and> length acc < wanted")
    case True
    let ?b = "trailing_zeros w"
    note tz = trailing_zeros_props [OF conjunct1 [OF True]]
    let ?w = "w AND NOT (push_bit ?b 1)" and ?acc = "if base + ?b = excluded then acc else acc @ [base + ?b]"
    obtain ys where ys: "collect_word n wanted excluded base ?w ?acc = ?acc @ ys" "distinct ys" "length ys \<le> wanted - length ?acc"
        "\<forall>y \<in> set ys. y \<noteq> excluded \<and> base \<le> y \<and> y < base + 64 \<and> bit ?w (y - base)"
      using Suc [of ?w ?acc] by blast
    have bw: "bit ?w k \<longleftrightarrow> bit w k \<and> k \<noteq> ?b" if "k < 64" for k
      using that tz(1) by (auto simp: bit_and_iff bit_not_iff bit_slot_mask)
    have run: "collect_word (Suc n) wanted excluded base w acc = ?acc @ ys" using True ys(1) by (simp add: Let_def)
    have ny: "base + ?b \<notin> set ys" using ys(4) bw [OF tz(1)] by auto
    have mem: "\<forall>y \<in> set ys. y \<noteq> excluded \<and> base \<le> y \<and> y < base + 64 \<and> bit w (y - base)"
      using ys(4) by (auto simp: bit_and_iff)
    show ?thesis
    proof (cases "base + ?b = excluded")
      case e: True
      show ?thesis unfolding run using e ys(2,3) mem by auto
    next
      case False
      show ?thesis unfolding run using False ys(2,3) mem ny tz(1,2) True
        by (intro exI [of _ "(base + ?b) # ys"]) auto
    qed
  next
    case False
    then show ?thesis by auto
  qed
qed simp

lemma collect_words_ok:
  "\<exists>ys m. collect_words n ws scanned wanted excluded acc = (acc @ ys, m) \<and> distinct ys \<and> length ys \<le> wanted - length acc
     \<and> (\<forall>y \<in> set ys. y \<noteq> excluded \<and> scanned * 64 \<le> y \<and> y < (scanned + n) * 64 \<and> bit (ws (y div 64)) (y mod 64))"
proof (induction n arbitrary: scanned acc)
  case (Suc n)
  show ?case
  proof (cases "length acc < wanted")
    case True
    obtain ys where ys: "collect_word 64 wanted excluded (scanned * 64) (ws scanned) acc = acc @ ys" "distinct ys"
        "length ys \<le> wanted - length acc"
        "\<forall>y \<in> set ys. y \<noteq> excluded \<and> scanned * 64 \<le> y \<and> y < scanned * 64 + 64 \<and> bit (ws scanned) (y - scanned * 64)"
      using collect_word_ok by blast
    obtain zs m where zs: "collect_words n ws (scanned + 1) wanted excluded (acc @ ys) = ((acc @ ys) @ zs, m)" "distinct zs"
        "length zs \<le> wanted - length (acc @ ys)"
        "\<forall>y \<in> set zs. y \<noteq> excluded \<and> (scanned + 1) * 64 \<le> y \<and> y < (scanned + 1 + n) * 64 \<and> bit (ws (y div 64)) (y mod 64)"
      using Suc [of "scanned + 1" "acc @ ys"] by blast
    have y1: "y \<noteq> excluded \<and> scanned * 64 \<le> y \<and> y < (scanned + Suc n) * 64 \<and> bit (ws (y div 64)) (y mod 64)" if "y \<in> set ys" for y
    proof -
      have y: "y \<noteq> excluded" "scanned * 64 \<le> y" "y < scanned * 64 + 64" "bit (ws scanned) (y - scanned * 64)" using ys(4) that by auto
      have "y div 64 = scanned" using y(2,3) by (metis add.commute div_nat_eqI mult.commute mult_Suc)
      moreover from this have "y mod 64 = y - scanned * 64" by (metis minus_div_mult_eq_mod)
      ultimately show ?thesis using y by auto
    qed
    have "set ys \<inter> set zs = {}" using ys(4) zs(4) by fastforce
    then show ?thesis using True ys zs y1 by (intro exI [of _ "ys @ zs"] exI [of _ m]) auto
  next
    case False
    then show ?thesis by auto
  qed
qed simp

lemma collect_slots_ok:
  "\<exists>ys T'. collect_slots acc wanted excluded T = (acc @ ys, T') \<and> T' = T\<lparr>hot := hot T'\<rparr>
     \<and> physical_step_max (hot T') = physical_step_max (hot T)
     \<and> distinct ys \<and> length ys \<le> wanted - length acc \<and> (\<forall>y \<in> set ys. y \<noteq> excluded \<and> y < MAX_BLOCKS \<and> slot_free T y)"
proof -
  obtain ys m where "collect_words SLOT_WORDS (slots T) 0 wanted excluded acc = (acc @ ys, m)" "distinct ys"
     "length ys \<le> wanted - length acc"
     "\<forall>y \<in> set ys. y \<noteq> excluded \<and> 0 * 64 \<le> y \<and> y < (0 + SLOT_WORDS) * 64 \<and> bit (slots T (y div 64)) (y mod 64)"
    using collect_words_ok by blast
  then show ?thesis
    by (auto simp: collect_slots_def slot_free_def SLOT_WORDS_eq MAX_BLOCKS_def record_words_def record_steps_def Let_def)
qed

end
