(* ===== verification/Block_Inv.thy ===== *)
theory Block_Inv
  imports Block_Release Block_Avl Block_Index
begin

text \<open>
  The block catalogue's index invariant, over the model of \<open>src/Rust/memory/blocks.rs\<close>: the AVL index, the
  identity index and the slot bitmap hold exactly what the entries require. Replacing an entry and
  rebuilding the indices from the entries establish it.
\<close>

section \<open>The indices agree with the entries\<close>

text \<open>
  \<open>tree_part\<close>, \<open>id_part\<close> and \<open>slot_part\<close> say that the AVL index, the identity index and the slot bitmap
  hold exactly what the entries of the slots \<open>S\<close> require; \<open>part_inv S\<close> is all of them.
\<close>

definition tree_part :: "nat set \<Rightarrow> block_table \<Rightarrow> bool" where
  "tree_part S T \<longleftrightarrow> (\<exists>xs. avl_index T xs \<and> set xs = {i \<in> S. physical_index (entries T i)})"

definition id_part :: "nat set \<Rightarrow> block_table \<Rightarrow> bool" where
  "id_part S T \<longleftrightarrow> block_id_inv T
     \<and> (\<forall>k s. block_id_map T k = Some s \<longleftrightarrow> s \<in> S \<and> b_slot_used (entries T s) \<and> b_id (entries T s) = k)"

definition reusable_entry :: "block \<Rightarrow> bool" where
  "reusable_entry b \<longleftrightarrow> \<not> b_slot_used b \<or> b_status b = RELEASED"

definition slot_part :: "nat set \<Rightarrow> block_table \<Rightarrow> bool" where
  "slot_part S T \<longleftrightarrow> slot_inv T \<and> (\<forall>i \<in> S. slot_free T i \<longleftrightarrow> reusable_entry (entries T i))"

definition part_inv :: "nat set \<Rightarrow> block_table \<Rightarrow> bool" where
  "part_inv S T \<longleftrightarrow> S \<subseteq> {..<MAX_BLOCKS} \<and> tree_part S T \<and> id_part S T \<and> slot_part S T \<and> low_steps T"

definition idx_inv :: "block_table \<Rightarrow> bool" where
  "idx_inv T = part_inv {..<MAX_BLOCKS} T"

text \<open>What an operation on one index keeps.\<close>

definition keeps :: "block_table \<Rightarrow> block_table \<Rightarrow> bool" where
  "keeps T T' \<longleftrightarrow> entries T' = entries T \<and> bt_next_id T' = bt_next_id T \<and> initialized T' = initialized T"

definition same_tree :: "block_table \<Rightarrow> block_table \<Rightarrow> bool" where
  "same_tree T T' \<longleftrightarrow> nodes T' = nodes T \<and> root T' = root T \<and> physical_count T' = physical_count T"

definition same_ids :: "block_table \<Rightarrow> block_table \<Rightarrow> bool" where
  "same_ids T T' \<longleftrightarrow> block_ids T' = block_ids T \<and> id_count T' = id_count T"

definition same_slots :: "block_table \<Rightarrow> block_table \<Rightarrow> bool" where
  "same_slots T T' \<longleftrightarrow> slots T' = slots T \<and> next_slot_word T' = next_slot_word T"

lemmas frames = keeps_def same_tree_def same_ids_def same_slots_def

text \<open>Linking slot \<open>i\<close>: the three updates that a replacement and a rebuild make after writing the entry.\<close>

definition link_slot :: "nat \<Rightarrow> block_table \<Rightarrow> block_table outcome" where
  "link_slot i T = do {
     T1 \<leftarrow> reusable i (\<not> b_slot_used (entries T i) \<or> b_status (entries T i) = RELEASED) T;
     T2 \<leftarrow> (if b_slot_used (entries T i) then block_insert_id (b_id (entries T i)) i T1 else Some T1);
     if physical_index (entries T i) then insert_physical i T2 else Some T2
   }"

definition unlink_slot :: "nat \<Rightarrow> block_table \<Rightarrow> block_table outcome" where
  "unlink_slot i T = do {
     T1 \<leftarrow> (if in_tree (nodes T i) then remove_physical i T else Some T);
     if b_slot_used (entries T1 i) then block_remove_id (b_id (entries T1 i)) T1 else Some T1
   }"

text \<open>Writing an entry: all indices follow; the identity must not belong to another slot in use.\<close>

definition new_id :: "(nat \<Rightarrow> block) \<Rightarrow> nat \<Rightarrow> block \<Rightarrow> bool" where
  "new_id ents i e \<longleftrightarrow> (b_slot_used e \<longrightarrow> (\<forall>j < MAX_BLOCKS. j \<noteq> i \<and> b_slot_used (ents j) \<longrightarrow> b_id (ents j) \<noteq> b_id e))"

definition unique_ids :: "(nat \<Rightarrow> block) \<Rightarrow> bool" where
  "unique_ids ents \<longleftrightarrow> (\<forall>i < MAX_BLOCKS. \<forall>j < MAX_BLOCKS. b_slot_used (ents i) \<and> b_slot_used (ents j)
     \<and> b_id (ents i) = b_id (ents j) \<longrightarrow> i = j)"

lemma keeps_refl [simp]: "keeps T T" and keeps_trans: "keeps T T' \<Longrightarrow> keeps T' T'' \<Longrightarrow> keeps T T''"
  by (auto simp: keeps_def)

lemma frame_tree:
  assumes "T' = T\<lparr>nodes := nodes T', root := root T', physical_count := n\<rparr>"
  shows "keeps T T'" "same_ids T T'" "same_slots T T'" "hot T' = hot T"
  unfolding frames by (subst assms, simp)+

lemma frame_ids:
  assumes "T' = T\<lparr>block_ids := block_ids T', id_count := id_count T'\<rparr>"
  shows "keeps T T'" "same_tree T T'" "same_slots T T'" "hot T' = hot T"
  unfolding frames by (subst assms, simp)+

lemma frame_slots:
  assumes "T' = T\<lparr>slots := slots T', next_slot_word := next_slot_word T'\<rparr>"
  shows "keeps T T'" "same_tree T T'" "same_ids T T'" "hot T' = hot T"
  unfolding frames by (subst assms, simp)+

lemma frame_hot:
  assumes "T' = T\<lparr>hot := hot T'\<rparr>"
  shows "keeps T T'" "same_tree T T'" "same_ids T T'" "same_slots T T'"
  unfolding frames by (subst assms, simp)+

text \<open>The parts depend on their own fields and on the entries of their slots.\<close>

lemma tree_part_cong:
  assumes "tree_part S T" and "same_tree T T'" and "\<And>i. i \<in> S \<Longrightarrow> entries T' i = entries T i"
  shows "tree_part S T'"
proof -
  obtain xs where xs: "avl_index T xs" "set xs = {i \<in> S. physical_index (entries T i)}" using assms(1) by (auto simp: tree_part_def)
  have "avl_index T' xs" using avl_index_cong [OF xs(1)] assms(2,3) xs(2) by (simp add: same_tree_def)
  moreover have "set xs = {i \<in> S. physical_index (entries T' i)}" using xs(2) assms(3) by auto
  ultimately show ?thesis by (auto simp: tree_part_def)
qed

lemma id_part_cong:
  assumes "id_part S T" and "same_ids T T'" and "\<And>i. i \<in> S \<Longrightarrow> entries T' i = entries T i"
  shows "id_part S T'"
proof -
  have "block_id_inv T' = block_id_inv T" "block_id_map T' = block_id_map T"
    using assms(2) by (auto simp: same_ids_def block_id_inv_def block_id_map_def)
  then show ?thesis using assms(1,3) unfolding id_part_def by metis
qed

lemma slot_part_cong:
  assumes "slot_part S T" and "same_slots T T'" and "\<And>i. i \<in> S \<Longrightarrow> entries T' i = entries T i"
  shows "slot_part S T'"
  using assms by (simp add: slot_part_def same_slots_def slot_inv_def slot_free_def)

lemma part_inv_hot:
  assumes "part_inv S T" and "T' = T\<lparr>hot := hot T'\<rparr>" and "low_steps T'"
  shows "part_inv S T'"
  using assms(1,3) frame_hot [OF assms(2)] tree_part_cong [of S T T'] id_part_cong [of S T T'] slot_part_cong [of S T T']
  by (simp add: part_inv_def keeps_def)

lemma id_part_count: "id_part S T \<Longrightarrow> S \<subseteq> {..<MAX_BLOCKS} \<Longrightarrow> id_count T \<le> MAX_BLOCKS"
proof -
  assume a: "id_part S T" "S \<subseteq> {..<MAX_BLOCKS}"
  have inv: "block_id_inv T" and m: "\<And>k s. block_id_map T k = Some s \<longleftrightarrow> s \<in> S \<and> b_slot_used (entries T s) \<and> b_id (entries T s) = k"
    using a(1) by (auto simp: id_part_def)
  have "dom (block_id_map T) \<subseteq> (\<lambda>s. b_id (entries T s)) ` {..<MAX_BLOCKS}" using m a(2) by (auto simp: dom_def)
  from surj_card_le [OF _ this] show ?thesis using block_id_dom_card [OF inv] by simp
qed

section \<open>Linking and unlinking one slot\<close>

lemma remove_tree_step:
  assumes "tree_part S T" and "S \<subseteq> {..<MAX_BLOCKS}" and "i < MAX_BLOCKS"
  shows "\<exists>T'. (if in_tree (nodes T i) then remove_physical i T else Some T) = Some T' \<and> tree_part (S - {i}) T'
     \<and> keeps T T' \<and> same_ids T T' \<and> same_slots T T' \<and> hot T' = hot T"
proof -
  obtain xs where xs: "avl_index T xs" "set xs = {i \<in> S. physical_index (entries T i)}" using assms(1) by (auto simp: tree_part_def)
  show ?thesis
  proof (cases "in_tree (nodes T i)")
    case True
    obtain T' xs' where T': "remove_physical i T = Some T'" "avl_index T' xs'" "set xs' = set xs - {i}"
       "T' = T\<lparr>nodes := nodes T', root := root T', physical_count := physical_count T'\<rparr>"
      using remove_physical_ok [OF xs(1) assms(3)] by blast
    note fr = frame_tree [OF T'(4)]
    have "set xs' = {j \<in> S - {i}. physical_index (entries T' j)}" using T'(3) xs(2) fr(1) by (auto simp: keeps_def)
    then show ?thesis using T' fr True by (auto simp: tree_part_def)
  next
    case False
    then have "i \<notin> set xs" using xs(1) assms(3) by (simp add: avl_index_def)
    then have "set xs = {j \<in> S - {i}. physical_index (entries T j)}" using xs(2) by auto
    then show ?thesis using False xs(1) by (auto simp: tree_part_def frames)
  qed
qed

lemma insert_tree_step:
  assumes "tree_part S T" and "i \<notin> S" and "i < MAX_BLOCKS"
  shows "\<exists>T'. (if physical_index (entries T i) then insert_physical i T else Some T) = Some T' \<and> tree_part (insert i S) T'
     \<and> keeps T T' \<and> same_ids T T' \<and> same_slots T T' \<and> hot T' = hot T"
proof -
  obtain xs where xs: "avl_index T xs" "set xs = {i \<in> S. physical_index (entries T i)}" using assms(1) by (auto simp: tree_part_def)
  show ?thesis
  proof (cases "physical_index (entries T i)")
    case True
    have "i \<notin> set xs" using xs(2) assms(2) by auto
    then obtain T' xs' where T': "insert_physical i T = Some T'" "avl_index T' xs'" "set xs' = insert i (set xs)"
       "T' = T\<lparr>nodes := nodes T', root := root T', physical_count := physical_count T + 1\<rparr>"
      using insert_physical_ok [OF xs(1) assms(3)] by blast
    note fr = frame_tree [OF T'(4)]
    have "set xs' = {j \<in> insert i S. physical_index (entries T' j)}" using T'(3) xs(2) fr(1) True by (auto simp: keeps_def)
    then show ?thesis using T' fr True by (auto simp: tree_part_def)
  next
    case False
    then have "set xs = {j \<in> insert i S. physical_index (entries T j)}" using xs(2) by auto
    then show ?thesis using False xs(1) by (auto simp: tree_part_def frames)
  qed
qed

lemma remove_id_step:
  assumes "id_part S T" and "i \<in> S"
  shows "\<exists>T'. (if b_slot_used (entries T i) then block_remove_id (b_id (entries T i)) T else Some T) = Some T'
     \<and> id_part (S - {i}) T' \<and> keeps T T' \<and> same_tree T T' \<and> same_slots T T' \<and> hot T' = hot T"
proof -
  have inv: "block_id_inv T" and m: "\<And>k s. block_id_map T k = Some s \<longleftrightarrow> s \<in> S \<and> b_slot_used (entries T s) \<and> b_id (entries T s) = k"
    using assms(1) by (auto simp: id_part_def)
  show ?thesis
  proof (cases "b_slot_used (entries T i)")
    case True
    let ?k = "b_id (entries T i)"
    have uniq: "s = i" if "s \<in> S" "b_slot_used (entries T s)" "b_id (entries T s) = ?k" for s
      using m [of ?k s] m [of ?k i] that True assms(2) by simp
    obtain T' where T': "block_remove_id ?k T = Some T'" "block_id_inv T'" "block_id_map T' = (block_id_map T)(?k := None)"
       "T' = T\<lparr>block_ids := block_ids T', id_count := id_count T'\<rparr>"
      using block_remove_id_ok [OF inv] by blast
    note fr = frame_ids [OF T'(4)]
    have "block_id_map T' k = Some s \<longleftrightarrow> s \<in> S - {i} \<and> b_slot_used (entries T' s) \<and> b_id (entries T' s) = k" for k s
      using m [of k s] uniq [of s] T'(3) fr(1) by (auto simp: keeps_def)
    then show ?thesis using T' fr True by (auto simp: id_part_def)
  next
    case False
    then have "id_part (S - {i}) T" using assms(1) by (auto simp: id_part_def)
    then show ?thesis using False by (auto simp: frames)
  qed
qed

lemma insert_id_step:
  assumes "id_part S T" and "S \<subseteq> {..<MAX_BLOCKS}" and "i \<notin> S"
    and "b_slot_used (entries T i) \<Longrightarrow> \<forall>j \<in> S. b_slot_used (entries T j) \<longrightarrow> b_id (entries T j) \<noteq> b_id (entries T i)"
  shows "\<exists>T'. (if b_slot_used (entries T i) then block_insert_id (b_id (entries T i)) i T else Some T) = Some T'
     \<and> id_part (insert i S) T' \<and> keeps T T' \<and> same_tree T T' \<and> same_slots T T' \<and> hot T' = hot T"
proof -
  have inv: "block_id_inv T" and m: "\<And>k s. block_id_map T k = Some s \<longleftrightarrow> s \<in> S \<and> b_slot_used (entries T s) \<and> b_id (entries T s) = k"
    using assms(1) by (auto simp: id_part_def)
  show ?thesis
  proof (cases "b_slot_used (entries T i)")
    case True
    let ?k = "b_id (entries T i)"
    have "id_count T + 1 < ID_CAPACITY" using id_part_count [OF assms(1,2)] by (simp add: ID_CAPACITY_def MAX_BLOCKS_def)
    then obtain T' where T': "block_insert_id ?k i T = Some T'" "block_id_inv T'" "block_id_map T' = (block_id_map T)(?k \<mapsto> i)"
       "T' = T\<lparr>block_ids := block_ids T', id_count := id_count T'\<rparr>"
      using block_insert_id_ok [OF inv, of ?k i] by blast
    note fr = frame_ids [OF T'(4)]
    have ne: "b_id (entries T s) \<noteq> ?k" if "s \<in> S" "b_slot_used (entries T s)" for s using assms(4) [OF True] that by blast
    have "block_id_map T' k = Some s \<longleftrightarrow> s \<in> insert i S \<and> b_slot_used (entries T' s) \<and> b_id (entries T' s) = k" for k s
      using m [of k s] ne [of s] T'(3) fr(1) True assms(3) by (auto simp: keeps_def)
    then show ?thesis using T' fr True by (auto simp: id_part_def)
  next
    case False
    then have "id_part (insert i S) T" using assms(1) by (auto simp: id_part_def)
    then show ?thesis using False by (auto simp: frames)
  qed
qed

lemma slot_step:
  assumes "slot_part S T" and "i < MAX_BLOCKS"
  shows "\<exists>T'. reusable i (\<not> b_slot_used (entries T i) \<or> b_status (entries T i) = RELEASED) T = Some T'
     \<and> slot_part (insert i S) T' \<and> keeps T T' \<and> same_tree T T' \<and> same_ids T T' \<and> hot T' = hot T"
proof -
  have inv: "slot_inv T" using assms(1) by (simp add: slot_part_def)
  let ?flag = "\<not> b_slot_used (entries T i) \<or> b_status (entries T i) = RELEASED"
  obtain T' where T': "reusable i ?flag T = Some T'" "slot_inv T'"
     "\<forall>j. slot_free T' j \<longleftrightarrow> (if j = i then ?flag else slot_free T j)"
     "T' = T\<lparr>slots := slots T', next_slot_word := next_slot_word T'\<rparr>"
    using reusable_ok [OF assms(2) inv, of ?flag] by blast
  note fr = frame_slots [OF T'(4)]
  have "slot_part (insert i S) T'"
    using T'(2,3) assms(1) fr(1) by (simp add: slot_part_def keeps_def reusable_entry_def)
  then show ?thesis using T'(1) fr by blast
qed

lemma low_steps_hot: "hot T' = hot T \<Longrightarrow> low_steps T' = low_steps T"
  by (simp add: low_steps_def)

lemma link_slot_ok:
  assumes inv: "part_inv S T" and i: "i \<notin> S" "i < MAX_BLOCKS"
    and new: "b_slot_used (entries T i) \<Longrightarrow> \<forall>j \<in> S. b_slot_used (entries T j) \<longrightarrow> b_id (entries T j) \<noteq> b_id (entries T i)"
  shows "\<exists>T'. link_slot i T = Some T' \<and> part_inv (insert i S) T' \<and> keeps T T'"
proof -
  have p: "S \<subseteq> {..<MAX_BLOCKS}" "tree_part S T" "id_part S T" "slot_part S T" "low_steps T" using inv by (auto simp: part_inv_def)
  obtain T1 where 1: "reusable i (\<not> b_slot_used (entries T i) \<or> b_status (entries T i) = RELEASED) T = Some T1"
     "slot_part (insert i S) T1" "keeps T T1" "same_tree T T1" "same_ids T T1" "hot T1 = hot T"
    using slot_step [OF p(4) i(2)] by blast
  have e1: "entries T1 = entries T" using 1(3) by (simp add: keeps_def)
  have id1: "id_part S T1" using id_part_cong [OF p(3) 1(5)] e1 by simp
  obtain T2 where 2: "(if b_slot_used (entries T1 i) then block_insert_id (b_id (entries T1 i)) i T1 else Some T1) = Some T2"
     "id_part (insert i S) T2" "keeps T1 T2" "same_tree T1 T2" "same_slots T1 T2" "hot T2 = hot T1"
    using insert_id_step [OF id1 p(1) i(1)] new unfolding e1 by blast
  have e2: "entries T2 = entries T" using 2(3) e1 by (simp add: keeps_def)
  have st2: "same_tree T T2" using 1(4) 2(4) by (simp add: same_tree_def)
  have t2: "tree_part S T2" using tree_part_cong [OF p(2) st2] e2 by simp
  have s2: "slot_part (insert i S) T2" using slot_part_cong [OF 1(2) 2(5)] e1 e2 by simp
  obtain T3 where 3: "(if physical_index (entries T2 i) then insert_physical i T2 else Some T2) = Some T3"
     "tree_part (insert i S) T3" "keeps T2 T3" "same_ids T2 T3" "same_slots T2 T3" "hot T3 = hot T2"
    using insert_tree_step [OF t2 i] by blast
  have e3: "entries T3 = entries T" using 3(3) e2 by (simp add: keeps_def)
  have i3: "id_part (insert i S) T3" using id_part_cong [OF 2(2) 3(4)] e2 e3 by simp
  have s3: "slot_part (insert i S) T3" using slot_part_cong [OF s2 3(5)] e2 e3 by simp
  have "low_steps T3" using p(5) 1(6) 2(6) 3(6) by (simp add: low_steps_def)
  then have "part_inv (insert i S) T3" using 3(2) i3 s3 p(1) i(2) by (simp add: part_inv_def)
  moreover have "link_slot i T = Some T3" using 1(1) 2(1) 3(1) unfolding link_slot_def e1 e2 by simp
  moreover have "keeps T T3" using 1(3) 2(3) 3(3) keeps_trans by blast
  ultimately show ?thesis by blast
qed

lemma unlink_slot_ok:
  assumes inv: "part_inv S T" and i: "i \<in> S"
  shows "\<exists>T'. unlink_slot i T = Some T' \<and> part_inv (S - {i}) T' \<and> keeps T T'"
proof -
  have p: "S \<subseteq> {..<MAX_BLOCKS}" "tree_part S T" "id_part S T" "slot_part S T" "low_steps T" using inv by (auto simp: part_inv_def)
  have lt: "i < MAX_BLOCKS" using p(1) i by auto
  obtain T1 where 1: "(if in_tree (nodes T i) then remove_physical i T else Some T) = Some T1"
     "tree_part (S - {i}) T1" "keeps T T1" "same_ids T T1" "same_slots T T1" "hot T1 = hot T"
    using remove_tree_step [OF p(2,1) lt] by blast
  have e1: "entries T1 = entries T" using 1(3) by (simp add: keeps_def)
  have id1: "id_part S T1" using id_part_cong [OF p(3) 1(4)] e1 by simp
  obtain T2 where 2: "(if b_slot_used (entries T1 i) then block_remove_id (b_id (entries T1 i)) T1 else Some T1) = Some T2"
     "id_part (S - {i}) T2" "keeps T1 T2" "same_tree T1 T2" "same_slots T1 T2" "hot T2 = hot T1"
    using remove_id_step [OF id1 i] by blast
  have e2: "entries T2 = entries T" using 2(3) e1 by (simp add: keeps_def)
  have t2: "tree_part (S - {i}) T2" using tree_part_cong [OF 1(2) 2(4)] e1 e2 by simp
  have "same_slots T T2" using 1(5) 2(5) by (simp add: same_slots_def)
  then have "slot_part S T2" using slot_part_cong [OF p(4)] e2 by simp
  then have "slot_part (S - {i}) T2" by (simp add: slot_part_def)
  moreover have "low_steps T2" using p(5) 1(6) 2(6) by (simp add: low_steps_def)
  ultimately have "part_inv (S - {i}) T2" using t2 2(2) p(1) by (auto simp: part_inv_def)
  moreover have "unlink_slot i T = Some T2" using 1(1) 2(1) unfolding unlink_slot_def by simp
  moreover have "keeps T T2" using 1(3) 2(3) keeps_trans by blast
  ultimately show ?thesis by blast
qed

section \<open>Replacement and rebuild\<close>

lemma block_replace_eq:
  "i < MAX_BLOCKS \<Longrightarrow> block_replace i e T = do {
     T2 \<leftarrow> unlink_slot i T;
     T4 \<leftarrow> link_slot i (T2\<lparr>entries := (entries T2)(i := e)\<rparr>);
     Some (count_mutation T4)
   }"
  by (simp add: block_replace_def unlink_slot_def link_slot_def bind_assoc cong: if_cong)

lemma part_inv_cong:
  assumes "part_inv S T" and "same_tree T T'" "same_ids T T'" "same_slots T T'" "low_steps T'"
    and "\<And>i. i \<in> S \<Longrightarrow> entries T' i = entries T i"
  shows "part_inv S T'"
  using assms tree_part_cong [of S T T'] id_part_cong [of S T T'] slot_part_cong [of S T T'] by (simp add: part_inv_def)

lemma block_replace_ok:
  assumes inv: "idx_inv T" and i: "i < MAX_BLOCKS" and new: "new_id (entries T) i e"
  shows "\<exists>T'. block_replace i e T = Some T' \<and> idx_inv T' \<and> entries T' = (entries T)(i := e)
     \<and> bt_next_id T' = bt_next_id T \<and> initialized T' = initialized T"
proof -
  let ?A = "{..<MAX_BLOCKS}"
  obtain T1 where 1: "unlink_slot i T = Some T1" "part_inv (?A - {i}) T1" "keeps T T1"
    using unlink_slot_ok [of ?A T i] inv i by (auto simp: idx_inv_def)
  let ?T = "T1\<lparr>entries := (entries T1)(i := e)\<rparr>"
  have e1: "entries T1 = entries T" using 1(3) by (simp add: keeps_def)
  have p: "part_inv (?A - {i}) ?T"
    by (rule part_inv_cong [OF 1(2)]) (use 1(2) in \<open>auto simp: frames part_inv_def low_steps_def\<close>)
  have u: "\<forall>j \<in> ?A - {i}. b_slot_used (entries ?T j) \<longrightarrow> b_id (entries ?T j) \<noteq> b_id (entries ?T i)"
    if "b_slot_used (entries ?T i)" using new that e1 by (auto simp: new_id_def)
  obtain T2 where 2: "link_slot i ?T = Some T2" "part_inv (insert i (?A - {i})) T2" "keeps ?T T2"
    using link_slot_ok [OF p _ i u] by auto
  have "insert i (?A - {i}) = ?A" using i by auto
  then have "idx_inv (count_mutation T2)"
    using 2(2) part_inv_cong [of ?A T2 "count_mutation T2"]
    by (simp add: idx_inv_def frames count_mutation_def low_steps_def part_inv_def)
  moreover have "block_replace i e T = Some (count_mutation T2)" using 1(1) 2(1) i by (simp add: block_replace_eq)
  moreover have "entries (count_mutation T2) = (entries T)(i := e)" "bt_next_id (count_mutation T2) = bt_next_id T"
     "initialized (count_mutation T2) = initialized T"
    using 1(3) 2(3) by (auto simp: keeps_def count_mutation_def)
  ultimately show ?thesis by blast
qed

lemma block_rebuild_from_eq:
  "i < MAX_BLOCKS \<Longrightarrow> block_rebuild_from (i # rest) T = do { T' \<leftarrow> link_slot i T; block_rebuild_from rest T' }"
  by (simp add: link_slot_def bind_assoc)

lemma block_rebuild_from_ok:
  assumes "part_inv S T" and "unique_ids (entries T)" and "distinct is" and "set is \<inter> S = {}" and "set is \<subseteq> {..<MAX_BLOCKS}"
  shows "\<exists>T'. block_rebuild_from is T = Some T' \<and> part_inv (S \<union> set is) T' \<and> keeps T T'"
  using assms
proof (induction "is" arbitrary: S T)
  case (Cons i rest)
  have i: "i < MAX_BLOCKS" "i \<notin> S" using Cons.prems by auto
  have S: "S \<subseteq> {..<MAX_BLOCKS}" using Cons.prems(1) by (simp add: part_inv_def)
  have "\<forall>j \<in> S. b_slot_used (entries T j) \<longrightarrow> b_id (entries T j) \<noteq> b_id (entries T i)" if "b_slot_used (entries T i)"
    using Cons.prems(2) i S that unfolding unique_ids_def by (metis lessThan_iff subsetD)
  then obtain T1 where 1: "link_slot i T = Some T1" "part_inv (insert i S) T1" "keeps T T1"
    using link_slot_ok [OF Cons.prems(1) i(2,1)] by blast
  have "unique_ids (entries T1)" using Cons.prems(2) 1(3) by (simp add: keeps_def)
  then obtain T2 where 2: "block_rebuild_from rest T1 = Some T2" "part_inv (insert i S \<union> set rest) T2" "keeps T1 T2"
    using Cons.IH [OF 1(2)] Cons.prems(3-5) i by auto
  moreover have "block_rebuild_from (i # rest) T = Some T2" unfolding block_rebuild_from_eq [OF i(1)] using 1(1) 2(1) by simp
  moreover have "keeps T T2" using 1(3) 2(3) keeps_trans by blast
  ultimately show ?case by auto
qed simp

lemma part_inv_empty:
  assumes "\<And>i. nodes T i = NODE_EMPTY" "root T = None" "physical_count T = 0" "block_ids T = (\<lambda>_. BLOCK_ID_EMPTY)"
    "id_count T = 0" "next_slot_word T = 0" "low_steps T"
  shows "part_inv {} T"
proof -
  have "avl_index T []" using avl_index_empty [of T] assms by (simp add: NODE_EMPTY_def)
  then show ?thesis using block_id_empty [OF assms(4,5)] assms(6,7)
    by (simp add: part_inv_def tree_part_def id_part_def slot_part_def slot_inv_def SLOT_WORDS_eq)
qed

lemma block_rebuild_ok:
  assumes "unique_ids (entries T)" and "low_steps T"
  shows "\<exists>T'. block_rebuild T = Some T' \<and> idx_inv T' \<and> entries T' = entries T
     \<and> bt_next_id T' = bt_next_id T \<and> initialized T' = initialized T"
proof -
  define T0 where "T0 = T\<lparr>hot := (hot T)\<lparr>physical_rebuilds := wrapping_add64 (physical_rebuilds (hot T)) 1\<rparr>,
        nodes := (\<lambda>_. NODE_EMPTY), block_ids := (\<lambda>_. BLOCK_ID_EMPTY), slots := (\<lambda>_. 0), root := None,
        physical_count := 0, id_count := 0, id_tombstones := 0, next_slot_word := 0\<rparr>"
  have "part_inv {} T0" by (rule part_inv_empty) (use assms(2) in \<open>auto simp: T0_def low_steps_def\<close>)
  moreover have "unique_ids (entries T0)" using assms(1) by (simp add: T0_def)
  ultimately obtain T' where "block_rebuild_from [0..<MAX_BLOCKS] T0 = Some T'" "part_inv ({} \<union> set [0..<MAX_BLOCKS]) T'" "keeps T0 T'"
    using block_rebuild_from_ok [of "{}" T0 "[0..<MAX_BLOCKS]"] by (auto simp: atLeast0LessThan)
  moreover have "{} \<union> set [0..<MAX_BLOCKS] = {..<MAX_BLOCKS}" by auto
  ultimately show ?thesis unfolding block_rebuild_def T0_def [symmetric] idx_inv_def by (auto simp: keeps_def T0_def)
qed

lemma idx_inv_unique: "idx_inv T \<Longrightarrow> unique_ids (entries T)"
proof -
  assume "idx_inv T"
  then have "\<And>k s. block_id_map T k = Some s \<longleftrightarrow> s < MAX_BLOCKS \<and> b_slot_used (entries T s) \<and> b_id (entries T s) = k"
    by (simp add: idx_inv_def part_inv_def id_part_def)
  then show ?thesis unfolding unique_ids_def by (metis option.inject)
qed

lemma idx_inv_tree: "idx_inv T \<Longrightarrow> \<exists>xs. avl_index T xs \<and> set xs = {i. i < MAX_BLOCKS \<and> physical_index (entries T i)}"
  by (auto simp: idx_inv_def part_inv_def tree_part_def)

lemma idx_inv_low: "idx_inv T \<Longrightarrow> low_steps T"
  by (simp add: idx_inv_def part_inv_def)

lemma idx_inv_hot: "idx_inv T \<Longrightarrow> T' = T\<lparr>hot := hot T'\<rparr> \<Longrightarrow> low_steps T' \<Longrightarrow> idx_inv T'"
  unfolding idx_inv_def by (rule part_inv_hot)

end
