(* ===== verification/Block_Space.thy ===== *)
theory Block_Space
  imports Block_Inv
begin

text \<open>
  The block catalogue as a map of physical memory: blocks do not wrap and do not overlap, the searches
  return what their specification over the entries says, and a registration paints one range of the
  view. \<open>phys_view\<close> is the abstraction; \<open>cat_inv\<close> the invariant of the catalogue between operations.
\<close>

section \<open>Disjoint blocks\<close>

definition block_end :: "block \<Rightarrow> nat" where
  "block_end b = b_phys_base b + b_phys_len b"

definition fits :: "(nat \<Rightarrow> block) \<Rightarrow> bool" where
  "fits ents \<longleftrightarrow> (\<forall>i < MAX_BLOCKS. physical_index (ents i) \<longrightarrow> block_end (ents i) \<le> U64_MAX)"

definition apart :: "block \<Rightarrow> block \<Rightarrow> bool" where
  "apart a b \<longleftrightarrow> block_end a \<le> b_phys_base b \<or> block_end b \<le> b_phys_base a"

definition disjoint_blocks :: "(nat \<Rightarrow> block) \<Rightarrow> bool" where
  "disjoint_blocks ents \<longleftrightarrow> (\<forall>i < MAX_BLOCKS. \<forall>j < MAX_BLOCKS. i \<noteq> j \<and> physical_index (ents i) \<and> physical_index (ents j)
     \<longrightarrow> apart (ents i) (ents j))"

definition fresh_ids :: "(nat \<Rightarrow> block) \<Rightarrow> nat \<Rightarrow> bool" where
  "fresh_ids ents next1 \<longleftrightarrow> next1 < 2 ^ 32 \<and> (\<forall>i < MAX_BLOCKS. b_slot_used (ents i) \<longrightarrow>
     0 < b_id (ents i) \<and> b_id (ents i) < 2 ^ 32 \<and> (next1 = 0 \<or> b_id (ents i) < next1))"

text \<open>Blocks with a virtual range: the ranges do not wrap and are pairwise disjoint.\<close>

definition virt_slot :: "(nat \<Rightarrow> block) \<Rightarrow> nat \<Rightarrow> bool" where
  "virt_slot ents i \<longleftrightarrow> i < MAX_BLOCKS \<and> block_active (ents i) \<and> b_virt_len (ents i) \<noteq> 0"

definition virt_apart :: "block \<Rightarrow> block \<Rightarrow> bool" where
  "virt_apart a b \<longleftrightarrow> b_virt_base a + b_virt_len a \<le> b_virt_base b \<or> b_virt_base b + b_virt_len b \<le> b_virt_base a"

definition virt_inv :: "(nat \<Rightarrow> block) \<Rightarrow> bool" where
  "virt_inv ents \<longleftrightarrow> (\<forall>i. virt_slot ents i \<longrightarrow> b_virt_base (ents i) + b_virt_len (ents i) \<le> U64_MAX)
     \<and> (\<forall>i j. virt_slot ents i \<and> virt_slot ents j \<and> i \<noteq> j \<longrightarrow> virt_apart (ents i) (ents j))"

definition cat_inv :: "block_table \<Rightarrow> bool" where
  "cat_inv T \<longleftrightarrow> idx_inv T \<and> fits (entries T) \<and> disjoint_blocks (entries T) \<and> virt_inv (entries T)
     \<and> fresh_ids (entries T) (bt_next_id T)"

text \<open>
  \<open>soft\<close>: nothing changes but the counters and the slot hint; \<open>still\<close>: nothing but the counters.
\<close>

definition soft :: "block_table \<Rightarrow> block_table \<Rightarrow> bool" where
  "soft T T' \<longleftrightarrow> entries T' = entries T \<and> bt_next_id T' = bt_next_id T \<and> initialized T' = initialized T
     \<and> slots T' = slots T \<and> (idx_inv T \<longrightarrow> idx_inv T')"

definition still :: "block_table \<Rightarrow> block_table \<Rightarrow> bool" where
  "still T T' \<longleftrightarrow> soft T T' \<and> next_slot_word T' = next_slot_word T"

text \<open>What the four searches return, stated over the entries alone.\<close>

definition phys_slot :: "(nat \<Rightarrow> block) \<Rightarrow> nat \<Rightarrow> bool" where
  "phys_slot ents i \<longleftrightarrow> i < MAX_BLOCKS \<and> physical_index (ents i)"

definition greatest :: "(nat \<Rightarrow> block) \<Rightarrow> (nat \<Rightarrow> bool) \<Rightarrow> nat option \<Rightarrow> bool" where
  "greatest ents P at \<longleftrightarrow> (case at of
     None \<Rightarrow> \<forall>i. phys_slot ents i \<longrightarrow> \<not> P i
   | Some f \<Rightarrow> phys_slot ents f \<and> P f \<and> (\<forall>i. phys_slot ents i \<and> P i \<longrightarrow> i = f \<or> before ents i f))"

definition least :: "(nat \<Rightarrow> block) \<Rightarrow> (nat \<Rightarrow> bool) \<Rightarrow> nat option \<Rightarrow> bool" where
  "least ents P at \<longleftrightarrow> (case at of
     None \<Rightarrow> \<forall>i. phys_slot ents i \<longrightarrow> \<not> P i
   | Some f \<Rightarrow> phys_slot ents f \<and> P f \<and> (\<forall>i. phys_slot ents i \<and> P i \<longrightarrow> i = f \<or> before ents f i))"

definition meets :: "(nat \<Rightarrow> block) \<Rightarrow> nat \<Rightarrow> nat \<Rightarrow> nat \<Rightarrow> nat \<Rightarrow> bool" where
  "meets ents base fin ignore i \<longleftrightarrow> phys_slot ents i \<and> b_id (ents i) \<noteq> ignore
     \<and> base < block_end (ents i) \<and> b_phys_base (ents i) < fin"

type_synonym block_attr = "nat \<times> nat \<times> nat \<times> nat \<times> string"

definition attr :: "block \<Rightarrow> block_attr" where
  "attr b = (b_kind b, b_owner b, b_owner_id b, b_status b, b_name b)"

definition covers_addr :: "block \<Rightarrow> nat \<Rightarrow> bool" where
  "covers_addr b a \<longleftrightarrow> b_phys_base b \<le> a \<and> a < block_end b"

definition phys_view :: "(nat \<Rightarrow> block) \<Rightarrow> nat \<Rightarrow> block_attr option" where
  "phys_view ents a = (case find (\<lambda>i. physical_index (ents i) \<and> covers_addr (ents i) a) [0..<MAX_BLOCKS] of
     None \<Rightarrow> None | Some i \<Rightarrow> Some (attr (ents i)))"

text \<open>\<open>paint\<close> replaces the view of one range; \<open>shade\<close> is what a block shows, nothing once released.\<close>

definition paint :: "nat \<Rightarrow> nat \<Rightarrow> block_attr option \<Rightarrow> (nat \<Rightarrow> block_attr option) \<Rightarrow> (nat \<Rightarrow> block_attr option)" where
  "paint base len v m = (\<lambda>a. if base \<le> a \<and> a < base + len then v else m a)"

definition shade :: "block \<Rightarrow> block_attr option" where
  "shade b = (if b_status b = RELEASED then None else Some (attr b))"

definition slot_pick :: "block_table \<Rightarrow> nat option" where
  "slot_pick T = (case free_word_from (slots T) (next_slot_word T) [0..<SLOT_WORDS] of
     Some (Some (s, _)) \<Rightarrow> Some s | _ \<Rightarrow> None)"

text \<open>What a successful registration did: one reusable slot took the request under a fresh identity.\<close>

definition registered :: "block \<Rightarrow> block_table \<Rightarrow> nat \<Rightarrow> block_table \<Rightarrow> bool" where
  "registered request T ident T' \<longleftrightarrow> (\<exists>s. slot_pick T = Some s \<and> s < MAX_BLOCKS \<and> reusable_entry (entries T s)
     \<and> entries T' = (entries T)(s := block_entry request ident))
     \<and> ident = bt_next_id T \<and> ident \<noteq> 0 \<and> bt_next_id T' = (ident + 1) mod 2 ^ 32 \<and> initialized T' = initialized T
     \<and> validate request = Inr ()"

lemma softD:
  assumes "soft T T'"
  shows "entries T' = entries T" "bt_next_id T' = bt_next_id T" "initialized T' = initialized T" "slots T' = slots T"
    "idx_inv T \<Longrightarrow> idx_inv T'" "cat_inv T \<Longrightarrow> cat_inv T'"
  using assms by (auto simp: soft_def cat_inv_def)

lemma stillD:
  assumes "still T T'"
  shows "entries T' = entries T" "bt_next_id T' = bt_next_id T" "initialized T' = initialized T" "slots T' = slots T"
    "idx_inv T \<Longrightarrow> idx_inv T'" "cat_inv T \<Longrightarrow> cat_inv T'" "soft T T'" "next_slot_word T' = next_slot_word T"
  using assms softD [of T T'] by (auto simp: still_def)

lemma soft_refl [simp]: "soft T T" and soft_trans: "soft T T' \<Longrightarrow> soft T' T'' \<Longrightarrow> soft T T''"
  by (auto simp: soft_def)

lemma still_refl [simp]: "still T T" and still_trans: "still T T' \<Longrightarrow> still T' T'' \<Longrightarrow> still T T''"
  by (auto simp: still_def intro: soft_trans)

lemma still_hot: "T' = T\<lparr>hot := hot T'\<rparr> \<Longrightarrow> (low_steps T \<longrightarrow> low_steps T') \<Longrightarrow> still T T'"
proof -
  assume a: "T' = T\<lparr>hot := hot T'\<rparr>" "low_steps T \<longrightarrow> low_steps T'"
  note fr = frame_hot [OF a(1), unfolded frames]
  show ?thesis using idx_inv_hot [OF _ a(1)] a(2) idx_inv_low fr unfolding still_def soft_def by blast
qed

section \<open>Order\<close>

lemma find_rev_last:
  assumes "find P (rev xs) = Some x" and "sorted_wrt R xs"
  shows "x \<in> set xs \<and> P x \<and> (\<forall>y \<in> set xs. P y \<longrightarrow> y = x \<or> R y x)"
  using assms
proof (induction xs)
  case (Cons a xs)
  show ?case
  proof (cases "find P (rev xs)")
    case None
    then have "P a" "x = a" using Cons.prems(1) by (auto simp: find_append split: if_splits)
    then show ?thesis using None by (auto simp: find_None_iff)
  next
    case (Some z)
    then have "z = x" using Cons.prems(1) by (simp add: find_append)
    then show ?thesis using Cons Some by auto
  qed
qed simp

lemma find_first:
  assumes "find P xs = Some x" and "sorted_wrt R xs"
  shows "x \<in> set xs \<and> P x \<and> (\<forall>y \<in> set xs. P y \<longrightarrow> y = x \<or> R x y)"
  using assms by (induction xs) (auto split: if_splits)

lemma before_apart:
  assumes "before ents i j" and "apart (ents i) (ents j)" and "b_phys_len (ents i) \<noteq> 0" "b_phys_len (ents j) \<noteq> 0"
  shows "block_end (ents i) \<le> b_phys_base (ents j)"
  using assms by (auto simp: before_def apart_def block_end_def)

lemma physical_len: "physical_index b \<Longrightarrow> b_phys_len b \<noteq> 0"
  by (simp add: physical_index_def)

section \<open>Searches over the entries\<close>

lemma greatest_find:
  assumes "set xs = {i. phys_slot ents i}" and "ordered ents xs"
  shows "greatest ents P (find P (rev xs))"
proof (cases "find P (rev xs)")
  case None
  moreover have "\<forall>i. phys_slot ents i \<longrightarrow> \<not> P i" using None assms(1) by (auto simp: find_None_iff)
  ultimately show ?thesis by (simp add: greatest_def)
next
  case (Some f)
  then show ?thesis using find_rev_last [OF Some assms(2)] assms(1) by (auto simp: greatest_def)
qed

lemma least_find:
  assumes "set xs = {i. phys_slot ents i}" and "ordered ents xs"
  shows "least ents P (find P xs)"
proof (cases "find P xs")
  case None
  moreover have "\<forall>i. phys_slot ents i \<longrightarrow> \<not> P i" using None assms(1) by (auto simp: find_None_iff)
  ultimately show ?thesis by (simp add: least_def)
next
  case (Some f)
  then show ?thesis using find_first [OF Some assms(2)] assms(1) by (auto simp: least_def)
qed

lemma idx_orderE:
  assumes "idx_inv T"
  obtains xs where "avl_index T xs" "set xs = {i. phys_slot (entries T) i}" "ordered (entries T) xs"
  using idx_inv_tree [OF assms] unfolding avl_index_def phys_slot_def by blast

lemma idx_floor:
  assumes "idx_inv T"
  shows "\<exists>at T'. avl_floor base T = Some (at, T') \<and> still T T' \<and> greatest (entries T) (\<lambda>i. b_phys_base (entries T i) \<le> base) at"
proof -
  obtain xs where xs: "avl_index T xs" "set xs = {i. phys_slot (entries T) i}" "ordered (entries T) xs" using idx_orderE [OF assms] .
  show ?thesis using avl_floor_ok [OF xs(1), of base] greatest_find [OF xs(2,3)] still_hot by blast
qed

lemma idx_lower_bound:
  assumes "idx_inv T"
  shows "\<exists>at T'. avl_lower_bound base T = Some (at, T') \<and> still T T' \<and> least (entries T) (\<lambda>i. base \<le> b_phys_base (entries T i)) at"
proof -
  obtain xs where xs: "avl_index T xs" "set xs = {i. phys_slot (entries T) i}" "ordered (entries T) xs" using idx_orderE [OF assms] .
  show ?thesis using avl_lower_bound_ok [OF xs(1), of base] least_find [OF xs(2,3)] still_hot by blast
qed

lemma idx_successor:
  assumes "idx_inv T" and "g < MAX_BLOCKS"
  shows "\<exists>at T'. avl_successor g T = Some (at, T') \<and> still T T' \<and> least (entries T) (before (entries T) g) at"
proof -
  obtain xs where xs: "avl_index T xs" "set xs = {i. phys_slot (entries T) i}" "ordered (entries T) xs" using idx_orderE [OF assms(1)] .
  show ?thesis using avl_successor_ok [OF xs(1) assms(2)] least_find [OF xs(2,3)] still_hot by blast
qed

lemma idx_predecessor_before:
  assumes "idx_inv T"
  shows "\<exists>low at T'. predecessor_before base ignore T = Some (at, T') \<and> still T T'
     \<and> greatest (entries T) (\<lambda>i. b_phys_base (entries T i) < base) low
     \<and> (case low of None \<Rightarrow> at = None
        | Some i \<Rightarrow> if ignore \<noteq> 0 \<and> b_id (entries T i) = ignore then greatest (entries T) (\<lambda>x. before (entries T) x i) at else at = Some i)"
proof -
  obtain xs where xs: "avl_index T xs" "set xs = {i. phys_slot (entries T) i}" "ordered (entries T) xs" using idx_orderE [OF assms] .
  let ?low = "find (\<lambda>x. b_phys_base (entries T x) < base) (rev xs)"
  obtain at T' where p: "predecessor_before base ignore T = Some (at, T')" "still T T'"
     "at = (case ?low of None \<Rightarrow> None
       | Some i \<Rightarrow> if ignore \<noteq> 0 \<and> b_id (entries T i) = ignore then find (\<lambda>x. before (entries T) x i) (rev xs) else Some i)"
    using predecessor_before_ok [OF xs(1), of base ignore] still_hot by blast
  show ?thesis using p greatest_find [OF xs(2,3)] by (intro exI [of _ ?low] exI [of _ at] exI [of _ T']) (auto split: option.splits)
qed

section \<open>Overlap\<close>

lemma block_meets_fits:
  "fits ents \<Longrightarrow> phys_slot ents i \<Longrightarrow>
   block_meets base fin (ents i) \<longleftrightarrow> base < block_end (ents i) \<and> b_phys_base (ents i) < fin"
  by (auto simp: block_meets_def fits_def block_end_def checked_add64_def phys_slot_def)

lemma phys_before_end:
  assumes "disjoint_blocks ents" and "phys_slot ents i" "phys_slot ents j" and "before ents i j"
  shows "block_end (ents i) \<le> b_phys_base (ents j)"
proof -
  have "i \<noteq> j" using assms(4) by auto
  then have "apart (ents i) (ents j)" using assms(1-3) by (auto simp: disjoint_blocks_def phys_slot_def)
  then show ?thesis using before_apart [OF assms(4)] assms(2,3) physical_len by (auto simp: phys_slot_def)
qed

text \<open>A block that meets a range from below is the floor of the range's start.\<close>

lemma floor_meets:
  assumes dis: "disjoint_blocks ents" and fit: "fits ents"
    and fl: "greatest ents (\<lambda>i. b_phys_base (ents i) \<le> base) at"
  shows "(case at of None \<Rightarrow> False | Some f \<Rightarrow> b_id (ents f) \<noteq> ignore \<and> block_meets base fin (ents f))
     \<longleftrightarrow> (\<exists>i. meets ents base fin ignore i \<and> b_phys_base (ents i) \<le> base)"
proof (cases at)
  case None
  then show ?thesis using fl by (auto simp: greatest_def meets_def)
next
  case (Some f)
  have f: "phys_slot ents f" "b_phys_base (ents f) \<le> base"
    "\<And>i. phys_slot ents i \<Longrightarrow> b_phys_base (ents i) \<le> base \<Longrightarrow> i = f \<or> before ents i f"
    using fl Some by (auto simp: greatest_def)
  have "i = f" if "meets ents base fin ignore i" "b_phys_base (ents i) \<le> base" for i
  proof (rule ccontr)
    assume "i \<noteq> f"
    then have "before ents i f" using f(3) that by (auto simp: meets_def)
    then have "block_end (ents i) \<le> base" using phys_before_end [OF dis _ f(1)] f(2) that(1) by (fastforce simp: meets_def)
    then show False using that(1) by (simp add: meets_def)
  qed
  then show ?thesis using Some f block_meets_fits [OF fit f(1)] by (auto simp: meets_def)
qed

text \<open>Otherwise the first block from the start on, the ignored one apart, decides.\<close>

lemma next_meets:
  assumes fit: "fits ents" and up: "least ents (\<lambda>i. base \<le> b_phys_base (ents i) \<and> b_id (ents i) \<noteq> ignore) at"
    and none: "\<not> (\<exists>i. meets ents base fin ignore i \<and> b_phys_base (ents i) \<le> base)"
  shows "(case at of None \<Rightarrow> False | Some h \<Rightarrow> block_meets base fin (ents h)) \<longleftrightarrow> (\<exists>i. meets ents base fin ignore i)"
proof -
  have up_i: "phys_slot ents i \<and> base \<le> b_phys_base (ents i) \<and> b_id (ents i) \<noteq> ignore \<and> b_phys_base (ents i) < fin"
    if "meets ents base fin ignore i" for i using none that by (force simp: meets_def)
  show ?thesis
  proof (cases at)
    case None
    then show ?thesis using up up_i by (auto simp: least_def)
  next
    case (Some h)
    have h: "phys_slot ents h" "base \<le> b_phys_base (ents h)" "b_id (ents h) \<noteq> ignore"
      "\<And>i. phys_slot ents i \<Longrightarrow> base \<le> b_phys_base (ents i) \<Longrightarrow> b_id (ents i) \<noteq> ignore \<Longrightarrow> i = h \<or> before ents h i"
      using up Some by (auto simp: least_def)
    have "b_phys_len (ents h) \<noteq> 0" using h(1) physical_len by (auto simp: phys_slot_def)
    then have e: "base < block_end (ents h)" using h(2) by (simp add: block_end_def)
    have "b_phys_base (ents h) < fin" if "meets ents base fin ignore i" for i
      using h(4) [of i] up_i [OF that] by (auto simp: before_def)
    then show ?thesis using Some h e block_meets_fits [OF fit h(1)] by (auto simp: meets_def)
  qed
qed

text \<open>The first block from a start on, and its successor where it is the ignored block.\<close>

lemma skip_ignored:
  assumes inv: "idx_inv T" and lb: "least (entries T) (\<lambda>i. base \<le> b_phys_base (entries T i)) nx"
  shows "\<exists>at T'. (case nx of None \<Rightarrow> Some (None, T)
       | Some index \<Rightarrow> do { b \<leftarrow> index_get MAX_BLOCKS (entries T) index;
           if b_id b = ignore then avl_successor index T else Some (Some index, T) }) = Some (at, T')
     \<and> still T T' \<and> least (entries T) (\<lambda>i. base \<le> b_phys_base (entries T i) \<and> b_id (entries T i) \<noteq> ignore) at"
proof (cases nx)
  case None
  then show ?thesis using lb by (auto simp: least_def)
next
  case (Some g)
  let ?e = "entries T"
  have g: "phys_slot ?e g" "base \<le> b_phys_base (?e g)"
    "\<And>i. phys_slot ?e i \<Longrightarrow> base \<le> b_phys_base (?e i) \<Longrightarrow> i = g \<or> before ?e g i" using lb Some by (auto simp: least_def)
  have lt: "g < MAX_BLOCKS" using g(1) by (simp add: phys_slot_def)
  show ?thesis
  proof (cases "b_id (?e g) = ignore")
    case False
    then show ?thesis using Some lt g by (auto simp: least_def)
  next
    case True
    obtain at T' where s: "avl_successor g T = Some (at, T')" "still T T'" "least ?e (before ?e g) at"
      using idx_successor [OF inv lt] by blast
    have id: "b_id (?e i) \<noteq> ignore" if "phys_slot ?e i" "i \<noteq> g" for i
      using idx_inv_unique [OF inv] that g(1) True unfolding unique_ids_def phys_slot_def physical_index_def block_active_def by blast
    have up: "base \<le> b_phys_base (?e i)" if "before ?e g i" for i using that g(2) by (auto simp: before_def)
    have "before ?e g i \<longleftrightarrow> base \<le> b_phys_base (?e i) \<and> b_id (?e i) \<noteq> ignore" if "phys_slot ?e i" for i
      using g(3) [OF that] id [OF that] up [of i] True before_irrefl [of ?e g] by metis
    then have "least ?e (\<lambda>i. base \<le> b_phys_base (?e i) \<and> b_id (?e i) \<noteq> ignore) at"
      using s(3) by (auto simp: least_def split: option.splits)
    then show ?thesis using Some True lt s by simp
  qed
qed

lemma overlaps_physical_ok:
  assumes inv: "idx_inv T" and fit: "fits (entries T)" and dis: "disjoint_blocks (entries T)"
  shows "\<exists>T'. overlaps_physical base fin ignore T = Some (\<exists>i. meets (entries T) base fin ignore i, T') \<and> still T T'"
proof -
  let ?e = "entries T"
  obtain at T1 where 1: "avl_floor base T = Some (at, T1)" "still T T1" "greatest ?e (\<lambda>i. b_phys_base (?e i) \<le> base) at"
    using idx_floor [OF inv] by blast
  define low where "low = (case at of None \<Rightarrow> False | Some f \<Rightarrow> b_id (?e f) \<noteq> ignore \<and> block_meets base fin (?e f))"
  have low: "low \<longleftrightarrow> (\<exists>i. meets ?e base fin ignore i \<and> b_phys_base (?e i) \<le> base)"
    unfolding low_def by (rule floor_meets [OF dis fit 1(3)])
  note e1 = stillD(1) [OF 1(2)] and i1 = stillD(5) [OF 1(2) inv]
  have run1: "(case at of None \<Rightarrow> Some False
       | Some index \<Rightarrow> do { b \<leftarrow> index_get MAX_BLOCKS (entries T1) index; Some (b_id b \<noteq> ignore \<and> block_meets base fin b) }) = Some low"
    using 1(3) e1 by (auto simp: low_def greatest_def phys_slot_def split: option.splits)
  show ?thesis
  proof (cases low)
    case True
    then have "\<exists>i. meets ?e base fin ignore i" using low by blast
    then show ?thesis unfolding overlaps_physical_def 1(1) using run1 True 1(2) by simp
  next
    case False
    obtain nx T2 where 2: "avl_lower_bound base T1 = Some (nx, T2)" "still T1 T2" "least ?e (\<lambda>i. base \<le> b_phys_base (?e i)) nx"
      using idx_lower_bound [OF i1] unfolding e1 by blast
    have e2: "entries T2 = ?e" and i2: "idx_inv T2" using stillD(1,5) [OF 2(2)] e1 i1 by auto
    obtain nx1 T3 where 3: "(case nx of None \<Rightarrow> Some (None, T2)
         | Some index \<Rightarrow> do { b \<leftarrow> index_get MAX_BLOCKS (entries T2) index; if b_id b = ignore then avl_successor index T2 else Some (Some index, T2) })
        = Some (nx1, T3)" "still T2 T3" "least ?e (\<lambda>i. base \<le> b_phys_base (?e i) \<and> b_id (?e i) \<noteq> ignore) nx1"
      using skip_ignored [OF i2, of base nx ignore] 2(3) unfolding e2 by blast
    have s3: "still T T3" using 1(2) 2(2) 3(2) still_trans by blast
    define res where "res = (case nx1 of None \<Rightarrow> False | Some h \<Rightarrow> block_meets base fin (?e h))"
    have "res \<longleftrightarrow> (\<exists>i. meets ?e base fin ignore i)"
      unfolding res_def using next_meets [OF fit 3(3)] False low by blast
    moreover have "overlaps_physical base fin ignore T = Some (res, T3)"
      unfolding overlaps_physical_def 1(1) using run1 False 2(1) 3(1,3) stillD(1) [OF s3]
      by (cases nx1) (auto simp: res_def least_def phys_slot_def)
    ultimately show ?thesis using s3 by simp
  qed
qed

section \<open>The view of physical memory\<close>

lemma phys_view_None: "phys_view ents a = None \<longleftrightarrow> (\<forall>i. phys_slot ents i \<longrightarrow> \<not> covers_addr (ents i) a)"
  by (auto simp: phys_view_def phys_slot_def find_None_iff find_Some_iff split: option.splits)

lemma covers_same:
  assumes "disjoint_blocks ents" and "phys_slot ents i" "phys_slot ents j" and "covers_addr (ents i) a" "covers_addr (ents j) a"
  shows "i = j"
proof (rule ccontr)
  assume "i \<noteq> j"
  then have "apart (ents i) (ents j)" using assms(1-3) by (simp add: disjoint_blocks_def phys_slot_def)
  then show False using assms(4,5) by (auto simp: apart_def covers_addr_def)
qed

lemma phys_view_Some:
  assumes "disjoint_blocks ents"
  shows "phys_view ents a = Some v \<longleftrightarrow> (\<exists>i. phys_slot ents i \<and> covers_addr (ents i) a \<and> attr (ents i) = v)"
proof
  assume "phys_view ents a = Some v"
  then show "\<exists>i. phys_slot ents i \<and> covers_addr (ents i) a \<and> attr (ents i) = v"
    by (auto simp: phys_view_def phys_slot_def find_Some_iff split: option.splits)
next
  assume "\<exists>i. phys_slot ents i \<and> covers_addr (ents i) a \<and> attr (ents i) = v"
  then obtain i where i: "phys_slot ents i" "covers_addr (ents i) a" "attr (ents i) = v" by blast
  then obtain j where j: "find (\<lambda>i. physical_index (ents i) \<and> covers_addr (ents i) a) [0..<MAX_BLOCKS] = Some j"
    using phys_view_None [of ents a] by (cases "find (\<lambda>i. physical_index (ents i) \<and> covers_addr (ents i) a) [0..<MAX_BLOCKS]") (auto simp: phys_view_def)
  then have "phys_slot ents j" "covers_addr (ents j) a" by (auto simp: phys_slot_def find_Some_iff)
  then have "j = i" using covers_same [OF assms] i by blast
  then show "phys_view ents a = Some v" using i j by (simp add: phys_view_def)
qed

text \<open>Two tables have the same view when their blocks cover the same addresses with the same attributes.\<close>

lemma phys_view_eqI:
  assumes "disjoint_blocks ents'"
    and "\<And>v. (\<exists>i. phys_slot ents' i \<and> covers_addr (ents' i) a \<and> attr (ents' i) = v) \<longleftrightarrow> m = Some v"
  shows "phys_view ents' a = m"
  using phys_view_Some [OF assms(1), of a] assms(2) by (metis option.exhaust)

section \<open>Writing one entry\<close>

lemma phys_slot_write: "phys_slot (ents(i := e)) j \<longleftrightarrow> (if j = i then i < MAX_BLOCKS \<and> physical_index e else phys_slot ents j)"
  by (auto simp: phys_slot_def)

lemma fits_write: "fits ents \<Longrightarrow> (physical_index e \<Longrightarrow> block_end e \<le> U64_MAX) \<Longrightarrow> fits (ents(i := e))"
  by (simp add: fits_def)

lemma disjoint_write:
  assumes "disjoint_blocks ents" and "\<And>j. physical_index e \<Longrightarrow> j \<noteq> i \<Longrightarrow> phys_slot ents j \<Longrightarrow> apart e (ents j)"
  shows "disjoint_blocks (ents(i := e))"
  using assms by (auto simp: disjoint_blocks_def phys_slot_def apart_def)

lemma virt_write:
  assumes "virt_inv ents" and "\<not> block_active e \<or> b_virt_len e = 0
     \<or> block_active (ents i) \<and> b_virt_base e = b_virt_base (ents i) \<and> b_virt_len e = b_virt_len (ents i)"
  shows "virt_inv (ents(i := e))"
proof -
  have v: "virt_slot ents j \<and> b_virt_base ((ents(i := e)) j) = b_virt_base (ents j) \<and> b_virt_len ((ents(i := e)) j) = b_virt_len (ents j)"
    if "virt_slot (ents(i := e)) j" for j using that assms(2) by (cases "j = i") (auto simp: virt_slot_def)
  show ?thesis using assms(1) v unfolding virt_inv_def virt_apart_def by metis
qed

lemma fresh_write:
  assumes "fresh_ids ents n" and "b_slot_used e \<Longrightarrow> 0 < b_id e \<and> b_id e < 2 ^ 32 \<and> (n = 0 \<or> b_id e < n)"
  shows "fresh_ids (ents(i := e)) n"
  using assms by (auto simp: fresh_ids_def)

text \<open>Writing over an entry that is in no index: the view gains what the new entry covers.\<close>

lemma view_write:
  assumes "disjoint_blocks ents" and "disjoint_blocks (ents(i := e))" and "i < MAX_BLOCKS"
  shows "phys_view (ents(i := e)) a =
    (if physical_index e \<and> covers_addr e a then Some (attr e)
     else if phys_slot ents i \<and> covers_addr (ents i) a then None else phys_view ents a)"
proof -
  let ?n = "ents(i := e)"
  have new: "phys_view ?n a = Some v \<longleftrightarrow> (\<exists>j. phys_slot ?n j \<and> covers_addr (?n j) a \<and> attr (?n j) = v)" for v
    by (rule phys_view_Some [OF assms(2)])
  consider (here) "physical_index e" "covers_addr e a" | (gone) "\<not> (physical_index e \<and> covers_addr e a)" "phys_slot ents i" "covers_addr (ents i) a"
    | (rest) "\<not> (physical_index e \<and> covers_addr e a)" "\<not> (phys_slot ents i \<and> covers_addr (ents i) a)" by blast
  then show ?thesis
  proof cases
    case here
    have "phys_slot ?n i" "covers_addr (?n i) a" "attr (?n i) = attr e" using here assms(3) by (auto simp: phys_slot_def)
    then have "phys_view ?n a = Some (attr e)" using new by blast
    then show ?thesis using here by simp
  next
    case gone
    have "\<not> covers_addr (?n j) a" if "phys_slot ?n j" for j
    proof (cases "j = i")
      case True
      then show ?thesis using that gone(1) by (auto simp: phys_slot_def)
    next
      case False
      then have "phys_slot ents j" "?n j = ents j" using that by (auto simp: phys_slot_def)
      then show ?thesis using covers_same [OF assms(1) _ gone(2) _ gone(3), of j] False by auto
    qed
    then have "phys_view ?n a = None" using phys_view_None by blast
    then show ?thesis using gone by auto
  next
    case rest
    have "phys_slot ?n j \<and> covers_addr (?n j) a \<and> attr (?n j) = v \<longleftrightarrow> phys_slot ents j \<and> covers_addr (ents j) a \<and> attr (ents j) = v" for j v
      using rest by (cases "j = i") (auto simp: phys_slot_def)
    then have "phys_view ?n a = Some v \<longleftrightarrow> phys_view ents a = Some v" for v
      using new phys_view_Some [OF assms(1)] by presburger
    then have "phys_view ?n a = phys_view ents a" by (metis option.exhaust)
    then show ?thesis using rest by auto
  qed
qed

section \<open>Free slots\<close>

lemma slot_pick_still: "still T T' \<Longrightarrow> slot_pick T' = slot_pick T"
  by (simp add: slot_pick_def still_def soft_def)

lemma idx_slot_free: "idx_inv T \<Longrightarrow> i < MAX_BLOCKS \<Longrightarrow> slot_free T i \<longleftrightarrow> reusable_entry (entries T i)"
  by (simp add: idx_inv_def part_inv_def slot_part_def)

lemma free_word_head: "start0 < SLOT_WORDS \<Longrightarrow> ws start0 \<noteq> 0 \<Longrightarrow>
   free_word_from ws start0 [0..<SLOT_WORDS] = Some (Some (start0 * 64 + trailing_zeros (ws start0), start0, 1))"
  by (subst upt_conv_Cons) (auto simp: SLOT_WORDS_eq)

lemma free_word_pick:
  "free_word_from ws start0 ns = Some (Some (s, index, steps)) \<Longrightarrow>
   index < SLOT_WORDS \<and> ws index \<noteq> 0 \<and> s = index * 64 + trailing_zeros (ws index)"
  by (induction ns) (auto simp: Let_def SLOT_WORDS_eq split: if_splits)

lemma block_free_slot_pick:
  assumes inv: "idx_inv T"
  shows "\<exists>T'. block_free_slot T = Some (slot_pick T, T') \<and> soft T T'
     \<and> (case slot_pick T of Some s \<Rightarrow> s < MAX_BLOCKS \<and> reusable_entry (entries T s) \<and> slot_pick T' = Some s | None \<Rightarrow> True)"
proof -
  have si: "slot_inv T" using inv by (simp add: idx_inv_def part_inv_def slot_part_def)
  obtain r T' where r: "block_free_slot T = Some (r, T')" "T' = T\<lparr>hot := hot T', next_slot_word := next_slot_word T'\<rparr>"
     "slot_inv T'" "physical_step_max (hot T') = physical_step_max (hot T)"
     "case r of Some s \<Rightarrow> s < MAX_BLOCKS \<and> slot_free T s | None \<Rightarrow> \<forall>i<MAX_BLOCKS. \<not> slot_free T i"
    using block_free_slot_ok [OF si] by blast
  have f: "entries T' = entries T" "bt_next_id T' = bt_next_id T" "initialized T' = initialized T" "slots T' = slots T"
    "same_tree T T'" "same_ids T T'" by (subst r(2), simp add: frames)+
  have "idx_inv T'"
  proof -
    let ?A = "{..<MAX_BLOCKS}"
    have p: "tree_part ?A T" "id_part ?A T" "slot_part ?A T" "low_steps T" using inv by (auto simp: idx_inv_def part_inv_def)
    have "slot_part ?A T'" using p(3) r(3) f by (simp add: slot_part_def slot_free_def)
    moreover have "low_steps T'" using p(4) r(4) by (simp add: low_steps_def)
    ultimately show ?thesis using tree_part_cong [OF p(1) f(5)] id_part_cong [OF p(2) f(6)] f(1) by (simp add: idx_inv_def part_inv_def)
  qed
  then have soft: "soft T T'" using f by (simp add: soft_def)
  obtain q where q: "free_word_from (slots T) (next_slot_word T) [0..<SLOT_WORDS] = Some q"
    "r = map_option fst q" "next_slot_word T' = (case q of None \<Rightarrow> next_slot_word T | Some (s, i, n) \<Rightarrow> i)"
    using r(1) by (auto simp: block_free_slot_def Let_def split: bind_splits option.splits)
  have pick: "r = slot_pick T" using q(1,2) by (auto simp: slot_pick_def split: option.splits)
  have again: "slot_pick T' = Some s" if rs: "r = Some s" for s
  proof -
    obtain i n where qs: "q = Some (s, i, n)" using rs q(2) by (cases q) auto
    have "i < SLOT_WORDS" "slots T i \<noteq> 0" "s = i * 64 + trailing_zeros (slots T i)" using free_word_pick q(1) qs by blast+
    then show ?thesis using free_word_head [of i "slots T"] qs q(3) f(4) by (simp add: slot_pick_def)
  qed
  show ?thesis using r(1,5) soft again idx_slot_free [OF inv] unfolding pick [symmetric]
    by (cases r) auto
qed

lemma free_slot_or_full_ok:
  assumes inv: "idx_inv T"
  shows "\<exists>T'. free_slot_or_full T = Some (case slot_pick T of None \<Rightarrow> Inl TableFull | Some s \<Rightarrow> Inr s, T') \<and> soft T T'
     \<and> (case slot_pick T of Some s \<Rightarrow> s < MAX_BLOCKS \<and> reusable_entry (entries T s) \<and> slot_pick T' = Some s | None \<Rightarrow> True)"
proof -
  obtain T' where "block_free_slot T = Some (slot_pick T, T')" "soft T T'"
     "case slot_pick T of Some s \<Rightarrow> s < MAX_BLOCKS \<and> reusable_entry (entries T s) \<and> slot_pick T' = Some s | None \<Rightarrow> True"
    using block_free_slot_pick [OF inv] by blast
  then show ?thesis by (cases "slot_pick T") (auto simp: free_slot_or_full_def ok_or_def ok_def err_def)
qed

section \<open>Registration\<close>

lemma andthen_simps [simp]:
  "andthen (Some (Inr v, s)) k = k v s" "andthen (Some (Inl e, s)) k = Some (Inl e, s)" "andthen (ok v s) k = k v s"
  "andthen (err e s) k = err e s"
  by (simp_all add: andthen_def ok_def err_def)

lemma idx_inv_next [simp]: "idx_inv (T\<lparr>bt_next_id := n\<rparr>) \<longleftrightarrow> idx_inv T"
proof -
  have up: "part_inv S (U\<lparr>bt_next_id := m\<rparr>)" if "part_inv S U" for S U m
    by (rule part_inv_cong [OF that]) (use that in \<open>simp_all add: frames low_steps_def part_inv_def\<close>)
  have "part_inv S T" if "part_inv S (T\<lparr>bt_next_id := n\<rparr>)" for S
    using up [OF that, of "bt_next_id T"] by simp
  then show ?thesis unfolding idx_inv_def using up by blast
qed

lemma virtual_overlap_False:
  assumes "\<not> virtual_overlap ents base fin ignore is" and "i \<in> set is" and "block_active (ents i)" "b_id (ents i) \<noteq> ignore" "b_virt_len (ents i) \<noteq> 0"
  shows "b_virt_base (ents i) + b_virt_len (ents i) \<le> base \<or> fin \<le> b_virt_base (ents i)"
  using assms by (induction "is") (auto simp: Let_def checked_add64_def split: if_splits)

lemma validate_OK:
  "validate b = Inr () \<longleftrightarrow> (b_phys_len b \<noteq> 0 \<or> b_virt_len b \<noteq> 0) \<and> b_phys_base b + b_phys_len b \<le> U64_MAX
     \<and> b_virt_base b + b_virt_len b \<le> U64_MAX \<and> (b_reserved b = 0 \<or> b_committed b \<le> b_reserved b)"
  by (auto simp: validate_def validate_bytes_def checked_add64_def)

lemma check_cases: "check r T k = (case r of Inl e \<Rightarrow> Some (Inl e, T) | Inr _ \<Rightarrow> k)"
  by (cases r) (simp_all add: check_def err_def)

lemma block_overlaps_ok:
  assumes inv: "cat_inv T"
  shows "\<exists>r T'. block_overlaps base len True ignore T = Some (r, T') \<and> still T T'
     \<and> (\<not> r \<longrightarrow> len \<noteq> 0 \<longrightarrow> base + len \<le> U64_MAX \<and> (\<forall>i. \<not> meets (entries T) base (base + len) ignore i))"
    and "\<exists>r. block_overlaps base len False ignore T = Some (r, T)
     \<and> (\<not> r \<longrightarrow> len \<noteq> 0 \<longrightarrow> (\<forall>i. virt_slot (entries T) i \<and> b_id (entries T i) \<noteq> ignore \<longrightarrow>
          b_virt_base (entries T i) + b_virt_len (entries T i) \<le> base \<or> base + len \<le> b_virt_base (entries T i)))"
proof -
  have c: "idx_inv T" "fits (entries T)" "disjoint_blocks (entries T)" using inv by (auto simp: cat_inv_def)
  show "\<exists>r T'. block_overlaps base len True ignore T = Some (r, T') \<and> still T T'
     \<and> (\<not> r \<longrightarrow> len \<noteq> 0 \<longrightarrow> base + len \<le> U64_MAX \<and> (\<forall>i. \<not> meets (entries T) base (base + len) ignore i))"
    using overlaps_physical_ok [OF c, of base "base + len" ignore]
    by (auto simp: block_overlaps_def checked_add64_def)
  show "\<exists>r. block_overlaps base len False ignore T = Some (r, T)
     \<and> (\<not> r \<longrightarrow> len \<noteq> 0 \<longrightarrow> (\<forall>i. virt_slot (entries T) i \<and> b_id (entries T i) \<noteq> ignore \<longrightarrow>
          b_virt_base (entries T i) + b_virt_len (entries T i) \<le> base \<or> base + len \<le> b_virt_base (entries T i)))"
    using virtual_overlap_False [of "entries T" base "base + len" ignore "[0..<MAX_BLOCKS]"]
    by (auto simp: block_overlaps_def checked_add64_def virt_slot_def)
qed

lemma take_id_Some: "take_id n = Some (k, m) \<longleftrightarrow> n \<noteq> 0 \<and> k = n \<and> m = (n + 1) mod 2 ^ 32"
  by (auto simp: take_id_def)

lemma take_id_None: "take_id n = None \<longleftrightarrow> n = 0"
  by (simp add: take_id_def)

lemma fresh_next:
  assumes "fresh_ids ents n" and "n \<noteq> 0"
  shows "fresh_ids (ents(s := block_entry b n)) ((n + 1) mod 2 ^ 32)"
proof (cases "n + 1 = 2 ^ 32")
  case True
  then show ?thesis using assms by (auto simp: fresh_ids_def block_entry_def)
next
  case False
  then have "n + 1 < 2 ^ 32" using assms(1) by (simp add: fresh_ids_def)
  then show ?thesis using assms by (auto simp: fresh_ids_def block_entry_def)
qed

lemma fresh_new_id: "fresh_ids ents n \<Longrightarrow> n \<noteq> 0 \<Longrightarrow> new_id ents s (block_entry b n)"
  by (auto simp: fresh_ids_def new_id_def block_entry_def)

lemma reusable_not_physical: "reusable_entry b \<Longrightarrow> \<not> block_active b" "reusable_entry b \<Longrightarrow> \<not> physical_index b"
  by (auto simp: reusable_entry_def block_active_def physical_index_def)

lemma virt_new:
  assumes "virt_inv ents" and "b_virt_base e + b_virt_len e \<le> U64_MAX"
    and "\<And>j. j \<noteq> s \<Longrightarrow> virt_slot ents j \<Longrightarrow> b_virt_len e \<noteq> 0 \<Longrightarrow> virt_apart e (ents j)"
  shows "virt_inv (ents(s := e))"
proof -
  have v: "j \<noteq> s \<Longrightarrow> virt_slot (ents(s := e)) j = virt_slot ents j" for j by (simp add: virt_slot_def)
  have len: "virt_slot (ents(s := e)) s \<Longrightarrow> b_virt_len e \<noteq> 0" by (simp add: virt_slot_def)
  have sym: "virt_apart a b = virt_apart b a" for a b by (auto simp: virt_apart_def)
  have 1: "b_virt_base ((ents(s := e)) i) + b_virt_len ((ents(s := e)) i) \<le> U64_MAX" if "virt_slot (ents(s := e)) i" for i
    using assms(1,2) v that by (cases "i = s") (auto simp: virt_inv_def)
  have 2: "virt_apart ((ents(s := e)) i) ((ents(s := e)) j)"
    if "virt_slot (ents(s := e)) i" "virt_slot (ents(s := e)) j" "i \<noteq> j" for i j
  proof (cases "i = s \<or> j = s")
    case True
    then show ?thesis using that assms(3) v len sym by (metis fun_upd_apply)
  next
    case False
    then show ?thesis using that assms(1) v by (simp add: virt_inv_def)
  qed
  show ?thesis unfolding virt_inv_def using 1 2 by blast
qed

lemma register_write:
  assumes inv: "cat_inv T" and s: "s < MAX_BLOCKS" and n: "bt_next_id T \<noteq> 0"
    and v: "validate request = Inr ()"
    and p: "b_phys_len request \<noteq> 0 \<Longrightarrow> \<forall>i. \<not> meets (entries T) (b_phys_base request) (block_end request) 0 i"
    and w: "b_virt_len request \<noteq> 0 \<Longrightarrow> \<forall>i. virt_slot (entries T) i \<longrightarrow> virt_apart request (entries T i)"
  shows "\<exists>T'. block_replace s (block_entry request (bt_next_id T)) (T\<lparr>bt_next_id := (bt_next_id T + 1) mod 2 ^ 32\<rparr>) = Some T'
     \<and> cat_inv T' \<and> entries T' = (entries T)(s := block_entry request (bt_next_id T))
     \<and> bt_next_id T' = (bt_next_id T + 1) mod 2 ^ 32 \<and> initialized T' = initialized T"
proof -
  let ?e = "entries T" and ?n = "bt_next_id T" and ?b = "block_entry request (bt_next_id T)"
  have c: "idx_inv T" "fits ?e" "disjoint_blocks ?e" "virt_inv ?e" "fresh_ids ?e ?n" using inv by (auto simp: cat_inv_def)
  have ext: "block_end ?b = block_end request" "b_phys_base ?b = b_phys_base request" "b_phys_len ?b = b_phys_len request"
    "b_virt_base ?b = b_virt_base request" "b_virt_len ?b = b_virt_len request"
    by (auto simp: block_entry_def block_end_def)
  obtain T' where T': "block_replace s ?b (T\<lparr>bt_next_id := (?n + 1) mod 2 ^ 32\<rparr>) = Some T'" "idx_inv T'"
     "entries T' = ?e(s := ?b)" "bt_next_id T' = (?n + 1) mod 2 ^ 32" "initialized T' = initialized T"
    using block_replace_ok [of "T\<lparr>bt_next_id := (?n + 1) mod 2 ^ 32\<rparr>" s ?b] c(1) s fresh_new_id [OF c(5) n] by auto
  have "fits (?e(s := ?b))" using fits_write [OF c(2)] v ext(1) by (simp add: validate_OK block_end_def)
  moreover have "disjoint_blocks (?e(s := ?b))"
  proof (rule disjoint_write [OF c(3)])
    fix j assume a: "physical_index ?b" "j \<noteq> s" "phys_slot ?e j"
    then have "b_phys_len request \<noteq> 0" using ext(3) physical_len [OF a(1)] by simp
    then have "\<not> meets ?e (b_phys_base request) (block_end request) 0 j" using p by blast
    moreover have "b_id (?e j) \<noteq> 0"
      using a(3) c(5) unfolding phys_slot_def physical_index_def block_active_def fresh_ids_def by auto
    ultimately show "apart ?b (?e j)" using a(3) ext(1,2) by (auto simp: meets_def apart_def)
  qed
  moreover have "virt_inv (?e(s := ?b))"
    using virt_new [OF c(4), of ?b s] v w ext(4,5) by (auto simp: validate_OK virt_apart_def)
  moreover have "fresh_ids (?e(s := ?b)) ((?n + 1) mod 2 ^ 32)" by (rule fresh_next [OF c(5) n])
  ultimately have "cat_inv T'" using T' by (simp add: cat_inv_def)
  then show ?thesis using T' by blast
qed

lemma block_register_ok:
  assumes inv: "cat_inv T"
  shows "\<exists>r T'. block_register request T = Some (r, T') \<and> cat_inv T'
     \<and> (case r of Inl _ \<Rightarrow> soft T T' | Inr ident \<Rightarrow> registered request T ident T')"
proof (cases "validate request")
  case (Inl e)
  then show ?thesis using inv by (simp add: block_register_def check_cases)
next
  case (Inr u)
  then have v: "validate request = Inr ()" by simp
  let ?b = "b_phys_base request" and ?l = "b_phys_len request"
  obtain p T1 where 1: "block_overlaps ?b ?l True 0 T = Some (p, T1)" "still T T1"
     "\<not> p \<longrightarrow> ?l \<noteq> 0 \<longrightarrow> (\<forall>i. \<not> meets (entries T) ?b (?b + ?l) 0 i)"
    using block_overlaps_ok(1) [OF inv] by blast
  note c1 = stillD(6) [OF 1(2) inv] and e1 = stillD(1) [OF 1(2)]
  obtain w where w: "block_overlaps (b_virt_base request) (b_virt_len request) False 0 T1 = Some (w, T1)"
     "\<not> w \<longrightarrow> b_virt_len request \<noteq> 0 \<longrightarrow> (\<forall>i. virt_slot (entries T) i \<and> b_id (entries T i) \<noteq> 0 \<longrightarrow>
          b_virt_base (entries T i) + b_virt_len (entries T i) \<le> b_virt_base request
          \<or> b_virt_base request + b_virt_len request \<le> b_virt_base (entries T i))"
    using block_overlaps_ok(2) [OF c1] unfolding e1 by blast
  show ?thesis
  proof (cases "p \<or> w")
    case True
    then show ?thesis using v 1 w c1 stillD(7) [OF 1(2)] by (auto simp: block_register_def check_cases err_def)
  next
    case False
    have i1: "idx_inv T1" using c1 by (simp add: cat_inv_def)
    obtain T3 where 3: "free_slot_or_full T1 = Some (case slot_pick T1 of None \<Rightarrow> Inl TableFull | Some s \<Rightarrow> Inr s, T3)" "soft T1 T3"
       "case slot_pick T1 of Some s \<Rightarrow> s < MAX_BLOCKS \<and> reusable_entry (entries T1 s) \<and> slot_pick T3 = Some s | None \<Rightarrow> True"
      using free_slot_or_full_ok [OF i1] by blast
    have s3: "soft T T3" using stillD(7) [OF 1(2)] 3(2) soft_trans by blast
    note c3 = softD(6) [OF s3 inv] and e3 = softD(1) [OF s3] and n3 = softD(2) [OF s3]
    have pick: "slot_pick T1 = slot_pick T" using slot_pick_still [OF 1(2)] .
    show ?thesis
    proof (cases "slot_pick T")
      case None
      then show ?thesis using v 1 w 3 False pick c3 s3 by (auto simp: block_register_def check_cases)
    next
      case (Some s)
      have s: "s < MAX_BLOCKS" "reusable_entry (entries T s)" using 3(3) Some pick e1 by auto
      show ?thesis
      proof (cases "bt_next_id T = 0")
        case True
        then have "take_id (bt_next_id T3) = None" using n3 by (simp add: take_id_def)
        then have "block_register request T = Some (Inl Overflow, T3)"
          unfolding block_register_def check_cases v using 1 w False 3(1) pick Some by (simp add: ok_or_def err_def)
        then show ?thesis using c3 s3 by simp
      next
        case n: False
        have ids: "b_id (entries T i) \<noteq> 0" if "virt_slot (entries T) i" for i
          using that inv by (auto simp: cat_inv_def fresh_ids_def virt_slot_def block_active_def)
        obtain T' where T': "block_replace s (block_entry request (bt_next_id T3)) (T3\<lparr>bt_next_id := (bt_next_id T3 + 1) mod 2 ^ 32\<rparr>) = Some T'"
           "cat_inv T'" "entries T' = (entries T3)(s := block_entry request (bt_next_id T3))"
           "bt_next_id T' = (bt_next_id T3 + 1) mod 2 ^ 32" "initialized T' = initialized T3"
          using register_write [OF c3 s(1) _ v] n n3 e3 1(3) w(2) False ids
          by (auto simp: block_end_def virt_apart_def)
        have t: "take_id (bt_next_id T3) = Some (bt_next_id T3, (bt_next_id T3 + 1) mod 2 ^ 32)" using n n3 by (simp add: take_id_def)
        have "block_register request T = Some (Inr (bt_next_id T), T')"
          unfolding block_register_def check_cases v using 1 w False 3(1) pick Some T'(1) n3 t
          by (simp add: ok_or_def ok_def)
        moreover have "registered request T (bt_next_id T) T'"
          unfolding registered_def using T' n n3 e3 softD(3) [OF s3] s Some v by simp
        ultimately show ?thesis using T'(2) by auto
      qed
    qed
  qed
qed

end
