(* ===== verification/Block_Merge.thy ===== *)
theory Block_Merge
  imports Block_Space
begin

text \<open>
  Containing blocks and merging: which block holds a range, which neighbour a new block joins, and that
  adding or merging a block paints its range and nothing else.
\<close>

section \<open>Containing blocks\<close>

definition usable :: "bool \<Rightarrow> block \<Rightarrow> bool" where
  "usable free b \<longleftrightarrow> (if free then canonical_free b else b_kind b \<noteq> FREE_KIND \<and> b_status b \<noteq> FREE)"

definition holds_range :: "(nat \<Rightarrow> block) \<Rightarrow> bool \<Rightarrow> nat \<Rightarrow> nat \<Rightarrow> nat \<Rightarrow> bool" where
  "holds_range ents free base fin i \<longleftrightarrow> phys_slot ents i \<and> usable free (ents i) \<and> b_phys_base (ents i) \<le> base \<and> fin \<le> block_end (ents i)"

definition entries_ok :: "(nat \<Rightarrow> block) \<Rightarrow> nat \<Rightarrow> bool" where
  "entries_ok ents next1 \<longleftrightarrow> fits ents \<and> disjoint_blocks ents \<and> virt_inv ents \<and> fresh_ids ents next1"

definition clear_range :: "(nat \<Rightarrow> block) \<Rightarrow> nat \<Rightarrow> nat \<Rightarrow> bool" where
  "clear_range ents base fin \<longleftrightarrow> (\<forall>i. phys_slot ents i \<longrightarrow> block_end (ents i) \<le> base \<or> fin \<le> b_phys_base (ents i))"

text \<open>The neighbour a request merges into: the block that ends where it starts, else the block that starts where it ends.\<close>

definition left_mate :: "(nat \<Rightarrow> block) \<Rightarrow> block \<Rightarrow> nat \<Rightarrow> bool" where
  "left_mate ents request i \<longleftrightarrow> phys_slot ents i \<and> block_end (ents i) = b_phys_base request \<and> merge_compatible (ents i) request"

definition right_mate :: "(nat \<Rightarrow> block) \<Rightarrow> block \<Rightarrow> nat \<Rightarrow> bool" where
  "right_mate ents request i \<longleftrightarrow> phys_slot ents i \<and> b_phys_base (ents i) = block_end request \<and> merge_compatible (ents i) request"

definition merge_pick :: "(nat \<Rightarrow> block) \<Rightarrow> block \<Rightarrow> nat option" where
  "merge_pick ents request = (case find (left_mate ents request) [0..<MAX_BLOCKS] of
     Some i \<Rightarrow> Some i | None \<Rightarrow> find (right_mate ents request) [0..<MAX_BLOCKS])"

text \<open>The block that results from merging a request into its neighbour.\<close>

definition merged_into :: "block \<Rightarrow> block \<Rightarrow> block" where
  "merged_into b request = b\<lparr>b_phys_base := min (b_phys_base b) (b_phys_base request), b_phys_len := b_phys_len b + b_phys_len request,
     b_reserved := b_reserved b + b_reserved request, b_committed := b_committed b + b_committed request\<rparr>"

definition mate :: "(nat \<Rightarrow> block) \<Rightarrow> block \<Rightarrow> nat \<Rightarrow> bool" where
  "mate ents request i \<longleftrightarrow> left_mate ents request i \<or> right_mate ents request i"

text \<open>A request over a clear range goes to the slot of its mate or to the next reusable slot.\<close>

definition placed_in :: "block_table \<Rightarrow> block \<Rightarrow> nat \<Rightarrow> bool" where
  "placed_in T request i \<longleftrightarrow> i < MAX_BLOCKS \<and>
     (case merge_pick (entries T) request of Some j \<Rightarrow> i = j | None \<Rightarrow> slot_pick T = Some i)"

section \<open>Entries\<close>

lemma cat_inv_entries: "cat_inv T \<longleftrightarrow> idx_inv T \<and> entries_ok (entries T) (bt_next_id T)"
  by (auto simp: cat_inv_def entries_ok_def)

lemma replace_ok:
  assumes "cat_inv T" and "i < MAX_BLOCKS" and "new_id (entries T) i e" and "entries_ok ((entries T)(i := e)) (bt_next_id T)"
  shows "\<exists>T'. block_replace i e T = Some T' \<and> cat_inv T' \<and> entries T' = (entries T)(i := e)
     \<and> bt_next_id T' = bt_next_id T \<and> initialized T' = initialized T"
  using assms block_replace_ok [of T i e] unfolding cat_inv_entries by fastforce

lemma same_id_new: "unique_ids ents \<Longrightarrow> i < MAX_BLOCKS \<Longrightarrow> b_id e = b_id (ents i) \<Longrightarrow> b_slot_used e = b_slot_used (ents i) \<Longrightarrow> new_id ents i e"
  unfolding new_id_def unique_ids_def by metis

text \<open>Releasing the block of one slot blanks its range.\<close>

lemma released_facts:
  "\<not> physical_index (released b)" "\<not> block_active (released b)" "b_slot_used (released b) = b_slot_used b" "b_id (released b) = b_id b"
  by (auto simp: released_def physical_index_def block_active_def)

lemma release_entries:
  assumes ok: "entries_ok ents n" and i: "i < MAX_BLOCKS"
  shows "entries_ok (ents(i := released (ents i))) n"
    "phys_view (ents(i := released (ents i))) = (\<lambda>a. if phys_slot ents i \<and> covers_addr (ents i) a then None else phys_view ents a)"
proof -
  let ?b = "released (ents i)"
  have c: "fits ents" "disjoint_blocks ents" "virt_inv ents" "fresh_ids ents n" using ok by (auto simp: entries_ok_def)
  have "fits (ents(i := ?b))" by (rule fits_write [OF c(1)]) (simp add: released_facts)
  moreover have d: "disjoint_blocks (ents(i := ?b))" by (rule disjoint_write [OF c(2)]) (simp add: released_facts)
  moreover have "virt_inv (ents(i := ?b))" by (rule virt_write [OF c(3)]) (simp add: released_facts)
  moreover have "fresh_ids (ents(i := ?b)) n"
    by (rule fresh_write [OF c(4)]) (use c(4) i in \<open>simp add: fresh_ids_def released_facts\<close>)
  ultimately show "entries_ok (ents(i := ?b)) n" by (simp add: entries_ok_def)
  show "phys_view (ents(i := ?b)) = (\<lambda>a. if phys_slot ents i \<and> covers_addr (ents i) a then None else phys_view ents a)"
    unfolding fun_eq_iff view_write [OF c(2) d i] by (simp add: released_facts)
qed

lemma release_write:
  assumes inv: "cat_inv T" and i: "i < MAX_BLOCKS"
  shows "\<exists>T'. block_replace i (released (entries T i)) T = Some T' \<and> cat_inv T' \<and> entries T' = (entries T)(i := released (entries T i))
     \<and> bt_next_id T' = bt_next_id T \<and> initialized T' = initialized T
     \<and> phys_view (entries T') = (\<lambda>a. if phys_slot (entries T) i \<and> covers_addr (entries T i) a then None else phys_view (entries T) a)"
proof -
  have c: "idx_inv T" "entries_ok (entries T) (bt_next_id T)" using inv by (auto simp: cat_inv_entries)
  have new: "new_id (entries T) i (released (entries T i))"
    by (rule same_id_new [OF idx_inv_unique [OF c(1)] i]) (simp_all add: released_facts)
  show ?thesis using replace_ok [OF inv i new] release_entries [OF c(2) i] by fastforce
qed

section \<open>Searching\<close>

lemma floor_holds:
  assumes dis: "disjoint_blocks ents" and fl: "greatest ents (\<lambda>i. b_phys_base (ents i) \<le> base) at"
    and i: "phys_slot ents i" "b_phys_base (ents i) \<le> base" "base < block_end (ents i)"
  shows "at = Some i"
proof (cases at)
  case None
  then show ?thesis using fl i by (auto simp: greatest_def)
next
  case (Some f)
  have f: "phys_slot ents f" "b_phys_base (ents f) \<le> base" "i = f \<or> before ents i f" using fl Some i by (auto simp: greatest_def)
  have "\<not> before ents i f" using phys_before_end [OF dis i(1) f(1)] f(2) i(3) by auto
  then show ?thesis using f(3) Some by simp
qed

lemma block_containing_ok:
  assumes inv: "cat_inv T" and len: "len \<noteq> 0"
  shows "\<exists>at T'. block_containing base len free T = Some (at, T') \<and> still T T'
     \<and> (case at of None \<Rightarrow> \<forall>i. \<not> holds_range (entries T) free base (base + len) i
        | Some i \<Rightarrow> holds_range (entries T) free base (base + len) i)"
proof -
  let ?e = "entries T"
  have c: "idx_inv T" "fits ?e" "disjoint_blocks ?e" using inv by (auto simp: cat_inv_def)
  have fit: "block_end (?e i) \<le> U64_MAX" if "phys_slot ?e i" for i using that c(2) by (simp add: fits_def phys_slot_def)
  show ?thesis
  proof (cases "checked_add64 base len")
    case None
    then have "\<not> holds_range ?e free base (base + len) i" for i
      using fit [of i] by (auto simp: checked_add64_def holds_range_def split: if_splits)
    then show ?thesis using None by (simp add: block_containing_def)
  next
    case (Some fin)
    then have fin: "fin = base + len" by (auto simp: checked_add64_def split: if_splits)
    obtain at T1 where 1: "avl_floor base T = Some (at, T1)" "still T T1" "greatest ?e (\<lambda>i. b_phys_base (?e i) \<le> base) at"
      using idx_floor [OF c(1)] by blast
    have only: "at = Some i" if "holds_range ?e free base (base + len) i" for i
      using floor_holds [OF c(3) 1(3)] that len by (auto simp: holds_range_def)
    show ?thesis
    proof (cases at)
      case None
      then have "\<forall>i. \<not> holds_range ?e free base (base + len) i" using only by (metis option.distinct(1))
      then show ?thesis using None Some 1 by (simp add: block_containing_def)
    next
      case at: (Some f)
      have f: "phys_slot ?e f" "b_phys_base (?e f) \<le> base" using 1(3) at by (auto simp: greatest_def)
      have act: "f < MAX_BLOCKS" "block_active (?e f)" "b_phys_len (?e f) \<noteq> 0" using f(1) by (auto simp: phys_slot_def physical_index_def)
      have ce: "checked_add64 (b_phys_base (?e f)) (b_phys_len (?e f)) = Some (block_end (?e f))"
        using fit [OF f(1)] by (simp add: checked_add64_def block_end_def)
      have "block_containing base len free T = Some (if holds_range ?e free base (base + len) f then Some f else None, T1)"
        unfolding block_containing_def Some using 1(1) at act ce stillD(1) [OF 1(2)] f
        by (auto simp: holds_range_def usable_def fin)
      moreover have "\<not> holds_range ?e free base (base + len) i" if "\<not> holds_range ?e free base (base + len) f" for i
        using only [of i] at that by (metis option.inject)
      ultimately show ?thesis using 1(2) by (cases "holds_range ?e free base (base + len) f") simp_all
    qed
  qed
qed

section \<open>Merging\<close>

lemma find_only:
  assumes "P i" and "i < n" and "\<And>j. P j \<Longrightarrow> j = i"
  shows "find P [0..<n] = Some i"
proof -
  have "\<not> P j" if "j < i" for j using assms(3) that by (metis less_irrefl)
  then show ?thesis using assms(1,2) by (auto simp: find_Some_iff intro!: exI [of _ i])
qed

lemma find_none: "(\<And>j. \<not> P j) \<Longrightarrow> find P xs = None"
  by (simp add: find_None_iff)

lemma left_mate_low:
  assumes dis: "disjoint_blocks ents" and lo: "greatest ents (\<lambda>i. b_phys_base (ents i) < base) at"
    and i: "phys_slot ents i" "block_end (ents i) = base"
  shows "at = Some i"
proof -
  have pos: "b_phys_len (ents i) \<noteq> 0" using i(1) by (simp add: phys_slot_def physical_index_def)
  then have bi: "b_phys_base (ents i) < base" using i(2) by (simp add: block_end_def)
  show ?thesis
  proof (cases at)
    case None
    then show ?thesis using lo i bi by (auto simp: greatest_def)
  next
    case (Some f)
    have f: "phys_slot ents f" "b_phys_base (ents f) < base" "i = f \<or> before ents i f" using lo Some i bi by (auto simp: greatest_def)
    have "\<not> before ents i f" using phys_before_end [OF dis i(1) f(1)] f(2) i(2) by auto
    then show ?thesis using f(3) Some by simp
  qed
qed

lemma right_mate_next:
  assumes dis: "disjoint_blocks ents" and hi: "least ents (\<lambda>i. fin \<le> b_phys_base (ents i)) at"
    and i: "phys_slot ents i" "b_phys_base (ents i) = fin"
  shows "at = Some i"
proof (cases at)
  case None
  then show ?thesis using hi i by (auto simp: least_def)
next
  case (Some f)
  have f: "phys_slot ents f" "fin \<le> b_phys_base (ents f)" "i = f \<or> before ents f i" using hi Some i by (auto simp: least_def)
  have "b_phys_len (ents f) \<noteq> 0" using f(1) by (simp add: phys_slot_def physical_index_def)
  then have "\<not> before ents f i" using phys_before_end [OF dis f(1) i(1)] f(2) i(2) by (auto simp: block_end_def)
  then show ?thesis using f(3) Some by simp
qed

lemma merge_slot_ok:
  assumes inv: "cat_inv T" and fin: "block_end request \<le> U64_MAX"
  shows "\<exists>T'. merge_slot request T = Some (Inr (merge_pick (entries T) request), T') \<and> still T T'"
proof -
  let ?e = "entries T" and ?b = "b_phys_base request"
  have c: "idx_inv T" "fits ?e" "disjoint_blocks ?e" using inv by (auto simp: cat_inv_def)
  have ce: "checked_add64 (b_phys_base (?e i)) (b_phys_len (?e i)) = Some (block_end (?e i))" if "phys_slot ?e i" for i
    using that c(2) by (auto simp: fits_def phys_slot_def checked_add64_def block_end_def)
  have cr: "checked_add64 ?b (b_phys_len request) = Some (block_end request)" using fin by (simp add: checked_add64_def block_end_def)
  obtain low at T1 where 1: "predecessor_before ?b 0 T = Some (at, T1)" "still T T1" "greatest ?e (\<lambda>i. b_phys_base (?e i) < ?b) low"
     "case low of None \<Rightarrow> at = None | Some i \<Rightarrow> at = Some i"
    using idx_predecessor_before [OF c(1), of ?b 0] by (auto split: option.splits)
  have at: "at = low" using 1(4) by (auto split: option.splits)
  define found where "found = (case at of None \<Rightarrow> None | Some i \<Rightarrow> if left_mate ?e request i then Some i else None)"
  have found: "found = find (left_mate ?e request) [0..<MAX_BLOCKS]"
  proof (cases "\<exists>i. left_mate ?e request i")
    case True
    then obtain i where i: "left_mate ?e request i" by blast
    have only: "at = Some j" if "left_mate ?e request j" for j
      unfolding at by (rule left_mate_low [OF c(3) 1(3)]) (use that in \<open>auto simp: left_mate_def\<close>)
    have "i < MAX_BLOCKS" using i by (simp add: left_mate_def phys_slot_def)
    moreover have "j = i" if "left_mate ?e request j" for j using only [OF that] only [OF i] by (metis option.inject)
    ultimately have "find (left_mate ?e request) [0..<MAX_BLOCKS] = Some i" using find_only [of "left_mate ?e request", OF i] by blast
    then show ?thesis using only [OF i] i by (simp add: found_def)
  next
    case False
    then show ?thesis using find_none [of "left_mate ?e request"] by (auto simp: found_def split: option.splits)
  qed
  have e1: "entries T1 = ?e" and i1: "idx_inv T1" using stillD(1,5) [OF 1(2)] c(1) by auto
  have lows: "phys_slot ?e i" if "at = Some i" for i using 1(3) that [unfolded at] by (simp add: greatest_def)
  have step1: "(case at of None \<Rightarrow> ok None T1
         | Some index \<Rightarrow> do {
             b \<leftarrow> index_get MAX_BLOCKS (entries T1) index;
             ok_or (checked_add64 (b_phys_base b) (b_phys_len b)) Overflow T1 (\<lambda>block_end.
               ok (if block_end = ?b \<and> merge_compatible b request then Some index else None) T1)
           }) = Some (Inr found, T1)"
    using lows ce e1 by (auto simp: found_def ok_def ok_or_def left_mate_def phys_slot_def split: option.splits)
  show ?thesis
  proof (cases found)
    case (Some i)
    then have "merge_pick ?e request = Some i" using found by (simp add: merge_pick_def)
    then show ?thesis unfolding merge_slot_def cr using 1(1,2) step1 Some by (simp add: ok_or_def ok_def)
  next
    case None
    obtain hi T2 where 2: "avl_lower_bound (block_end request) T1 = Some (hi, T2)" "still T1 T2"
       "least ?e (\<lambda>i. block_end request \<le> b_phys_base (?e i)) hi"
      using idx_lower_bound [OF i1] unfolding e1 by blast
    have e2: "entries T2 = ?e" using stillD(1) [OF 2(2)] e1 by simp
    have his: "phys_slot ?e i" if "hi = Some i" for i using 2(3) that by (simp add: least_def)
    define res where "res = (case hi of None \<Rightarrow> None | Some i \<Rightarrow> if right_mate ?e request i then Some i else None)"
    have "res = find (right_mate ?e request) [0..<MAX_BLOCKS]"
    proof (cases "\<exists>i. right_mate ?e request i")
      case True
      then obtain i where i: "right_mate ?e request i" by blast
      have only: "hi = Some j" if "right_mate ?e request j" for j
        by (rule right_mate_next [OF c(3) 2(3)]) (use that in \<open>auto simp: right_mate_def\<close>)
      have "i < MAX_BLOCKS" using i by (simp add: right_mate_def phys_slot_def)
      moreover have "j = i" if "right_mate ?e request j" for j using only [OF that] only [OF i] by (metis option.inject)
      ultimately have "find (right_mate ?e request) [0..<MAX_BLOCKS] = Some i" using find_only [of "right_mate ?e request", OF i] by blast
      then show ?thesis using only [OF i] i by (simp add: res_def)
    next
      case False
      then show ?thesis using find_none [of "right_mate ?e request"] by (auto simp: res_def split: option.splits)
    qed
    then have "merge_pick ?e request = res" using found None by (simp add: merge_pick_def)
    moreover have "merge_slot request T = Some (Inr res, T2)"
      unfolding merge_slot_def cr using 1(1) step1 None 2(1) his e2
      by (cases hi) (auto simp: ok_or_def ok_def res_def right_mate_def phys_slot_def)
    ultimately show ?thesis using 1(2) 2(2) still_trans by auto
  qed
qed

lemma merge_pick_Some:
  assumes "merge_pick ents request = Some i"
  shows "left_mate ents request i \<or> right_mate ents request i"
  using assms by (auto simp: merge_pick_def find_Some_iff split: option.splits)

lemma registered_view:
  assumes inv: "cat_inv T" "cat_inv T'" and reg: "registered request T ident T'" and clear: "clear_range (entries T) (b_phys_base request) (block_end request)"
  shows "phys_view (entries T') = paint (b_phys_base request) (b_phys_len request) (shade request) (phys_view (entries T))"
proof
  fix a
  let ?e = "entries T" and ?b = "block_entry request ident"
  obtain s where s: "s < MAX_BLOCKS" "reusable_entry (?e s)" "entries T' = ?e(s := ?b)" using reg by (auto simp: registered_def)
  have np: "\<not> phys_slot ?e s" using s(2) reusable_not_physical by (auto simp: phys_slot_def)
  have d: "disjoint_blocks ?e" "disjoint_blocks (?e(s := ?b))" using inv s(3) by (auto simp: cat_inv_def)
  have b: "attr ?b = attr request" "covers_addr ?b a \<longleftrightarrow> b_phys_base request \<le> a \<and> a < b_phys_base request + b_phys_len request"
    "physical_index ?b \<longleftrightarrow> b_status request \<noteq> RELEASED \<and> b_phys_len request \<noteq> 0"
    by (auto simp: attr_def covers_addr_def block_end_def block_entry_def physical_index_def block_active_def)
  have "phys_view ?e a = None" if "b_phys_base request \<le> a" "a < b_phys_base request + b_phys_len request"
    using clear that unfolding phys_view_None clear_range_def covers_addr_def block_end_def by fastforce
  then show "phys_view (entries T') a = paint (b_phys_base request) (b_phys_len request) (shade request) (phys_view ?e) a"
    unfolding s(3) view_write [OF d s(1)] using np b by (auto simp: paint_def shade_def)
qed

lemma mateD:
  assumes "mate ents request i"
  shows "phys_slot ents i" "merge_compatible (ents i) request" "attr (ents i) = attr request" "b_virt_len (ents i) = 0"
    "i < MAX_BLOCKS" "block_active (ents i)" "b_phys_len (ents i) \<noteq> 0"
    "block_end (ents i) = b_phys_base request \<or> b_phys_base (ents i) = block_end request"
  using assms by (auto simp: mate_def left_mate_def right_mate_def merge_compatible_def attr_def phys_slot_def)

lemma merged_into_facts:
  assumes "mate ents request i"
  shows "attr (merged_into (ents i) request) = attr request" "physical_index (merged_into (ents i) request)"
    "covers_addr (merged_into (ents i) request) a \<longleftrightarrow>
       covers_addr (ents i) a \<or> b_phys_base request \<le> a \<and> a < b_phys_base request + b_phys_len request"
    "block_end (merged_into (ents i) request) = max (block_end (ents i)) (block_end request)"
    "b_phys_base (merged_into (ents i) request) = min (b_phys_base (ents i)) (b_phys_base request)"
    "b_id (merged_into (ents i) request) = b_id (ents i)" "b_slot_used (merged_into (ents i) request)"
    "b_virt_len (merged_into (ents i) request) = 0"
  using mateD [OF assms]
  by (auto simp: merged_into_def attr_def physical_index_def block_active_def covers_addr_def block_end_def)

lemma merged_into_apart:
  assumes m: "mate ents request i" and dis: "disjoint_blocks ents" and clear: "clear_range ents (b_phys_base request) (block_end request)"
    and j: "j \<noteq> i" "phys_slot ents j"
  shows "apart (merged_into (ents i) request) (ents j)"
proof -
  have a: "apart (ents i) (ents j)" using dis mateD(1) [OF m] j by (simp add: disjoint_blocks_def phys_slot_def)
  have c: "block_end (ents j) \<le> b_phys_base request \<or> block_end request \<le> b_phys_base (ents j)" using clear j(2) by (simp add: clear_range_def)
  have "b_phys_len (ents j) \<noteq> 0" using j(2) physical_len by (auto simp: phys_slot_def)
  then show ?thesis using a c mateD(7,8) [OF m] unfolding apart_def merged_into_facts(4,5) [OF m] by (auto simp: block_end_def)
qed

lemma merge_entries:
  assumes ok: "entries_ok ents n" and m: "mate ents request i" and fin: "block_end request \<le> U64_MAX"
    and clear: "clear_range ents (b_phys_base request) (block_end request)"
  shows "entries_ok (ents(i := merged_into (ents i) request)) n"
    "phys_view (ents(i := merged_into (ents i) request)) = paint (b_phys_base request) (b_phys_len request) (shade request) (phys_view ents)"
proof -
  let ?b = "merged_into (ents i) request"
  have c: "fits ents" "disjoint_blocks ents" "virt_inv ents" "fresh_ids ents n" using ok by (auto simp: entries_ok_def)
  note M = mateD [OF m] and F = merged_into_facts [OF m]
  have used: "b_slot_used (ents i)" using M(6) by (simp add: block_active_def)
  have "fits (ents(i := ?b))"
    using fits_write [OF c(1)] F(4) fin c(1) M(1) by (simp add: fits_def phys_slot_def)
  moreover have d: "disjoint_blocks (ents(i := ?b))"
    by (rule disjoint_write [OF c(2)]) (rule merged_into_apart [OF m c(2) clear])
  moreover have "virt_inv (ents(i := ?b))" by (rule virt_write [OF c(3)]) (simp add: F(8))
  moreover have "fresh_ids (ents(i := ?b)) n"
    by (rule fresh_write [OF c(4)]) (use c(4) used M(5) F(6) in \<open>simp add: fresh_ids_def\<close>)
  ultimately show "entries_ok (ents(i := ?b)) n" by (simp add: entries_ok_def)
  have st: "b_status request \<noteq> RELEASED" using M(2) by (auto simp: merge_compatible_def block_active_def)
  have vi: "phys_view ents a = Some (attr request)" if "covers_addr (ents i) a" for a
    using phys_view_Some [OF c(2)] M(1,3) that by blast
  have "phys_view (ents(i := ?b)) a = paint (b_phys_base request) (b_phys_len request) (shade request) (phys_view ents) a" for a
    unfolding view_write [OF c(2) d M(5)] using F(1,2) F(3) [of a] vi [of a] st by (auto simp: paint_def shade_def)
  then show "phys_view (ents(i := ?b)) = paint (b_phys_base request) (b_phys_len request) (shade request) (phys_view ents)" ..
qed

lemma merge_write:
  assumes inv: "cat_inv T" and m: "mate (entries T) request i" and fin: "block_end request \<le> U64_MAX"
    and clear: "clear_range (entries T) (b_phys_base request) (block_end request)"
  shows "\<exists>T'. block_replace i (merged_into (entries T i) request) T = Some T' \<and> cat_inv T'
     \<and> entries T' = (entries T)(i := merged_into (entries T i) request)
     \<and> bt_next_id T' = bt_next_id T \<and> initialized T' = initialized T
     \<and> phys_view (entries T') = paint (b_phys_base request) (b_phys_len request) (shade request) (phys_view (entries T))"
proof -
  let ?e = "entries T"
  have c: "idx_inv T" "entries_ok ?e (bt_next_id T)" using inv by (auto simp: cat_inv_entries)
  note M = mateD [OF m] and F = merged_into_facts [OF m]
  have new: "new_id ?e i (merged_into (?e i) request)"
    by (rule same_id_new [OF idx_inv_unique [OF c(1)] M(5)]) (use M(6) F(6,7) in \<open>auto simp: block_active_def\<close>)
  show ?thesis using replace_ok [OF inv M(5) new] merge_entries [OF c(2) m fin clear] by fastforce
qed

lemma merged_left:
  "block_end b = b_phys_base r \<Longrightarrow> b\<lparr>b_phys_len := b_phys_len b + b_phys_len r, b_reserved := b_reserved b + b_reserved r,
     b_committed := b_committed b + b_committed r\<rparr> = merged_into b r"
  by (cases b) (simp add: merged_into_def block_end_def)

lemma merged_right:
  "block_end r = b_phys_base b \<Longrightarrow> b\<lparr>b_phys_base := b_phys_base r, b_phys_len := b_phys_len b + b_phys_len r,
     b_reserved := b_reserved b + b_reserved r, b_committed := b_committed b + b_committed r\<rparr> = merged_into b r"
  by (cases b) (auto simp: merged_into_def block_end_def)

lemma merge_ends:
  assumes inv: "cat_inv T" and m: "mate (entries T) request i" and fin: "block_end request \<le> U64_MAX"
  shows "checked_add64 (b_phys_base (entries T i)) (b_phys_len (entries T i)) = Some (block_end (entries T i))"
    "checked_add64 (b_phys_base request) (b_phys_len request) = Some (block_end request)"
    "checked_add64 (b_phys_len (entries T i)) (b_phys_len request) = Some (b_phys_len (entries T i) + b_phys_len request)"
proof -
  note M = mateD [OF m]
  have "block_end (entries T i) \<le> U64_MAX" using inv M(1) by (simp add: cat_inv_def fits_def phys_slot_def)
  then show "checked_add64 (b_phys_base (entries T i)) (b_phys_len (entries T i)) = Some (block_end (entries T i))"
    "checked_add64 (b_phys_base request) (b_phys_len request) = Some (block_end request)"
    "checked_add64 (b_phys_len (entries T i)) (b_phys_len request) = Some (b_phys_len (entries T i) + b_phys_len request)"
    using fin M(8) by (auto simp: checked_add64_def block_end_def)
qed

lemma merged_shape:
  assumes "block_end b = b_phys_base request \<or> b_phys_base b = block_end request"
  shows "(if block_end b = b_phys_base request then Some (b\<lparr>b_phys_len := b_phys_len b + b_phys_len request\<rparr>)
       else if block_end request = b_phys_base b
       then Some (b\<lparr>b_phys_base := b_phys_base request, b_phys_len := b_phys_len b + b_phys_len request\<rparr>) else None)
       \<bind> (\<lambda>b1. f (b1\<lparr>b_reserved := b_reserved b + b_reserved request, b_committed := b_committed b + b_committed request\<rparr>))
     = f (merged_into b request)"
proof (cases "block_end b = b_phys_base request")
  case True
  then show ?thesis by (simp only: if_True simp_thms Option.bind.bind_lunit merged_left)
next
  case False
  then have "block_end request = b_phys_base b" using assms by simp
  then show ?thesis using False by (simp only: if_False if_True simp_thms Option.bind.bind_lunit merged_right)
qed

lemma add_or_merge_join:
  assumes inv: "cat_inv T" and fin: "block_end request \<le> U64_MAX"
    and clear: "clear_range (entries T) (b_phys_base request) (block_end request)"
    and pick: "merge_pick (entries T) request = Some i"
    and bytes: "b_reserved (entries T i) + b_reserved request \<le> U64_MAX" "b_committed (entries T i) + b_committed request \<le> U64_MAX"
  shows "\<exists>T'. add_or_merge request T = Some (Inr (b_id (entries T i)), T') \<and> cat_inv T'
     \<and> entries T' = (entries T)(i := merged_into (entries T i) request) \<and> bt_next_id T' = bt_next_id T \<and> initialized T' = initialized T
     \<and> phys_view (entries T') = paint (b_phys_base request) (b_phys_len request) (shade request) (phys_view (entries T))"
proof -
  let ?e = "entries T"
  obtain T1 where 1: "merge_slot request T = Some (Inr (Some i), T1)" "still T T1" using merge_slot_ok [OF inv fin] pick by auto
  note c1 = stillD(6) [OF 1(2) inv] and e1 = stillD(1) [OF 1(2)]
  have m: "mate ?e request i" using merge_pick_Some [OF pick] by (simp add: mate_def)
  note M = mateD [OF m] and ce = merge_ends [OF inv m fin]
  have rc: "checked_add64 (b_reserved (?e i)) (b_reserved request) = Some (b_reserved (?e i) + b_reserved request)"
    "checked_add64 (b_committed (?e i)) (b_committed request) = Some (b_committed (?e i) + b_committed request)"
    using bytes by (auto simp: checked_add64_def)
  obtain T' where T': "block_replace i (merged_into (?e i) request) T1 = Some T'" "cat_inv T'"
     "entries T' = ?e(i := merged_into (?e i) request)" "bt_next_id T' = bt_next_id T1" "initialized T' = initialized T1"
     "phys_view (entries T') = paint (b_phys_base request) (b_phys_len request) (shade request) (phys_view ?e)"
    using merge_write [OF c1, unfolded e1, OF m fin clear] by blast
  have "add_or_merge request T = Some (Inr (b_id (?e i)), T')"
    unfolding add_or_merge_def 1(1) andthen_simps option.case e1 index_get_in [OF M(5)] Option.bind.bind_lunit ce rc ok_or_def
    unfolding bind_assoc [symmetric] merged_shape [OF M(8), of "\<lambda>b. block_replace i b T1"] T'(1) by (simp add: ok_def)
  then show ?thesis using T' stillD(2,3) [OF 1(2)] by simp
qed

lemma add_or_merge_ok:
  assumes inv: "cat_inv T" and fin: "block_end request \<le> U64_MAX"
    and clear: "clear_range (entries T) (b_phys_base request) (block_end request)"
  shows "\<exists>r T'. add_or_merge request T = Some (r, T') \<and> cat_inv T'
     \<and> (case r of Inl _ \<Rightarrow> soft T T'
        | Inr ident \<Rightarrow> (\<exists>i e. placed_in T request i \<and> entries T' = (entries T)(i := e)) \<and> initialized T' = initialized T
          \<and> phys_view (entries T') = paint (b_phys_base request) (b_phys_len request) (shade request) (phys_view (entries T)))"
proof -
  let ?e = "entries T"
  obtain T1 where 1: "merge_slot request T = Some (Inr (merge_pick ?e request), T1)" "still T T1"
    using merge_slot_ok [OF inv fin] by blast
  note c1 = stillD(6) [OF 1(2) inv] and e1 = stillD(1) [OF 1(2)]
  show ?thesis
  proof (cases "merge_pick ?e request")
    case None
    obtain r T' where r: "block_register request T1 = Some (r, T')" "cat_inv T'"
       "case r of Inl _ \<Rightarrow> soft T1 T' | Inr ident \<Rightarrow> registered request T1 ident T'"
      using block_register_ok [OF c1] by blast
    have run: "add_or_merge request T = Some (r, T')" using 1(1) None r(1) by (simp add: add_or_merge_def)
    show ?thesis
    proof (cases r)
      case (Inl e)
      then show ?thesis using run r stillD(7) [OF 1(2)] soft_trans by auto
    next
      case (Inr ident)
      then have reg: "registered request T1 ident T'" using r(3) by simp
      have "phys_view (entries T') = paint (b_phys_base request) (b_phys_len request) (shade request) (phys_view ?e)"
        using registered_view [OF c1 r(2) reg] clear e1 by simp
      moreover obtain s where "slot_pick T1 = Some s" "s < MAX_BLOCKS" "entries T' = ?e(s := block_entry request ident)"
        using reg e1 by (auto simp: registered_def)
      moreover have "initialized T' = initialized T" using reg stillD(3) [OF 1(2)] by (simp add: registered_def)
      ultimately show ?thesis using run r(2) Inr None slot_pick_still [OF 1(2)] by (auto simp: placed_in_def)
    qed
  next
    case (Some i)
    have m: "mate ?e request i" using merge_pick_Some [OF Some] by (simp add: mate_def)
    note M = mateD [OF m]
    show ?thesis
    proof (cases "b_reserved (?e i) + b_reserved request \<le> U64_MAX \<and> b_committed (?e i) + b_committed request \<le> U64_MAX")
      case True
      then show ?thesis using add_or_merge_join [OF inv fin clear Some] M(5) Some by (auto simp: placed_in_def)
    next
      case False
      let ?r = "checked_add64 (b_reserved (?e i)) (b_reserved request)" and ?c = "checked_add64 (b_committed (?e i)) (b_committed request)"
      have "?r = None \<or> ?c = None" using False by (auto simp: checked_add64_def)
      then have "add_or_merge request T = Some (Inl Overflow, T1)"
        using 1(1) Some M(5) merge_ends [OF inv m fin] e1 by (cases ?r) (auto simp: add_or_merge_def ok_or_def err_def)
      then show ?thesis using c1 stillD(7) [OF 1(2)] by simp
    qed
  qed
qed

end
