(* ===== verification/Block_Journal.thy ===== *)
theory Block_Journal
  imports Block_Merge
begin

text \<open>
  The undo journal: steps that remember the slots they write, so that a failed split puts every entry
  back, and the steps that split one block around a range.
\<close>

section \<open>The undo journal\<close>

text \<open>\<open>journalled T0 J T\<close>: the images of \<open>J\<close> are the entries of \<open>T0\<close> in every slot where \<open>T\<close> differs from it.\<close>

definition journalled :: "block_table \<Rightarrow> journal \<Rightarrow> block_table \<Rightarrow> bool" where
  "journalled T0 J T \<longleftrightarrow> distinct (map fst (images J)) \<and> (\<forall>p \<in> set (images J). fst p < MAX_BLOCKS \<and> snd p = entries T0 (fst p))
     \<and> (\<forall>i. i \<notin> fst ` set (images J) \<longrightarrow> entries T i = entries T0 i) \<and> j_next_id J = bt_next_id T0"

text \<open>
  \<open>jres\<close>: a step from \<open>(J, T)\<close> does not panic, keeps the catalogue and the journal in order, uses at
  most \<open>k\<close> more images, and on success leaves the view \<open>V\<close>.
\<close>

definition jres :: "block_table \<Rightarrow> nat \<Rightarrow> (nat \<Rightarrow> block_attr option) \<Rightarrow> journal \<times> block_table
   \<Rightarrow> ('a, journal \<times> block_table) effect \<Rightarrow> bool" where
  "jres T0 k V s res \<longleftrightarrow> (\<exists>r J' T'. res = Some (r, (J', T')) \<and> cat_inv T' \<and> journalled T0 J' T'
     \<and> length (images J') \<le> length (images (fst s)) + k \<and> initialized T' = initialized (snd s)
     \<and> (case r of Inl _ \<Rightarrow> True | Inr _ \<Rightarrow> phys_view (entries T') = V))"

definition free_attr :: block_attr where
  "free_attr = (FREE_KIND, SYSTEM, 0, FREE, ''free'')"

text \<open>
  Splitting: the block \<open>[lo, hi)\<close> is blanked, its part before the request is painted again, the request
  and the part after it follow. The view ends as the old one with the request painted over it.
\<close>

definition split_steps :: "block \<Rightarrow> block \<Rightarrow> block \<Rightarrow> nat \<Rightarrow> nat \<Rightarrow> journal \<times> block_table \<Rightarrow> (nat, journal \<times> block_table) effect" where
  "split_steps low request high n m s =
     andthen (when_step (n \<noteq> 0) (journal_part low) s) (\<lambda>_ s3.
     andthen (journal_place request s3) (\<lambda>ident s4.
     andthen (when_step (m \<noteq> 0) (journal_part high) s4) (\<lambda>_ s5. ok ident s5)))"

text \<open>What a failed split leaves: the journal's images put the catalogue back.\<close>

definition restored :: "block_table \<Rightarrow> block_table \<Rightarrow> bool" where
  "restored T T' \<longleftrightarrow> cat_inv T' \<and> entries T' = entries T \<and> bt_next_id T' = bt_next_id T \<and> initialized T' = initialized T"

definition claimed :: "block \<Rightarrow> block_attr" where
  "claimed request = (b_kind request, b_owner request, b_owner_id request, COMMITTED, b_name request)"

lemma journalled_soft: "journalled T0 J T \<Longrightarrow> entries T' = entries T \<Longrightarrow> journalled T0 J T'"
  by (simp add: journalled_def)

lemma journalled_write:
  "journalled T0 J T \<Longrightarrow> entries T' = (entries T)(i := e) \<Longrightarrow> i \<in> fst ` set (images J) \<Longrightarrow> journalled T0 J T'"
  by (simp add: journalled_def)

lemma remember_ok:
  assumes j: "journalled T0 J T" and i: "i < MAX_BLOCKS" and room: "length (images J) < 4"
  shows "\<exists>J'. remember i (J, T) = Some (Inr (), (J', T)) \<and> journalled T0 J' T \<and> i \<in> fst ` set (images J')
     \<and> length (images J') \<le> length (images J) + 1"
proof (cases "i \<in> set (map fst (images J))")
  case True
  then have "remember i (J, T) = Some (Inr (), (J, T))" "i \<in> fst ` set (images J)" by (auto simp: remember_def ok_def)
  then show ?thesis using j by auto
next
  case False
  let ?J = "J\<lparr>images := images J @ [(i, entries T i)]\<rparr>"
  have "remember i (J, T) = Some (Inr (), (?J, T))" using False i room by (auto simp: remember_def ok_def)
  moreover have "entries T i = entries T0 i" using False j by (simp add: journalled_def)
  then have "journalled T0 ?J T" using j False i by (auto simp: journalled_def)
  ultimately show ?thesis by auto
qed

lemma restore_images_ok:
  assumes "\<forall>p \<in> set ps. fst p < MAX_BLOCKS \<and> snd p = ents0 (fst p)"
  shows "restore_images ps T = Some (T\<lparr>entries := (\<lambda>i. if i \<in> fst ` set ps then ents0 i else entries T i)\<rparr>)"
  using assms
proof (induction ps arbitrary: T)
  case (Cons p ps)
  let ?T = "T\<lparr>entries := (entries T)(fst p := snd p)\<rparr>"
  have "restore_images (p # ps) T = restore_images ps ?T" using Cons.prems by simp
  also have "\<dots> = Some (?T\<lparr>entries := (\<lambda>i. if i \<in> fst ` set ps then ents0 i else entries ?T i)\<rparr>)"
    by (rule Cons.IH) (use Cons.prems in auto)
  finally have run: "restore_images (p # ps) T = Some (T\<lparr>entries := (\<lambda>i. if i \<in> fst ` set ps then ents0 i else ((entries T)(fst p := snd p)) i)\<rparr>)"
    by (simp del: restore_images.simps cong: if_cong)
  have "(\<lambda>i. if i \<in> fst ` set ps then ents0 i else ((entries T)(fst p := snd p)) i) = (\<lambda>i. if i \<in> fst ` set (p # ps) then ents0 i else entries T i)"
    using Cons.prems by (auto simp: fun_eq_iff)
  then show ?case using run by simp
qed simp

lemma rollback_ok:
  assumes inv0: "cat_inv T0" and j: "journalled T0 J T" and low: "low_steps T"
  shows "\<exists>T'. rollback J T = Some T' \<and> cat_inv T' \<and> entries T' = entries T0 \<and> bt_next_id T' = bt_next_id T0
     \<and> initialized T' = initialized T"
proof -
  have "restore_images (rev (images J)) T = Some (T\<lparr>entries := entries T0\<rparr>)"
  proof -
    have "(\<lambda>i. if i \<in> fst ` set (rev (images J)) then entries T0 i else entries T i) = entries T0"
      using j by (auto simp: journalled_def fun_eq_iff)
    then show ?thesis using restore_images_ok [of "rev (images J)" "entries T0" T] j by (simp add: journalled_def)
  qed
  moreover have "unique_ids (entries T0)" using inv0 idx_inv_unique by (simp add: cat_inv_def)
  then obtain T' where "block_rebuild (T\<lparr>entries := entries T0, bt_next_id := j_next_id J\<rparr>) = Some T'" "idx_inv T'"
     "entries T' = entries T0" "bt_next_id T' = j_next_id J" "initialized T' = initialized T"
    using block_rebuild_ok [of "T\<lparr>entries := entries T0, bt_next_id := j_next_id J\<rparr>"] low by (auto simp: low_steps_def)
  moreover have "j_next_id J = bt_next_id T0" using j by (simp add: journalled_def)
  ultimately show ?thesis using inv0 by (auto simp: rollback_def cat_inv_def)
qed

section \<open>Journalled steps\<close>

lemma jres_andthen:
  assumes "jres T0 k V s res"
    and "\<And>v J' T'. cat_inv T' \<Longrightarrow> journalled T0 J' T' \<Longrightarrow> length (images J') \<le> length (images (fst s)) + k
       \<Longrightarrow> phys_view (entries T') = V \<Longrightarrow> jres T0 k' V' (J', T') (f v (J', T'))"
  shows "jres T0 (k + k') V' s (andthen res f)"
proof -
  obtain r J' T' where r: "res = Some (r, (J', T'))" "cat_inv T'" "journalled T0 J' T'"
     "length (images J') \<le> length (images (fst s)) + k" "initialized T' = initialized (snd s)"
     "case r of Inl _ \<Rightarrow> True | Inr _ \<Rightarrow> phys_view (entries T') = V" using assms(1) by (auto simp: jres_def)
  show ?thesis
  proof (cases r)
    case (Inl e)
    then show ?thesis using r by (auto simp: jres_def)
  next
    case (Inr v)
    then have "jres T0 k' V' (J', T') (f v (J', T'))" using assms(2) r by simp
    then show ?thesis using Inr r by (auto simp: jres_def)
  qed
qed

lemma jres_weaken: "jres T0 k V s res \<Longrightarrow> k \<le> k' \<Longrightarrow> jres T0 k' V s res"
  by (auto simp: jres_def)

lemma clear_view:
  assumes "disjoint_blocks ents" and "base < fin" and "\<And>a. base \<le> a \<Longrightarrow> a < fin \<Longrightarrow> phys_view ents a = None"
  shows "clear_range ents base fin"
  unfolding clear_range_def
proof (intro allI impI)
  fix i assume i: "phys_slot ents i"
  then have pos: "b_phys_len (ents i) \<noteq> 0" by (simp add: phys_slot_def physical_index_def)
  show "block_end (ents i) \<le> base \<or> fin \<le> b_phys_base (ents i)"
  proof (rule ccontr)
    assume n: "\<not> ?thesis"
    let ?a = "max base (b_phys_base (ents i))"
    have "covers_addr (ents i) ?a" using n pos by (auto simp: covers_addr_def block_end_def)
    moreover have "phys_view ents ?a = None" using assms(2,3) n by simp
    ultimately show False using i by (auto simp: phys_view_None)
  qed
qed

lemma journal_part_ok:
  assumes inv: "cat_inv T" and j: "journalled T0 J T" and room: "length (images J) < 4"
    and len: "b_phys_len request \<noteq> 0"
    and none: "\<And>a. b_phys_base request \<le> a \<Longrightarrow> a < block_end request \<Longrightarrow> phys_view (entries T) a = None"
  shows "jres T0 1 (paint (b_phys_base request) (b_phys_len request) (shade request) (phys_view (entries T))) (J, T)
     (journal_part request (J, T))"
proof -
  let ?V = "paint (b_phys_base request) (b_phys_len request) (shade request) (phys_view (entries T))"
  have i: "idx_inv T" using inv by (simp add: cat_inv_def)
  obtain T1 where 1: "free_slot_or_full T = Some (case slot_pick T of None \<Rightarrow> Inl TableFull | Some s \<Rightarrow> Inr s, T1)" "soft T T1"
     "case slot_pick T of Some s \<Rightarrow> s < MAX_BLOCKS \<and> reusable_entry (entries T s) \<and> slot_pick T1 = Some s | None \<Rightarrow> True"
    using free_slot_or_full_ok [OF i] by blast
  note c1 = softD(6) [OF 1(2) inv] and e1 = softD(1) [OF 1(2)] and n1 = softD(3) [OF 1(2)]
  have j1: "journalled T0 J T1" using journalled_soft [OF j e1] .
  show ?thesis
  proof (cases "slot_pick T")
    case None
    then have "journal_part request (J, T) = Some (Inl TableFull, (J, T1))" using 1(1) by (simp add: journal_part_def on_table_def)
    then show ?thesis using c1 j1 n1 by (simp add: jres_def)
  next
    case (Some s)
    have s: "s < MAX_BLOCKS" "slot_pick T1 = Some s" using 1(3) Some by auto
    obtain J1 where J1: "remember s (J, T1) = Some (Inr (), (J1, T1))" "journalled T0 J1 T1" "s \<in> fst ` set (images J1)"
       "length (images J1) \<le> length (images J) + 1" using remember_ok [OF j1 s(1) room] by blast
    obtain r T' where r: "block_register request T1 = Some (r, T')" "cat_inv T'"
       "case r of Inl _ \<Rightarrow> soft T1 T' | Inr ident \<Rightarrow> registered request T1 ident T'"
      using block_register_ok [OF c1] by blast
    have run: "journal_part request (J, T) = Some (case r of Inl e \<Rightarrow> Inl e | Inr _ \<Rightarrow> Inr (), (J1, T'))"
      using 1(1) Some J1(1) r(1) by (cases r) (simp_all add: journal_part_def on_table_def ok_def)
    show ?thesis
    proof (cases r)
      case (Inl e)
      then have "soft T1 T'" using r(3) by simp
      then show ?thesis using Inl run r(2) J1 journalled_soft [OF J1(2)] softD(1,3) [of T1 T'] n1 by (auto simp: jres_def)
    next
      case (Inr ident)
      then have reg: "registered request T1 ident T'" using r(3) by simp
      have "clear_range (entries T1) (b_phys_base request) (block_end request)"
        using clear_view [of "entries T1" "b_phys_base request" "block_end request"] none len c1 e1
        by (simp add: cat_inv_def block_end_def)
      then have v: "phys_view (entries T') = ?V" using registered_view [OF c1 r(2) reg] e1 by simp
      have w: "entries T' = (entries T1)(s := block_entry request ident)" "initialized T' = initialized T1"
        using reg s(2) by (auto simp: registered_def)
      then show ?thesis using Inr run r(2) J1 journalled_write [OF J1(2) w(1) J1(3)] v n1 by (simp add: jres_def)
    qed
  qed
qed

lemma journal_place_ok:
  assumes inv: "cat_inv T" and j: "journalled T0 J T" and room: "length (images J) < 4"
    and len: "b_phys_len request \<noteq> 0" and fin: "block_end request \<le> U64_MAX"
    and none: "\<And>a. b_phys_base request \<le> a \<Longrightarrow> a < block_end request \<Longrightarrow> phys_view (entries T) a = None"
  shows "jres T0 1 (paint (b_phys_base request) (b_phys_len request) (shade request) (phys_view (entries T))) (J, T)
     (journal_place request (J, T))"
proof -
  let ?V = "paint (b_phys_base request) (b_phys_len request) (shade request) (phys_view (entries T))" and ?e = "entries T"
  obtain T1 where 1: "merge_slot request T = Some (Inr (merge_pick ?e request), T1)" "still T T1" using merge_slot_ok [OF inv fin] by blast
  note c1 = stillD(6) [OF 1(2) inv] and e1 = stillD(1) [OF 1(2)] and n1 = stillD(3) [OF 1(2)]
  have finish: "jres T0 1 ?V (J, T) (andthen (remember i (J, T2)) (\<lambda>_ s3. on_table (add_or_merge request) s3))"
    if c2: "cat_inv T2" and e2: "entries T2 = ?e" and n2: "initialized T2 = initialized T" and i: "i < MAX_BLOCKS"
      and pick: "\<And>i'. placed_in T2 request i' \<Longrightarrow> i' = i" for i T2
  proof -
    obtain J1 where J1: "remember i (J, T2) = Some (Inr (), (J1, T2))" "journalled T0 J1 T2" "i \<in> fst ` set (images J1)"
       "length (images J1) \<le> length (images J) + 1" using remember_ok [OF journalled_soft [OF j e2] i room] by blast
    have clear: "clear_range (entries T2) (b_phys_base request) (block_end request)"
      using clear_view [of "entries T2" "b_phys_base request" "block_end request"] none len c2 e2 by (simp add: cat_inv_def block_end_def)
    obtain r T' where r: "add_or_merge request T2 = Some (r, T')" "cat_inv T'"
       "case r of Inl _ \<Rightarrow> soft T2 T'
        | Inr ident \<Rightarrow> (\<exists>i e. placed_in T2 request i \<and> entries T' = (entries T2)(i := e)) \<and> initialized T' = initialized T2
          \<and> phys_view (entries T') = paint (b_phys_base request) (b_phys_len request) (shade request) (phys_view (entries T2))"
      using add_or_merge_ok [OF c2 fin clear] by blast
    have run: "andthen (remember i (J, T2)) (\<lambda>_ s3. on_table (add_or_merge request) s3) = Some (r, (J1, T'))"
      using J1(1) r(1) by (simp add: on_table_def)
    show ?thesis
    proof (cases r)
      case (Inl e)
      then have "soft T2 T'" using r(3) by simp
      then show ?thesis using run Inl r(2) J1 journalled_soft [OF J1(2)] softD(1,3) [of T2 T'] n2 by (auto simp: jres_def)
    next
      case (Inr ident)
      then obtain i' e where i': "placed_in T2 request i'" "entries T' = (entries T2)(i' := e)" "initialized T' = initialized T2"
          "phys_view (entries T') = ?V" using r(3) e2 by auto
      then have "journalled T0 J1 T'" using journalled_write [OF J1(2)] pick [OF i'(1)] J1(3) by simp
      then show ?thesis using run Inr r(2) J1(4) i' n2 by (simp add: jres_def)
    qed
  qed
  show ?thesis
  proof (cases "merge_pick ?e request")
    case (Some i)
    have "i < MAX_BLOCKS" using merge_pick_Some [OF Some] mateD(5) [of ?e request i] by (simp add: mate_def)
    then have "jres T0 1 ?V (J, T) (andthen (remember i (J, T1)) (\<lambda>_ s3. on_table (add_or_merge request) s3))"
      using finish [OF c1 e1 n1] Some e1 by (simp add: placed_in_def)
    then show ?thesis using 1(1) Some by (simp add: journal_place_def on_table_def)
  next
    case None
    have i1: "idx_inv T1" using c1 by (simp add: cat_inv_def)
    obtain T2 where 2: "free_slot_or_full T1 = Some (case slot_pick T1 of None \<Rightarrow> Inl TableFull | Some s \<Rightarrow> Inr s, T2)" "soft T1 T2"
       "case slot_pick T1 of Some s \<Rightarrow> s < MAX_BLOCKS \<and> reusable_entry (entries T1 s) \<and> slot_pick T2 = Some s | None \<Rightarrow> True"
      using free_slot_or_full_ok [OF i1] by blast
    have c2: "cat_inv T2" and e2: "entries T2 = ?e" and n2: "initialized T2 = initialized T"
      using softD(1,3,6) [OF 2(2)] c1 e1 n1 by auto
    show ?thesis
    proof (cases "slot_pick T1")
      case p: None
      then have "journal_place request (J, T) = Some (Inl TableFull, (J, T2))" using 1(1) 2(1) None by (simp add: journal_place_def on_table_def)
      then show ?thesis using c2 n2 journalled_soft [OF j e2] by (simp add: jres_def)
    next
      case p: (Some s)
      have s: "s < MAX_BLOCKS" "slot_pick T2 = Some s" using 2(3) p by auto
      have "i' = s" if "placed_in T2 request i'" for i' using that s(2) None e2 by (simp add: placed_in_def)
      then have "jres T0 1 ?V (J, T) (andthen (remember s (J, T2)) (\<lambda>_ s3. on_table (add_or_merge request) s3))"
        using finish [OF c2 e2 n2 s(1)] by blast
      then show ?thesis using 1(1) 2(1) None p by (simp add: journal_place_def on_table_def)
    qed
  qed
qed

section \<open>Claims\<close>

lemma canonical_attr: "canonical_free b \<Longrightarrow> attr b = free_attr"
  by (simp add: canonical_free_def attr_def free_attr_def)

lemma free_request_facts:
  "b_phys_base (free_request base len) = base" "b_phys_len (free_request base len) = len"
  "shade (free_request base len) = Some free_attr" "block_end (free_request base len) = base + len"
  by (auto simp: free_request_def block_physical_def REQUEST_def shade_def attr_def free_attr_def block_end_def FREE_def RELEASED_def)

lemma part_request_facts:
  "b_phys_base (part_request b base len) = base" "b_phys_len (part_request b base len) = len"
  "shade (part_request b base len) = shade b" "block_end (part_request b base len) = base + len"
  by (auto simp: part_request_def shade_def attr_def block_end_def)

lemma when_part_ok:
  assumes inv: "cat_inv T" and j: "journalled T0 J T" and room: "length (images J) < 4" and len: "b_phys_len request = n"
    and none: "\<And>a. b_phys_base request \<le> a \<Longrightarrow> a < block_end request \<Longrightarrow> phys_view (entries T) a = None"
  shows "jres T0 1 (paint (b_phys_base request) n (shade request) (phys_view (entries T))) (J, T) (when_step (n \<noteq> 0) (journal_part request) (J, T))"
proof (cases "n = 0")
  case True
  then show ?thesis using inv j by (auto simp: when_step_def jres_def ok_def paint_def fun_eq_iff)
next
  case False
  then show ?thesis using journal_part_ok [OF inv j room, of request] none len by (simp add: when_step_def)
qed

lemma split_steps_ok:
  assumes inv: "cat_inv T" and j: "journalled T0 J T" and room: "length (images J) \<le> 1"
    and low: "b_phys_base low = lo" "b_phys_len low = n" and high: "b_phys_base high = base + len" "b_phys_len high = m"
    and req: "b_phys_base request = base" "b_phys_len request = len" "len \<noteq> 0"
    and geo: "lo + n = base" "base + len + m = hi" "hi \<le> U64_MAX"
    and none: "\<And>a. lo \<le> a \<Longrightarrow> a < hi \<Longrightarrow> phys_view (entries T) a = None"
  shows "jres T0 3 (\<lambda>a. if lo \<le> a \<and> a < base then shade low else if base \<le> a \<and> a < base + len then shade request
       else if base + len \<le> a \<and> a < hi then shade high else phys_view (entries T) a) (J, T) (split_steps low request high n m (J, T))"
proof -
  let ?V = "phys_view (entries T)"
  have ends: "block_end low = base" "block_end request = base + len" "block_end high = hi" using low high req geo by (auto simp: block_end_def)
  have s1: "jres T0 1 (paint lo n (shade low) ?V) (J, T) (when_step (n \<noteq> 0) (journal_part low) (J, T))"
    using when_part_ok [OF inv j _ low(2)] room none low(1) ends(1) geo by simp
  have s2: "jres T0 (1 + 1) (paint (base + len) m (shade high) (paint base len (shade request) (paint lo n (shade low) ?V))) (J2, T2)
      (andthen (journal_place request (J2, T2)) (\<lambda>ident s4. andthen (when_step (m \<noteq> 0) (journal_part high) s4) (\<lambda>_ s5. ok ident s5)))"
    if a: "cat_inv T2" "journalled T0 J2 T2" "length (images J2) \<le> 2" "phys_view (entries T2) = paint lo n (shade low) ?V" for J2 T2
  proof (rule jres_andthen)
    show "jres T0 1 (paint base len (shade request) (paint lo n (shade low) ?V)) (J2, T2) (journal_place request (J2, T2))"
      using journal_place_ok [OF a(1,2), of request] a(3,4) req ends(2) geo none by (simp add: paint_def)
    fix ident J3 T3
    assume b: "cat_inv T3" "journalled T0 J3 T3" "length (images J3) \<le> length (images (fst (J2, T2))) + 1"
      "phys_view (entries T3) = paint base len (shade request) (paint lo n (shade low) ?V)"
    have "jres T0 1 (paint (base + len) m (shade high) (phys_view (entries T3))) (J3, T3) (when_step (m \<noteq> 0) (journal_part high) (J3, T3))"
      using when_part_ok [OF b(1,2) _ high(2)] b(3,4) a(3) high(1) ends(3) geo none by (simp add: paint_def)
    then have "jres T0 (1 + 0) (paint (base + len) m (shade high) (phys_view (entries T3))) (J3, T3)
        (andthen (when_step (m \<noteq> 0) (journal_part high) (J3, T3)) (\<lambda>_ s5. ok ident s5))"
      by (rule jres_andthen) (simp add: jres_def ok_def)
    then show "jres T0 1 (paint (base + len) m (shade high) (paint base len (shade request) (paint lo n (shade low) ?V))) (J3, T3)
        (andthen (when_step (m \<noteq> 0) (journal_part high) (J3, T3)) (\<lambda>_ s5. ok ident s5))"
      using b(4) by simp
  qed
  have "jres T0 (1 + 2) (paint (base + len) m (shade high) (paint base len (shade request) (paint lo n (shade low) ?V))) (J, T)
      (split_steps low request high n m (J, T))"
    unfolding split_steps_def by (rule jres_andthen [OF s1]) (use s2 room in \<open>simp add: numeral_2_eq_2\<close>)
  moreover have "paint (base + len) m (shade high) (paint base len (shade request) (paint lo n (shade low) ?V)) =
     (\<lambda>a. if lo \<le> a \<and> a < base then shade low else if base \<le> a \<and> a < base + len then shade request
       else if base + len \<le> a \<and> a < hi then shade high else ?V a)"
    using geo by (auto simp: paint_def fun_eq_iff)
  ultimately show ?thesis by (simp add: numeral_3_eq_3)
qed

text \<open>Starting a split: the block found is remembered and released, which blanks its range.\<close>

lemma split_start:
  assumes inv: "cat_inv T" and i: "phys_slot (entries T) i"
  shows "\<exists>J1 T2. remember i (\<lparr>images = [], j_next_id = bt_next_id T\<rparr>, T) = Some (Inr (), (J1, T))
     \<and> block_replace i (released (entries T i)) T = Some T2 \<and> cat_inv T2 \<and> journalled T J1 T2 \<and> length (images J1) \<le> 1
     \<and> initialized T2 = initialized T
     \<and> phys_view (entries T2) = (\<lambda>a. if covers_addr (entries T i) a then None else phys_view (entries T) a)"
proof -
  have lt: "i < MAX_BLOCKS" using i by (simp add: phys_slot_def)
  have j0: "journalled T \<lparr>images = [], j_next_id = bt_next_id T\<rparr> T" by (simp add: journalled_def)
  obtain J1 where J1: "remember i (\<lparr>images = [], j_next_id = bt_next_id T\<rparr>, T) = Some (Inr (), (J1, T))" "journalled T J1 T"
     "i \<in> fst ` set (images J1)" "length (images J1) \<le> 1"
    using remember_ok [OF j0 lt] by auto
  obtain T2 where T2: "block_replace i (released (entries T i)) T = Some T2" "cat_inv T2"
     "entries T2 = (entries T)(i := released (entries T i))" "initialized T2 = initialized T"
     "phys_view (entries T2) = (\<lambda>a. if phys_slot (entries T) i \<and> covers_addr (entries T i) a then None else phys_view (entries T) a)"
    using release_write [OF inv lt] by blast
  show ?thesis using J1 T2 journalled_write [OF J1(2) T2(3) J1(3)] i by auto
qed

lemma phys_slot_ends:
  assumes "cat_inv T" and "phys_slot (entries T) i"
  shows "block_end (entries T i) \<le> U64_MAX" "checked_add64 (b_phys_base (entries T i)) (b_phys_len (entries T i)) = Some (block_end (entries T i))"
  using assms by (auto simp: cat_inv_def fits_def phys_slot_def checked_add64_def block_end_def)

lemma view_at:
  assumes "cat_inv T" and "phys_slot (entries T) i" and "covers_addr (entries T i) a"
  shows "phys_view (entries T) a = Some (attr (entries T i))"
  using assms phys_view_Some [of "entries T"] by (auto simp: cat_inv_def)

lemma sub_unsigned_split: "b \<le> a \<Longrightarrow> \<exists>n. sub_unsigned a b = Some n \<and> b + n = a"
  by (simp add: sub_unsigned_def)

lemma restored_still: "still T T' \<Longrightarrow> cat_inv T \<Longrightarrow> restored T T'"
  using stillD [of T T'] by (simp add: restored_def)

lemma low_steps_inv: "cat_inv T \<Longrightarrow> low_steps T"
  by (simp add: cat_inv_def idx_inv_def part_inv_def)

text \<open>The end of a split: the result passes through, an error takes the undo path.\<close>

lemma split_finish:
  assumes inv: "cat_inv T" and steps: "jres T k V s res" and s: "initialized (snd s) = initialized T"
    and undo: "\<And>e J T'. low_steps T' \<Longrightarrow> \<exists>T1. undo e J T' = do { T3 \<leftarrow> rollback J T1; err e T3 }
        \<and> entries T1 = entries T' \<and> initialized T1 = initialized T' \<and> low_steps T1"
  shows "\<exists>r T'. (do { (r, (J, T2)) \<leftarrow> res; (case r of Inr v \<Rightarrow> ok v T2 | Inl e \<Rightarrow> undo e J T2) }) = Some (r, T')
     \<and> cat_inv T' \<and> initialized T' = initialized T
     \<and> (case r of Inl _ \<Rightarrow> restored T T' | Inr _ \<Rightarrow> phys_view (entries T') = V)"
proof -
  obtain r J T2 where r: "res = Some (r, (J, T2))" "cat_inv T2" "journalled T J T2" "initialized T2 = initialized T"
     "case r of Inl _ \<Rightarrow> True | Inr _ \<Rightarrow> phys_view (entries T2) = V" using steps s by (auto simp: jres_def)
  show ?thesis
  proof (cases r)
    case (Inr v)
    then show ?thesis using r by (simp add: ok_def)
  next
    case (Inl e)
    obtain T1 where T1: "undo e J T2 = do { T3 \<leftarrow> rollback J T1; err e T3 }" "entries T1 = entries T2" "initialized T1 = initialized T2"
       "low_steps T1" using undo [OF low_steps_inv [OF r(2)]] by blast
    obtain T3 where T3: "rollback J T1 = Some T3" "cat_inv T3" "entries T3 = entries T" "bt_next_id T3 = bt_next_id T"
       "initialized T3 = initialized T1"
      using rollback_ok [OF inv journalled_soft [OF r(3) T1(2)] T1(4)] by blast
    then show ?thesis using Inl r T1 by (simp add: err_def restored_def)
  qed
qed

end
