(* ===== verification/Block_Coalesce.thy ===== *)
theory Block_Coalesce
  imports Block_Journal
begin

text \<open>
  Coalescing: the pass over the catalogue terminates, keeps the view of physical memory, and leaves no
  two blocks that could be merged.
\<close>

section \<open>Coalescing\<close>

definition settled :: "(nat \<Rightarrow> block) \<Rightarrow> nat \<Rightarrow> bool" where
  "settled ents i \<longleftrightarrow> (\<forall>j. phys_slot ents j \<longrightarrow> merged_block (ents i) (ents j) = None)"

definition later :: "(nat \<Rightarrow> block) \<Rightarrow> nat \<Rightarrow> nat set" where
  "later ents i = {j. phys_slot ents j \<and> before ents i j}"

definition coalesced :: "block_table \<Rightarrow> block_table \<Rightarrow> bool" where
  "coalesced T T' \<longleftrightarrow> cat_inv T' \<and> phys_view (entries T') = phys_view (entries T) \<and> bt_next_id T' = bt_next_id T
     \<and> initialized T' = initialized T \<and> (\<forall>i. phys_slot (entries T') i \<longrightarrow> settled (entries T') i)"

lemma finite_later [simp]: "finite (later ents i)"
  by (rule finite_subset [of _ "{..<MAX_BLOCKS}"]) (auto simp: later_def phys_slot_def)

lemma merged_block_Some:
  assumes "merged_block l r = Some b"
  shows "b = merged_into l r" "block_end l = b_phys_base r" "merge_compatible l r" "block_active r" "b_virt_len r = 0" "b_phys_len r \<noteq> 0"
    "b_phys_len l + b_phys_len r \<le> U64_MAX" "b_reserved l + b_reserved r \<le> U64_MAX" "b_committed l + b_committed r \<le> U64_MAX"
    "block_end l \<le> U64_MAX"
  using assms merged_left [of l r]
  by (auto simp: merged_block_def checked_add64_def block_end_def split: if_splits bind_splits)

lemma merged_block_None_grow:
  assumes "merged_block a b = None" and "merged_block b c = Some d"
  shows "merged_block a d = None"
proof (rule ccontr)
  assume "merged_block a d \<noteq> None"
  then obtain x where x: "merged_block a d = Some x" by blast
  note A = merged_block_Some [OF x] and B = merged_block_Some [OF assms(2)]
  have d: "b_phys_base d = b_phys_base b" using B(1,2) by (auto simp: merged_into_def block_end_def)
  have "merge_compatible a b" "block_active b" "b_virt_len b = 0" "b_phys_len b \<noteq> 0"
    using A(3-5) B(3) unfolding B(1) by (auto simp: merge_compatible_def merged_into_def block_active_def)
  moreover have "b_phys_len b \<le> b_phys_len d" "b_reserved b \<le> b_reserved d" "b_committed b \<le> b_committed d"
    unfolding B(1) by (auto simp: merged_into_def)
  ultimately show False using assms(1) A(2,7-10) d
    by (auto simp: merged_block_def checked_add64_def block_end_def)
qed

lemma coalesce_entries:
  assumes ok: "entries_ok ents n" and l: "phys_slot ents l" and r: "phys_slot ents r" and m: "merged_block (ents l) (ents r) = Some b"
  shows "entries_ok (ents(l := b, r := released (ents r))) n" "phys_view (ents(l := b, r := released (ents r))) = phys_view ents"
    "l \<noteq> r" "b = merged_into (ents l) (ents r)" "b_phys_base b = b_phys_base (ents l)"
    "b_id b = b_id (ents l)" "b_slot_used b = b_slot_used (ents l)" "physical_index b"
proof -
  let ?e = "ents(r := released (ents r))"
  note M = merged_block_Some [OF m]
  have c: "fits ents" "disjoint_blocks ents" using ok by (auto simp: entries_ok_def)
  have rlt: "r < MAX_BLOCKS" using r by (simp add: phys_slot_def)
  show ne: "l \<noteq> r" using M(2,6) by (auto simp: block_end_def)
  have R: "entries_ok ?e n" "phys_view ?e = (\<lambda>a. if phys_slot ents r \<and> covers_addr (ents r) a then None else phys_view ents a)"
    using release_entries [OF ok rlt] by auto
  have sl: "phys_slot ?e j \<longleftrightarrow> j \<noteq> r \<and> phys_slot ents j" for j by (auto simp: phys_slot_def released_facts)
  have mt: "mate ?e (ents r) l" using ne l M(2,3) sl by (auto simp: mate_def left_mate_def)
  have fin: "block_end (ents r) \<le> U64_MAX" using c(1) r by (simp add: fits_def phys_slot_def)
  have cl: "clear_range ?e (b_phys_base (ents r)) (block_end (ents r))"
    using c(2) r by (auto simp: clear_range_def disjoint_blocks_def phys_slot_def apart_def released_facts)
  have w: "?e(l := merged_into (?e l) (ents r)) = ents(l := b, r := released (ents r))" using ne M(1) by (auto simp: fun_upd_twist)
  show "entries_ok (ents(l := b, r := released (ents r))) n" using merge_entries(1) [OF R(1) mt fin cl] w by simp
  have sh: "shade (ents r) = Some (attr (ents r))" using M(4) by (simp add: shade_def block_active_def)
  have vr: "phys_view ents a = Some (attr (ents r))" if "covers_addr (ents r) a" for a using phys_view_Some [OF c(2)] r that by blast
  show "phys_view (ents(l := b, r := released (ents r))) = phys_view ents"
    using merge_entries(2) [OF R(1) mt fin cl] vr r unfolding w R(2) paint_def sh
    by (auto simp: fun_eq_iff covers_addr_def block_end_def)
  show "b = merged_into (ents l) (ents r)" by (rule M(1))
  show "b_phys_base b = b_phys_base (ents l)" "b_id b = b_id (ents l)" "b_slot_used b = b_slot_used (ents l)" "physical_index b"
    using M(2) merged_into_facts(2,6) [OF mt] ne l unfolding M(1)
    by (auto simp: merged_into_def block_end_def phys_slot_def physical_index_def block_active_def)
qed

lemma coalesce_write:
  assumes inv: "cat_inv T" and l: "phys_slot (entries T) l" and r: "phys_slot (entries T) r"
    and m: "merged_block (entries T l) (entries T r) = Some b"
  shows "\<exists>T2 T3. block_replace l b T = Some T2 \<and> block_replace r (released (entries T r)) T2 = Some T3 \<and> cat_inv T3
     \<and> entries T3 = (entries T)(l := b, r := released (entries T r)) \<and> bt_next_id T3 = bt_next_id T \<and> initialized T3 = initialized T"
proof -
  let ?e = "entries T"
  have c: "idx_inv T" "entries_ok ?e (bt_next_id T)" using inv by (auto simp: cat_inv_entries)
  note E = coalesce_entries [OF c(2) l r m]
  have lt: "l < MAX_BLOCKS" "r < MAX_BLOCKS" using l r by (auto simp: phys_slot_def)
  have "new_id ?e l b" by (rule same_id_new [OF idx_inv_unique [OF c(1)] lt(1) E(6,7)])
  then obtain T2 where T2: "block_replace l b T = Some T2" "idx_inv T2" "entries T2 = ?e(l := b)" "bt_next_id T2 = bt_next_id T"
     "initialized T2 = initialized T" using block_replace_ok [OF c(1) lt(1)] by blast
  have "new_id (entries T2) r (released (?e r))"
    by (rule same_id_new [OF idx_inv_unique [OF T2(2)] lt(2)]) (use E(3) T2(3) in \<open>simp_all add: released_facts\<close>)
  then obtain T3 where "block_replace r (released (?e r)) T2 = Some T3" "idx_inv T3" "entries T3 = (entries T2)(r := released (?e r))"
     "bt_next_id T3 = bt_next_id T2" "initialized T3 = initialized T2" using block_replace_ok [OF T2(2) lt(2)] by blast
  then show ?thesis using T2 E(1) by (simp add: cat_inv_entries)
qed

lemma coalesced_trans:
  "coalesced T1 T2 \<Longrightarrow> phys_view (entries T1) = phys_view (entries T) \<Longrightarrow> bt_next_id T1 = bt_next_id T
   \<Longrightarrow> initialized T1 = initialized T \<Longrightarrow> coalesced T T2"
  by (simp add: coalesced_def)

lemma before_antisym: "before ents i j \<Longrightarrow> \<not> before ents j i" and before_trans3: "before ents i j \<Longrightarrow> before ents j k \<Longrightarrow> before ents i k"
  by (auto simp: before_def)

lemma before_total3: "i \<noteq> j \<Longrightarrow> before ents i j \<or> before ents j i"
  by (auto simp: before_def)

text \<open>Every block before the current one is settled; so is the current one when it does not merge with its successor.\<close>

lemma settled_step:
  assumes dis: "disjoint_blocks ents" and l: "phys_slot ents l" and r: "least ents (before ents l) (Some r)"
    and past: "\<And>i. phys_slot ents i \<Longrightarrow> before ents i l \<Longrightarrow> settled ents i" and no: "merged_block (ents l) (ents r) = None"
    and i: "phys_slot ents i" "before ents i r"
  shows "settled ents i"
proof -
  have R: "phys_slot ents r" "before ents l r" "\<And>j. phys_slot ents j \<Longrightarrow> before ents l j \<Longrightarrow> j = r \<or> before ents r j"
    using r by (auto simp: least_def)
  have "settled ents l"
    unfolding settled_def
  proof (intro allI impI)
    fix j assume j: "phys_slot ents j"
    show "merged_block (ents l) (ents j) = None"
    proof (rule ccontr)
      assume "merged_block (ents l) (ents j) \<noteq> None"
      then have e: "block_end (ents l) = b_phys_base (ents j)" using merged_block_Some(2) by blast
      have pos: "b_phys_len (ents l) \<noteq> 0" "b_phys_len (ents r) \<noteq> 0" using l R(1) physical_len by (auto simp: phys_slot_def)
      then have "before ents l j" using e by (auto simp: before_def block_end_def)
      then consider "j = r" | "before ents r j" using R(3) [OF j] by blast
      then show False
      proof cases
        case 1
        then show ?thesis using no \<open>merged_block (ents l) (ents j) \<noteq> None\<close> by simp
      next
        case 2
        then show ?thesis using phys_before_end [OF dis R(1) j 2] phys_before_end [OF dis l R(1,2)] e pos(2) by (simp add: block_end_def)
      qed
    qed
  qed
  then show ?thesis using past i R(3) before_total3 [of i l ents] before_antisym [of ents i r] by blast
qed

lemma settled_last:
  assumes "phys_slot ents l" and none: "least ents (before ents l) None"
    and past: "\<And>i. phys_slot ents i \<Longrightarrow> before ents i l \<Longrightarrow> settled ents i" and i: "phys_slot ents i"
  shows "settled ents i"
proof (cases "i = l")
  case True
  have "merged_block (ents l) (ents j) = None" if j: "phys_slot ents j" for j
  proof (rule ccontr)
    assume "merged_block (ents l) (ents j) \<noteq> None"
    then have "block_end (ents l) = b_phys_base (ents j)" using merged_block_Some(2) by blast
    moreover have "b_phys_len (ents l) \<noteq> 0" using assms(1) physical_len by (auto simp: phys_slot_def)
    ultimately have "before ents l j" by (simp add: before_def block_end_def)
    then show False using none j by (simp add: least_def)
  qed
  then show ?thesis using True by (simp add: settled_def)
next
  case False
  then show ?thesis using past [OF i] before_total3 [OF False] none i by (auto simp: least_def)
qed

lemma settled_merge:
  assumes l: "phys_slot ents l" and m: "merged_block (ents l) (ents r) = Some b" and ne: "l \<noteq> r" and pb: "physical_index b"
    and base: "b_phys_base b = b_phys_base (ents l)"
    and past: "\<And>i. phys_slot ents i \<Longrightarrow> before ents i l \<Longrightarrow> settled ents i"
    and i: "phys_slot (ents(l := b, r := released (ents r))) i" "before (ents(l := b, r := released (ents r))) i l"
  shows "settled (ents(l := b, r := released (ents r))) i"
proof -
  let ?e = "ents(l := b, r := released (ents r))"
  have sl: "phys_slot ?e j \<longleftrightarrow> j \<noteq> r \<and> phys_slot ents j" for j using l pb ne by (auto simp: phys_slot_def released_facts)
  have ir: "i \<noteq> r" "phys_slot ents i" using i(1) unfolding sl by auto
  then have i': "i \<noteq> r" "i \<noteq> l" "phys_slot ents i" "before ents i l" using i(2) ne base by (auto simp: before_def split: if_splits)
  then have s: "settled ents i" using past by blast
  have "merged_block (?e i) (?e j) = None" if j: "phys_slot ?e j" for j
  proof (cases "j = l")
    case True
    have "merged_block (ents i) (ents l) = None" using s l by (simp add: settled_def)
    then have "merged_block (ents i) b = None" by (rule merged_block_None_grow [OF _ m])
    then show ?thesis using True i'(1,2) ne by simp
  next
    case False
    have "phys_slot ents j" "j \<noteq> r" using j unfolding sl by auto
    then show ?thesis using s False i'(1,2) by (simp add: settled_def)
  qed
  then show ?thesis by (simp add: settled_def)
qed

lemma coalesce_loop_ok:
  assumes "cat_inv T" and "phys_slot (entries T) l" and "\<And>i. phys_slot (entries T) i \<Longrightarrow> before (entries T) i l \<Longrightarrow> settled (entries T) i"
  shows "\<exists>T'. coalesce_loop (Some l) T = Some T' \<and> coalesced T T'"
  using assms
proof (induction "card (later (entries T) l)" arbitrary: T l rule: less_induct)
  case less
  let ?e = "entries T"
  have c: "idx_inv T" "entries_ok ?e (bt_next_id T)" "disjoint_blocks ?e" using less.prems(1) by (auto simp: cat_inv_def entries_ok_def)
  have lt: "l < MAX_BLOCKS" using less.prems(2) by (simp add: phys_slot_def)
  obtain nx T1 where s: "avl_successor l T = Some (nx, T1)" "still T T1" "least ?e (before ?e l) nx" using idx_successor [OF c(1) lt] by blast
  note c1 = stillD(6) [OF s(2) less.prems(1)] and e1 = stillD(1) [OF s(2)] and n1 = stillD(2,3) [OF s(2)]
  show ?case
  proof (cases nx)
    case None
    then have "coalesce_loop (Some l) T = Some T1" using s(1) by (subst coalesce_loop.simps) simp
    moreover have "coalesced T T1" using settled_last [OF less.prems(2) s(3) [unfolded None] less.prems(3)] c1 e1 n1
      by (simp add: coalesced_def)
    ultimately show ?thesis by simp
  next
    case (Some r)
    have R: "phys_slot ?e r" "before ?e l r" using s(3) Some by (auto simp: least_def)
    have rlt: "r < MAX_BLOCKS" using R(1) by (simp add: phys_slot_def)
    show ?thesis
    proof (cases "merged_block (?e l) (?e r)")
      case no: None
      have "r \<in> later ?e l" "r \<notin> later ?e r" using R before_antisym [of ?e r r] by (auto simp: later_def)
      moreover have "later ?e r \<subseteq> later ?e l" using before_trans3 [OF R(2)] by (auto simp: later_def)
      ultimately have "later ?e r \<subset> later ?e l" by blast
      then have "card (later (entries T1) r) < card (later ?e l)" using e1 by (simp add: psubset_card_mono)
      moreover have "settled (entries T1) i" if "phys_slot (entries T1) i" "before (entries T1) i r" for i
        using settled_step [OF c(3) less.prems(2) s(3) [unfolded Some] less.prems(3) no] that e1 by simp
      ultimately obtain T' where "coalesce_loop (Some r) T1 = Some T'" "coalesced T1 T'"
        using less.hyps [of T1 r] c1 R(1) e1 by auto
      moreover have "coalesce_loop (Some l) T = coalesce_loop (Some r) T1"
        using s(1) Some no lt rlt e1 by (subst coalesce_loop.simps) simp
      ultimately show ?thesis using coalesced_trans e1 n1 by metis
    next
      case m: (Some b)
      obtain T2 T3 where w: "block_replace l b T1 = Some T2" "block_replace r (released (?e r)) T2 = Some T3" "cat_inv T3"
         "entries T3 = ?e(l := b, r := released (?e r))" "bt_next_id T3 = bt_next_id T1" "initialized T3 = initialized T1"
        using coalesce_write [OF c1, unfolded e1, OF less.prems(2) R(1) m] by blast
      note E = coalesce_entries [OF c(2) less.prems(2) R(1) m]
      have sl: "phys_slot (entries T3) j \<longleftrightarrow> j \<noteq> r \<and> phys_slot ?e j" for j
        using less.prems(2) E(3,8) w(4) by (auto simp: phys_slot_def released_facts)
      have "later (entries T3) l \<subset> later ?e l"
      proof
        show "later (entries T3) l \<subseteq> later ?e l" using sl E(3,5) w(4) by (auto simp: later_def before_def)
        show "later (entries T3) l \<noteq> later ?e l" using R sl by (auto simp: later_def)
      qed
      then have "card (later (entries T3) l) < card (later ?e l)" by (simp add: psubset_card_mono)
      moreover have "settled (entries T3) i" if "phys_slot (entries T3) i" "before (entries T3) i l" for i
        using settled_merge [OF less.prems(2) m E(3,8,5) less.prems(3)] that w(4) by simp
      ultimately obtain T' where "coalesce_loop (Some l) T3 = Some T'" "coalesced T3 T'"
        using less.hyps [of T3 l] w(3) sl less.prems(2) E(3) by blast
      moreover have "coalesce_loop (Some l) T = coalesce_loop (Some l) T3"
        using s(1) Some m lt rlt e1 w(1,2) by (subst coalesce_loop.simps) simp
      ultimately show ?thesis using coalesced_trans E(2) w(4-6) n1 by metis
    qed
  qed
qed

lemma block_coalesce_ok:
  assumes inv: "cat_inv T"
  shows "\<exists>T'. block_coalesce T = Some T' \<and> coalesced T T'"
proof -
  have i: "idx_inv T" using inv by (simp add: cat_inv_def)
  obtain xs where xs: "avl_index T xs" "set xs = {i. phys_slot (entries T) i}" "ordered (entries T) xs" using idx_orderE [OF i] .
  show ?thesis
  proof (cases xs)
    case Nil
    then have "block_coalesce T = Some T" using avl_minimum_ok [OF xs(1)] by (simp add: block_coalesce_def coalesce_loop.simps)
    moreover have "coalesced T T" using inv xs(2) Nil by (auto simp: coalesced_def)
    ultimately show ?thesis by blast
  next
    case (Cons l ys)
    have "block_coalesce T = coalesce_loop (Some l) T" using avl_minimum_ok [OF xs(1)] Cons by (simp add: block_coalesce_def)
    moreover have "phys_slot (entries T) l" using xs(2) Cons by auto
    moreover have "\<not> before (entries T) i l" if "phys_slot (entries T) i" for i
    proof -
      have "i \<in> set (l # ys)" using that xs(2) Cons by auto
      then show ?thesis using xs(3) Cons before_antisym [of "entries T" i l] by auto
    qed
    ultimately show ?thesis using coalesce_loop_ok [OF inv, of l] by auto
  qed
qed

end
