(* ===== verification/Block_Claim.thy ===== *)
theory Block_Claim
  imports Block_Coalesce
begin

text \<open>
  Claims and retags: both split the block that holds a range; they paint the range, or the journal puts
  every entry back.
\<close>

text \<open>
  What a claim and a retag share once the block is found: the arithmetic on its bounds does not fail,
  it is remembered and released, and placing the parts and the request paints the request's range.
\<close>

definition split_ready :: "block_table \<Rightarrow> nat \<Rightarrow> nat \<Rightarrow> nat \<Rightarrow> nat \<Rightarrow> nat \<Rightarrow> journal \<Rightarrow> block_table \<Rightarrow> bool" where
  "split_ready T i base len n m J1 T2 \<longleftrightarrow> (let b = entries T i in
     i < MAX_BLOCKS
     \<and> checked_add64 (b_phys_base b) (b_phys_len b) = Some (block_end b) \<and> checked_add64 base len = Some (base + len)
     \<and> sub_unsigned base (b_phys_base b) = Some n \<and> sub_unsigned (block_end b) (base + len) = Some m
     \<and> remember i (\<lparr>images = [], j_next_id = bt_next_id T\<rparr>, T) = Some (Inr (), (J1, T))
     \<and> on_table (replace_step i (released b)) (J1, T) = Some (Inr (), (J1, T2))
     \<and> initialized T2 = initialized T
     \<and> (\<forall>low high request. b_phys_base low = b_phys_base b \<and> b_phys_len low = n \<and> shade low = Some (attr b)
          \<and> b_phys_base high = base + len \<and> b_phys_len high = m \<and> shade high = Some (attr b)
          \<and> b_phys_base request = base \<and> b_phys_len request = len
        \<longrightarrow> jres T 3 (paint base len (shade request) (phys_view (entries T))) (J1, T2) (split_steps low request high n m (J1, T2))))"

text \<open>
  A request on a range never panics; it succeeds only when one block of the kind asked for holds the
  range, and then the range, and nothing else, takes the attributes \<open>v\<close>; otherwise the catalogue is as before.
\<close>

definition range_result :: "bool \<Rightarrow> block_error \<Rightarrow> block_attr option \<Rightarrow> block \<Rightarrow> block_table \<Rightarrow> nat step \<Rightarrow> bool" where
  "range_result free missing v request T res \<longleftrightarrow> (let base = b_phys_base request; len = b_phys_len request in
     \<exists>r T'. res = Some (r, T') \<and> cat_inv T' \<and> initialized T' = initialized T
     \<and> ((\<forall>i. \<not> holds_range (entries T) free base (base + len) i) \<longrightarrow> r = Inl EmptyRange \<or> r = Inl missing)
     \<and> (case r of
          Inl _ \<Rightarrow> restored T T'
        | Inr _ \<Rightarrow> (\<exists>i. holds_range (entries T) free base (base + len) i) \<and> phys_view (entries T') = paint base len v (phys_view (entries T))))"

section \<open>Splitting a block\<close>

lemma andthen_assoc: "andthen (andthen r f) g = andthen r (\<lambda>v s. andthen (f v s) g)"
  by (cases r) (auto simp: andthen_def split: prod.splits sum.splits)

lemma andthen_ok: "andthen (ok v s) f = f v s"
  by (simp add: ok_def)

lemma split_view:
  assumes inv: "cat_inv T" and i: "holds_range (entries T) free base (base + len) i"
  shows "(\<lambda>a. if b_phys_base (entries T i) \<le> a \<and> a < base then Some (attr (entries T i)) else if base \<le> a \<and> a < base + len then v
       else if base + len \<le> a \<and> a < block_end (entries T i) then Some (attr (entries T i))
       else if covers_addr (entries T i) a then None else phys_view (entries T) a) = paint base len v (phys_view (entries T))"
  using i view_at [OF inv, of i] by (auto simp: fun_eq_iff paint_def covers_addr_def holds_range_def)

lemma split_block:
  assumes inv: "cat_inv T" and i: "holds_range (entries T) free base (base + len) i" and len: "len \<noteq> 0"
  shows "\<exists>n m J1 T2. split_ready T i base len n m J1 T2"
proof -
  let ?b = "entries T i"
  have ps: "phys_slot (entries T) i" and geo: "b_phys_base ?b \<le> base" "base + len \<le> block_end ?b"
    using i by (auto simp: holds_range_def)
  note ends = phys_slot_ends [OF inv ps]
  have add: "checked_add64 base len = Some (base + len)" using geo(2) ends(1) by (simp add: checked_add64_def)
  obtain J1 T2 where s: "remember i (\<lparr>images = [], j_next_id = bt_next_id T\<rparr>, T) = Some (Inr (), (J1, T))"
     "block_replace i (released ?b) T = Some T2" "cat_inv T2" "journalled T J1 T2" "length (images J1) \<le> 1"
     "initialized T2 = initialized T" "phys_view (entries T2) = (\<lambda>a. if covers_addr ?b a then None else phys_view (entries T) a)"
    using split_start [OF inv ps] by blast
  obtain n where n: "sub_unsigned base (b_phys_base ?b) = Some n" "b_phys_base ?b + n = base" using sub_unsigned_split [OF geo(1)] by blast
  obtain m where m: "sub_unsigned (block_end ?b) (base + len) = Some m" "base + len + m = block_end ?b"
    using sub_unsigned_split [OF geo(2)] by blast
  have first: "on_table (replace_step i (released ?b)) (J1, T) = Some (Inr (), (J1, T2))"
    using s(2) by (simp add: on_table_def replace_step_def ok_def)
  have run: "jres T 3 (paint base len (shade request) (phys_view (entries T))) (J1, T2) (split_steps low request high n m (J1, T2))"
    if a: "b_phys_base low = b_phys_base ?b" "b_phys_len low = n" "shade low = Some (attr ?b)" "b_phys_base high = base + len"
      "b_phys_len high = m" "shade high = Some (attr ?b)" "b_phys_base request = base" "b_phys_len request = len" for low high request
  proof -
    have "jres T 3 (\<lambda>a. if b_phys_base ?b \<le> a \<and> a < base then shade low else if base \<le> a \<and> a < base + len then shade request
       else if base + len \<le> a \<and> a < block_end ?b then shade high else phys_view (entries T2) a) (J1, T2)
       (split_steps low request high n m (J1, T2))"
      by (rule split_steps_ok [OF s(3-5)]) (use a n(2) m(2) ends len in \<open>simp_all add: s(7) covers_addr_def\<close>)
    then show ?thesis unfolding s(7) a(3,6) split_view [OF inv i] .
  qed
  have "i < MAX_BLOCKS" using ps by (simp add: phys_slot_def)
  then have "split_ready T i base len n m J1 T2" unfolding split_ready_def Let_def using ends(2) add n(1) m(1) s(1,6) first run by blast
  then show ?thesis by blast
qed

lemma split_ready_run:
  assumes "split_ready T i base len n m J1 T2"
    and "b_phys_base low = b_phys_base (entries T i)" "b_phys_len low = n" "shade low = Some (attr (entries T i))"
    and "b_phys_base high = base + len" "b_phys_len high = m" "shade high = Some (attr (entries T i))"
    and "b_phys_base request = base" "b_phys_len request = len" "shade request = v"
  shows "jres T 3 (paint base len v (phys_view (entries T))) (J1, T2) (split_steps low request high n m (J1, T2))"
  using assms(1) unfolding split_ready_def Let_def using assms(2-) by blast

section \<open>Claims and retags\<close>

lemma range_found:
  assumes "\<exists>r T'. res = Some (r, T') \<and> cat_inv T' \<and> initialized T' = initialized T1
     \<and> (case r of Inl _ \<Rightarrow> restored T1 T' | Inr _ \<Rightarrow> phys_view (entries T') = paint (b_phys_base request) (b_phys_len request) v (phys_view (entries T1)))"
    and "still T T1" and "holds_range (entries T) free (b_phys_base request) (b_phys_base request + b_phys_len request) i"
  shows "range_result free missing v request T res"
  using assms stillD(1-3) [OF assms(2)] by (fastforce simp: range_result_def restored_def Let_def split: sum.splits)

lemma block_claim_found:
  assumes "block_containing (b_phys_base request) (b_phys_len request) True
      (T0\<lparr>hot := (hot T0)\<lparr>claim_transactions := wrapping_add64 (claim_transactions (hot T0)) 1\<rparr>\<rparr>) = Some (Some i, T1)"
    and "b_phys_len request \<noteq> 0" and "split_ready T1 i (b_phys_base request) (b_phys_len request) n m J1 T2" and "b = entries T1 i"
  shows "block_claim request T0 = (do {
     (r, (J, T2)) \<leftarrow> split_steps (free_request (b_phys_base b) n)
       (request\<lparr>b_status := COMMITTED, b_reserved := b_phys_len request, b_committed := b_phys_len request\<rparr>)
       (free_request (b_phys_base request + b_phys_len request) m) n m (J1, T2);
     (case r of Inr v \<Rightarrow> ok v T2 | Inl e \<Rightarrow> do {
        T3 \<leftarrow> rollback J (T2\<lparr>hot := (hot T2)\<lparr>claim_rollbacks := wrapping_add64 (claim_rollbacks (hot T2)) 1\<rparr>\<rparr>); err e T3 }) })"
  using assms unfolding split_ready_def Let_def
  by (simp add: block_claim_def Let_def ok_or_def check_def split_steps_def del: One_nat_def)

lemma claim_range_ok:
  assumes inv: "cat_inv T0"
  shows "range_result True NotFree (Some (claimed request)) request T0 (block_claim request T0)"
proof (cases "b_phys_len request = 0 \<or> checked_add64 (b_phys_base request) (b_phys_len request) = None")
  case True
  then show ?thesis using inv by (auto simp: block_claim_def range_result_def err_def restored_def Let_def)
next
  case False
  let ?base = "b_phys_base request" and ?len = "b_phys_len request" and ?e = "entries T0"
  let ?T = "T0\<lparr>hot := (hot T0)\<lparr>claim_transactions := wrapping_add64 (claim_transactions (hot T0)) 1\<rparr>\<rparr>"
  have st: "still T0 ?T" by (rule still_hot) (auto simp: low_steps_def)
  obtain at T1 where at: "block_containing ?base ?len True ?T = Some (at, T1)" "still ?T T1"
     "case at of None \<Rightarrow> True | Some i \<Rightarrow> holds_range ?e True ?base (?base + ?len) i"
    using block_containing_ok [OF stillD(6) [OF st inv], of ?len ?base True] False stillD(1) [OF st] by (auto split: option.splits)
  note st1 = still_trans [OF st at(2)]
  note c1 = stillD(6) [OF st1 inv] and e1 = stillD(1) [OF st1]
  show ?thesis
  proof (cases at)
    case None
    then have "block_claim request T0 = Some (Inl NotFree, T1)" using False at(1) by (simp add: block_claim_def Let_def ok_or_def err_def)
    then show ?thesis using restored_still [OF st1 inv] by (simp add: range_result_def restored_def)
  next
    case (Some i)
    let ?b = "?e i"
    have i: "holds_range ?e True ?base (?base + ?len) i" using at(3) Some by simp
    obtain n m J1 T2 where s: "split_ready T1 i ?base ?len n m J1 T2" using split_block [OF c1, unfolded e1, OF i] False by auto
    note S = s [unfolded split_ready_def Let_def e1]
    let ?req = "request\<lparr>b_status := COMMITTED, b_reserved := ?len, b_committed := ?len\<rparr>"
    let ?steps = "split_steps (free_request (b_phys_base ?b) n) ?req (free_request (?base + ?len) m) n m (J1, T2)"
    let ?undo = "\<lambda>e J T2. do { T3 \<leftarrow> rollback J (T2\<lparr>hot := (hot T2)\<lparr>claim_rollbacks := wrapping_add64 (claim_rollbacks (hot T2)) 1\<rparr>\<rparr>); err e T3 }"
    have sh: "shade ?req = Some (claimed request)" by (simp add: shade_def attr_def claimed_def COMMITTED_def RELEASED_def)
    have fa: "attr ?b = free_attr" using i canonical_attr by (simp add: holds_range_def usable_def)
    have j: "jres T1 3 (paint ?base ?len (Some (claimed request)) (phys_view ?e)) (J1, T2) ?steps"
      using split_ready_run [OF s, unfolded e1] fa sh by (simp add: free_request_facts)
    have "\<exists>r T'. (do { (r, (J, T2)) \<leftarrow> ?steps; (case r of Inr v \<Rightarrow> ok v T2 | Inl e \<Rightarrow> ?undo e J T2) }) = Some (r, T')
     \<and> cat_inv T' \<and> initialized T' = initialized T1
     \<and> (case r of Inl _ \<Rightarrow> restored T1 T' | Inr _ \<Rightarrow> phys_view (entries T') = paint ?base ?len (Some (claimed request)) (phys_view ?e))"
      by (rule split_finish [OF c1 j])
        (use S in \<open>auto simp: low_steps_def intro!: exI [of _ "_\<lparr>hot := _\<rparr>"]\<close>)
    moreover have "block_claim request T0 = (do { (r, (J, T2)) \<leftarrow> ?steps; (case r of Inr v \<Rightarrow> ok v T2 | Inl e \<Rightarrow> ?undo e J T2) })"
      by (rule block_claim_found [OF at(1) [unfolded Some] _ s]) (use False e1 in simp_all)
    ultimately show ?thesis using range_found [OF _ st1 i, unfolded e1] by simp
  qed
qed

text \<open>A retag ends with a coalescing pass, which cannot fail, so the journal is not needed after it.\<close>

lemma split_coalesce:
  assumes inv: "cat_inv T" and steps: "jres T k V s res" and s: "initialized (snd s) = initialized T"
  shows "\<exists>r T'. (do { (r, (J, T2)) \<leftarrow> andthen res (\<lambda>v s1. andthen (on_table (\<lambda>T. do { T1 \<leftarrow> block_coalesce T; ok () T1 }) s1) (\<lambda>_ s2. ok v s2));
        (case r of Inr v \<Rightarrow> ok v T2 | Inl e \<Rightarrow> do { T3 \<leftarrow> rollback J T2; err e T3 }) }) = Some (r, T')
     \<and> cat_inv T' \<and> initialized T' = initialized T
     \<and> (case r of Inl _ \<Rightarrow> restored T T' | Inr _ \<Rightarrow> phys_view (entries T') = V)"
proof -
  obtain r J T2 where r: "res = Some (r, (J, T2))" "cat_inv T2" "journalled T J T2" "initialized T2 = initialized T"
     "case r of Inl _ \<Rightarrow> True | Inr _ \<Rightarrow> phys_view (entries T2) = V" using steps s by (auto simp: jres_def)
  show ?thesis
  proof (cases r)
    case (Inr v)
    obtain T3 where "block_coalesce T2 = Some T3" "coalesced T2 T3" using block_coalesce_ok [OF r(2)] by blast
    then show ?thesis using Inr r by (simp add: ok_def on_table_def coalesced_def)
  next
    case (Inl e)
    obtain T3 where "rollback J T2 = Some T3" "cat_inv T3" "entries T3 = entries T" "bt_next_id T3 = bt_next_id T"
       "initialized T3 = initialized T2" using rollback_ok [OF inv r(3) low_steps_inv [OF r(2)]] by blast
    then show ?thesis using Inl r by (simp add: err_def restored_def)
  qed
qed

lemma retag_range_ok:
  assumes inv: "cat_inv T"
  shows "range_result False NotFound (shade request) request T (block_retag request T)"
proof (cases "b_phys_len request = 0 \<or> checked_add64 (b_phys_base request) (b_phys_len request) = None")
  case True
  then show ?thesis using inv by (auto simp: block_retag_def range_result_def err_def restored_def Let_def)
next
  case False
  let ?base = "b_phys_base request" and ?len = "b_phys_len request" and ?e = "entries T"
  obtain at T1 where at: "block_containing ?base ?len False T = Some (at, T1)" "still T T1"
     "case at of None \<Rightarrow> True | Some i \<Rightarrow> holds_range ?e False ?base (?base + ?len) i"
    using block_containing_ok [OF inv, of ?len ?base False] False by (auto split: option.splits)
  note c1 = stillD(6) [OF at(2) inv] and e1 = stillD(1) [OF at(2)]
  show ?thesis
  proof (cases at)
    case None
    then have "block_retag request T = Some (Inl NotFound, T1)" using False at(1) by (simp add: block_retag_def Let_def ok_or_def err_def)
    then show ?thesis using restored_still [OF at(2) inv] by (simp add: range_result_def restored_def)
  next
    case (Some i)
    let ?b = "?e i"
    have i: "holds_range ?e False ?base (?base + ?len) i" using at(3) Some by simp
    obtain n m J1 T2 where s: "split_ready T1 i ?base ?len n m J1 T2" using split_block [OF c1, unfolded e1, OF i] False by auto
    note S = s [unfolded split_ready_def Let_def e1]
    let ?req = "request\<lparr>b_reserved := if b_status request = FREE \<or> b_status request = RELEASED then 0 else ?len,
        b_committed := if b_status request = COMMITTED \<or> b_status request = MAPPED then ?len else 0\<rparr>"
    let ?steps = "split_steps (part_request ?b (b_phys_base ?b) n) ?req (part_request ?b (?base + ?len) m) n m (J1, T2)"
    have sh: "shade ?req = shade request" by (simp add: shade_def attr_def)
    have "shade ?b = Some (attr ?b)" using i by (auto simp: holds_range_def phys_slot_def shade_def physical_index_def block_active_def)
    then have j: "jres T1 3 (paint ?base ?len (shade request) (phys_view ?e)) (J1, T2) ?steps"
      using split_ready_run [OF s, unfolded e1] sh by (simp add: part_request_facts)
    have "initialized (snd (J1, T2)) = initialized T1" using S by simp
    note fin = split_coalesce [OF c1 j this]
    have run: "block_retag request T = (do { (r, (J, T2)) \<leftarrow> andthen ?steps (\<lambda>v s1. andthen (on_table (\<lambda>T. do { T1 \<leftarrow> block_coalesce T; ok () T1 }) s1) (\<lambda>_ s2. ok v s2));
        (case r of Inr v \<Rightarrow> ok v T2 | Inl e \<Rightarrow> do { T3 \<leftarrow> rollback J T2; err e T3 }) })"
      using False at(1) Some S e1
      by (simp add: block_retag_def Let_def ok_or_def check_def split_steps_def andthen_assoc andthen_ok del: One_nat_def split del: if_split)
    show ?thesis unfolding run by (rule range_found [OF _ at(2) i, unfolded e1, OF fin])
  qed
qed

end
