(* ===== verification/Block_Plan.thy ===== *)
theory Block_Plan
  imports Block_Claim
begin

text \<open>
  Release plans: a plan is made without changing the catalogue and carries the writes; carrying it out
  frees its range and nothing else, joined with the free blocks on both sides.
\<close>

section \<open>Writing new blocks\<close>

text \<open>A block whose bytes alone differ covers and shows the same.\<close>

definition same_shape :: "block \<Rightarrow> block \<Rightarrow> bool" where
  "same_shape b c \<longleftrightarrow> c = b\<lparr>b_reserved := b_reserved c, b_committed := b_committed c\<rparr>"

text \<open>
  \<open>numbered\<close>: the writes of a plan, each request under the next identity in the next slot.
\<close>

primrec numbered :: "block list \<Rightarrow> nat list \<Rightarrow> nat \<Rightarrow> (nat \<times> block) list \<Rightarrow> nat \<Rightarrow> bool" where
  "numbered [] ss n ws n' \<longleftrightarrow> ws = [] \<and> n' = n"
| "numbered (r # rs) ss n ws n' \<longleftrightarrow> (\<exists>s ss' ws'. ss = s # ss' \<and> n \<noteq> 0 \<and> ws = (s, block_entry r n) # ws'
     \<and> numbered rs ss' ((n + 1) mod 2 ^ 32) ws' n')"

definition paint_all :: "block list \<Rightarrow> (nat \<Rightarrow> block_attr option) \<Rightarrow> nat \<Rightarrow> block_attr option" where
  "paint_all rs m = fold (\<lambda>r. paint (b_phys_base r) (b_phys_len r) (shade r)) rs m"

text \<open>A canonical free block on one side of a range, other than the ignored block.\<close>

definition side_ok :: "(nat \<Rightarrow> block) \<Rightarrow> nat \<Rightarrow> (block \<Rightarrow> bool) \<Rightarrow> (nat \<times> block) option \<Rightarrow> bool" where
  "side_ok ents ignore P side \<longleftrightarrow> (case side of None \<Rightarrow> True
     | Some (i, b) \<Rightarrow> phys_slot ents i \<and> b = ents i \<and> canonical_free b \<and> b_id b \<noteq> ignore \<and> P b)"

definition grown :: "block \<Rightarrow> nat \<Rightarrow> nat \<Rightarrow> block" where
  "grown b lo hi = b\<lparr>b_phys_base := lo, b_phys_len := hi - lo, b_reserved := 0, b_committed := 0\<rparr>"

definition merge_plan :: "(nat \<times> block) option \<Rightarrow> (nat \<times> block) option \<Rightarrow> nat \<Rightarrow> nat \<Rightarrow> release_plan \<Rightarrow> release_plan" where
  "merge_plan lo hi base fin plan = (case lo of
     None \<Rightarrow> (case hi of None \<Rightarrow> plan | Some (r, b) \<Rightarrow> plan\<lparr>merge_primary := Some (r, grown b base (block_end b)), merge_secondary := None\<rparr>)
   | Some (l, a) \<Rightarrow> (case hi of
       None \<Rightarrow> plan\<lparr>merge_primary := Some (l, grown a (b_phys_base a) fin), merge_secondary := None\<rparr>
     | Some (r, b) \<Rightarrow> plan\<lparr>merge_primary := Some (l, grown a (b_phys_base a) (block_end b)), merge_secondary := Some (r, released b)\<rparr>))"

text \<open>The entries once the target is released and the range has joined its free neighbours.\<close>

definition freed :: "(nat \<Rightarrow> block) \<Rightarrow> nat \<Rightarrow> (nat \<times> block) option \<Rightarrow> (nat \<times> block) option \<Rightarrow> nat \<Rightarrow> nat \<Rightarrow> nat \<Rightarrow> block" where
  "freed ents i lo hi base fin = (let e = ents(i := released (ents i)) in case lo of
     None \<Rightarrow> (case hi of None \<Rightarrow> e | Some (r, b) \<Rightarrow> e(r := grown b base (block_end b)))
   | Some (l, a) \<Rightarrow> (case hi of
       None \<Rightarrow> e(l := grown a (b_phys_base a) fin)
     | Some (r, b) \<Rightarrow> e(l := grown a (b_phys_base a) (block_end b), r := released b)))"

definition blanked :: "(nat \<Rightarrow> block) \<Rightarrow> nat \<Rightarrow> nat \<Rightarrow> block_attr option" where
  "blanked ents i = (\<lambda>a. if covers_addr (ents i) a then None else phys_view ents a)"

definition merge_steps :: "release_plan \<Rightarrow> block_table \<Rightarrow> block_table outcome" where
  "merge_steps plan T = do {
     T1 \<leftarrow> block_replace (target_index plan) (target_released plan) T;
     T2 \<leftarrow> (case merge_primary plan of None \<Rightarrow> Some T1 | Some (i, b) \<Rightarrow> block_replace i b T1);
     (case merge_secondary plan of None \<Rightarrow> Some T2 | Some (i, b) \<Rightarrow> block_replace i b T2)
   }"

definition release_requests :: "block \<Rightarrow> nat \<Rightarrow> nat \<Rightarrow> nat \<Rightarrow> nat \<Rightarrow> bool \<Rightarrow> block list" where
  "release_requests b base len n m alone =
     (if n \<noteq> 0 then [part_request b (b_phys_base b) n] else [])
     @ (if m \<noteq> 0 then [part_request b (base + len) m] else [])
     @ (if alone then [free_request base len] else [])"

text \<open>What a plan promises: on a table with the entries it was made for, it frees the range and nothing else.\<close>

definition plan_ready :: "block_table \<Rightarrow> nat \<Rightarrow> nat \<Rightarrow> release_plan \<Rightarrow> bool" where
  "plan_ready T base len plan \<longleftrightarrow> (\<forall>c T2. idx_inv T2 \<and> entries T2 = entries T \<longrightarrow>
     (\<exists>T3. finish_release plan c T2 = Some T3 \<and> cat_inv T3 \<and> initialized T3 = initialized T2
       \<and> phys_view (entries T3) = paint base len (Some free_attr) (phys_view (entries T))))"

definition build_rest :: "nat \<Rightarrow> block \<Rightarrow> nat \<Rightarrow> nat \<Rightarrow> nat \<Rightarrow> nat \<Rightarrow> nat \<Rightarrow> release_plan \<Rightarrow> block_table \<Rightarrow> release_plan step" where
  "build_rest index b base len fin n m plan T2 =
     (let requests =
            (if n \<noteq> 0 then [part_request b (b_phys_base b) n] else [])
            @ (if m \<noteq> 0 then [part_request b fin m] else [])
            @ (if merge_primary plan = None then [free_request base len] else []);
          (free, T3) = collect_slots (if requests \<noteq> [] then [index] else []) (length requests) index T2
      in if length free \<noteq> length requests then err TableFull T3
         else andthen (plan_outputs requests free (b_id b) (bt_next_id T3) [] T3) (\<lambda>(writes, next1) T4.
           ok (plan\<lparr>plan_writes := writes, next_id_after := next1\<rparr>) T4))"

lemma same_shapeD:
  assumes "same_shape b c"
  shows "physical_index c = physical_index b" "block_end c = block_end b" "b_phys_base c = b_phys_base b" "attr c = attr b"
    "b_slot_used c = b_slot_used b" "b_id c = b_id b" "block_active c = block_active b" "b_virt_len c = b_virt_len b"
    "b_virt_base c = b_virt_base b" "covers_addr c a = covers_addr b a"
  by (subst assms [unfolded same_shape_def],
      simp add: physical_index_def block_active_def block_end_def attr_def covers_addr_def)+

lemma shape_entries:
  assumes "same_shape b c" and ok: "entries_ok (ents(i := b)) n" and i: "i < MAX_BLOCKS"
  shows "entries_ok (ents(i := c)) n" "phys_view (ents(i := c)) = phys_view (ents(i := b))"
proof -
  note S = same_shapeD [OF assms(1)]
  let ?b = "ents(i := b)" and ?c = "ents(i := c)"
  have eq: "physical_index (?c j) = physical_index (?b j)" "block_end (?c j) = block_end (?b j)" "b_phys_base (?c j) = b_phys_base (?b j)"
    "attr (?c j) = attr (?b j)" "b_slot_used (?c j) = b_slot_used (?b j)" "b_id (?c j) = b_id (?b j)" "block_active (?c j) = block_active (?b j)"
    "b_virt_len (?c j) = b_virt_len (?b j)" "b_virt_base (?c j) = b_virt_base (?b j)" "covers_addr (?c j) a = covers_addr (?b j) a" for j a
    using S by simp_all
  have "fits ?c" "disjoint_blocks ?c" "virt_inv ?c" "fresh_ids ?c n" "disjoint_blocks ?b"
    using ok unfolding entries_ok_def fits_def disjoint_blocks_def apart_def virt_inv_def virt_slot_def virt_apart_def fresh_ids_def eq by blast+
  then show "entries_ok ?c n" by (simp add: entries_ok_def)
  show "phys_view ?c = phys_view ?b" unfolding phys_view_def eq ..
qed

lemma register_entries:
  assumes ok: "entries_ok ents n" and s: "s < MAX_BLOCKS" and free: "\<not> block_active (ents s)" and n: "n \<noteq> 0"
    and virt: "b_virt_len request = 0" and fin: "block_end request \<le> U64_MAX"
    and clear: "clear_range ents (b_phys_base request) (block_end request)"
  shows "entries_ok (ents(s := block_entry request n)) ((n + 1) mod 2 ^ 32)"
    "phys_view (ents(s := block_entry request n)) = paint (b_phys_base request) (b_phys_len request) (shade request) (phys_view ents)"
proof -
  let ?b = "block_entry request n"
  have c: "fits ents" "disjoint_blocks ents" "virt_inv ents" "fresh_ids ents n" using ok by (auto simp: entries_ok_def)
  have b: "block_end ?b = block_end request" "b_phys_base ?b = b_phys_base request" "b_virt_len ?b = 0" "attr ?b = attr request"
    "physical_index ?b \<longleftrightarrow> b_status request \<noteq> RELEASED \<and> b_phys_len request \<noteq> 0"
    using virt by (auto simp: block_entry_def block_end_def attr_def physical_index_def block_active_def)
  have "fits (ents(s := ?b))" using fits_write [OF c(1)] fin b(1) by simp
  moreover have d: "disjoint_blocks (ents(s := ?b))"
    by (rule disjoint_write [OF c(2)]) (use clear b(1,2) in \<open>auto simp: clear_range_def apart_def\<close>)
  moreover have "virt_inv (ents(s := ?b))" by (rule virt_write [OF c(3)]) (simp add: b(3))
  moreover have "fresh_ids (ents(s := ?b)) ((n + 1) mod 2 ^ 32)" by (rule fresh_next [OF c(4) n])
  ultimately show "entries_ok (ents(s := ?b)) ((n + 1) mod 2 ^ 32)" by (simp add: entries_ok_def)
  have np: "\<not> phys_slot ents s" using free by (simp add: phys_slot_def physical_index_def)
  have none: "phys_view ents a = None" if "b_phys_base request \<le> a" "a < b_phys_base request + b_phys_len request" for a
    using clear that unfolding phys_view_None clear_range_def covers_addr_def block_end_def by fastforce
  show "phys_view (ents(s := ?b)) = paint (b_phys_base request) (b_phys_len request) (shade request) (phys_view ents)"
  proof
    fix a
    show "phys_view (ents(s := ?b)) a = paint (b_phys_base request) (b_phys_len request) (shade request) (phys_view ents) a"
      unfolding view_write [OF c(2) d s] using np b(1,2,4,5) none [of a] by (auto simp: paint_def shade_def covers_addr_def block_end_def)
  qed
qed

lemma clear_register:
  assumes "clear_range ents base fin" and "apart request other" and "b_phys_base other = base" "block_end other = fin"
  shows "clear_range (ents(s := block_entry request n)) base fin"
  using assms by (auto simp: clear_range_def phys_slot_def apart_def block_entry_def block_end_def physical_index_def)

lemma writes_ok:
  assumes "idx_inv T" and "entries_ok (entries T) n" and "numbered rs ss n ws n'" and "distinct ss"
    and "\<forall>s \<in> set ss. s < MAX_BLOCKS \<and> \<not> block_active (entries T s)"
    and "\<forall>r \<in> set rs. b_virt_len r = 0 \<and> block_end r \<le> U64_MAX \<and> clear_range (entries T) (b_phys_base r) (block_end r)"
    and "sorted_wrt apart rs"
  shows "\<exists>T'. replace_all ws T = Some T' \<and> idx_inv T' \<and> entries_ok (entries T') n' \<and> initialized T' = initialized T
     \<and> phys_view (entries T') = paint_all rs (phys_view (entries T))"
  using assms
proof (induction rs arbitrary: T n ss ws)
  case Nil
  then show ?case by (auto simp: paint_all_def)
next
  case (Cons r rs)
  obtain s ss' ws' where w: "ss = s # ss'" "n \<noteq> 0" "ws = (s, block_entry r n) # ws'" "numbered rs ss' ((n + 1) mod 2 ^ 32) ws' n'"
    using Cons.prems(3) by auto
  let ?b = "block_entry r n" and ?e = "entries T"
  have s: "s < MAX_BLOCKS" "\<not> block_active (?e s)" "s \<notin> set ss'" using Cons.prems(4,5) w(1) by auto
  have "new_id ?e s ?b" using fresh_new_id w(2) Cons.prems(2) by (simp add: entries_ok_def)
  then obtain T1 where T1: "block_replace s ?b T = Some T1" "idx_inv T1" "entries T1 = ?e(s := ?b)" "initialized T1 = initialized T"
    using block_replace_ok [OF Cons.prems(1) s(1)] by blast
  have r: "b_virt_len r = 0" "block_end r \<le> U64_MAX" "clear_range ?e (b_phys_base r) (block_end r)" using Cons.prems(6) by auto
  note E = register_entries [OF Cons.prems(2) s(1,2) w(2) r]
  have "\<exists>T'. replace_all ws' T1 = Some T' \<and> idx_inv T' \<and> entries_ok (entries T') n' \<and> initialized T' = initialized T1
     \<and> phys_view (entries T') = paint_all rs (phys_view (entries T1))"
  proof (rule Cons.IH [OF T1(2) _ w(4)])
    show "entries_ok (entries T1) ((n + 1) mod 2 ^ 32)" using E(1) T1(3) by simp
    show "distinct ss'" "sorted_wrt apart rs" using Cons.prems(4,7) w(1) by auto
    show "\<forall>s \<in> set ss'. s < MAX_BLOCKS \<and> \<not> block_active (entries T1 s)" using Cons.prems(5) w(1) s(3) T1(3) by auto
    show "\<forall>x \<in> set rs. b_virt_len x = 0 \<and> block_end x \<le> U64_MAX \<and> clear_range (entries T1) (b_phys_base x) (block_end x)"
      using Cons.prems(6,7) clear_register unfolding T1(3) by auto
  qed
  then show ?case using T1 w(3) E(2) by (auto simp: paint_all_def)
qed

section \<open>Free neighbours\<close>

lemma phys_slot_used: "phys_slot ents i \<Longrightarrow> i < MAX_BLOCKS \<and> b_slot_used (ents i)"
  by (auto simp: phys_slot_def physical_index_def block_active_def)

lemma free_left_ok:
  assumes inv: "cat_inv T" and ignore: "ignore \<noteq> 0"
  shows "\<exists>x T'. free_left base ignore T = Some (Inr x, T') \<and> still T T' \<and> side_ok (entries T) ignore (\<lambda>b. block_end b = base) x"
proof -
  let ?e = "entries T"
  have c: "idx_inv T" using inv by (simp add: cat_inv_def)
  obtain low at T1 where p: "predecessor_before base ignore T = Some (at, T1)" "still T T1"
     "greatest ?e (\<lambda>i. b_phys_base (?e i) < base) low"
     "case low of None \<Rightarrow> at = None
        | Some i \<Rightarrow> if ignore \<noteq> 0 \<and> b_id (?e i) = ignore then greatest ?e (\<lambda>x. before ?e x i) at else at = Some i"
    using idx_predecessor_before [OF c] by blast
  have e1: "entries T1 = ?e" using stillD(1) [OF p(2)] .
  have at: "phys_slot ?e i \<and> b_id (?e i) \<noteq> ignore" if i: "at = Some i" for i
  proof -
    obtain l where l: "low = Some l" "phys_slot ?e l" using p(3,4) i by (cases low) (auto simp: greatest_def)
    show ?thesis
    proof (cases "b_id (?e l) = ignore")
      case True
      then have "phys_slot ?e i" "before ?e i l" using p(4) l(1) ignore i by (auto simp: greatest_def)
      moreover from this have "i \<noteq> l" by (auto simp: before_def)
      ultimately show ?thesis
        using idx_inv_unique [OF c] phys_slot_used [OF l(2)] phys_slot_used [of ?e i] True unfolding unique_ids_def by metis
    next
      case False
      then show ?thesis using p(4) l i by simp
    qed
  qed
  show ?thesis
  proof (cases at)
    case None
    then show ?thesis using p(1,2) by (simp add: free_left_def ok_def side_ok_def)
  next
    case (Some i)
    note S = at [OF Some]
    have "free_left base ignore T = Some (Inr (if block_end (?e i) \<noteq> base \<or> \<not> canonical_free (?e i) then None else Some (i, ?e i)), T1)"
      using p(1) Some e1 phys_slot_ends(2) [OF inv, of i] S by (simp add: free_left_def ok_def ok_or_def phys_slot_def split del: if_split cong: if_cong)
    then show ?thesis using p(2) S by (simp add: side_ok_def)
  qed
qed

lemma free_right_ok:
  assumes inv: "cat_inv T"
  shows "\<exists>x T'. free_right fin ignore T = Some (x, T') \<and> still T T' \<and> side_ok (entries T) ignore (\<lambda>b. b_phys_base b = fin) x"
proof -
  let ?e = "entries T"
  have c: "idx_inv T" using inv by (simp add: cat_inv_def)
  obtain nx T1 where 1: "avl_lower_bound fin T = Some (nx, T1)" "still T T1" "least ?e (\<lambda>i. fin \<le> b_phys_base (?e i)) nx"
    using idx_lower_bound [OF c] by blast
  have e1: "entries T1 = ?e" using stillD(1) [OF 1(2)] .
  obtain at T2 where 2: "(case nx of None \<Rightarrow> Some (None, T1)
       | Some index \<Rightarrow> do { b \<leftarrow> index_get MAX_BLOCKS (entries T1) index;
           if b_id b = ignore then avl_successor index T1 else Some (Some index, T1) }) = Some (at, T2)" "still T1 T2"
     "least ?e (\<lambda>i. fin \<le> b_phys_base (?e i) \<and> b_id (?e i) \<noteq> ignore) at"
    using skip_ignored [OF stillD(5) [OF 1(2) c], of fin nx ignore] 1(3) unfolding e1 by blast
  have s2: "still T T2" using still_trans [OF 1(2) 2(2)] .
  have e2: "entries T2 = ?e" using stillD(1) [OF s2] .
  show ?thesis
  proof (cases at)
    case None
    then show ?thesis using 1(1) 2(1) s2 by (simp add: free_right_def side_ok_def)
  next
    case (Some i)
    then have S: "phys_slot ?e i" "b_id (?e i) \<noteq> ignore" using 2(3) by (auto simp: least_def)
    have "free_right fin ignore T = Some (if b_phys_base (?e i) \<noteq> fin \<or> \<not> canonical_free (?e i) then None else Some (i, ?e i), T2)"
      using 1(1) 2(1) Some e2 S by (simp add: free_right_def phys_slot_def split del: if_split cong: if_cong)
    then show ?thesis using s2 S by (simp add: side_ok_def)
  qed
qed

lemma plan_free_merge_ok:
  assumes inv: "cat_inv T" and ignore: "ignore \<noteq> 0" and lt: "base < fin"
  shows "\<exists>lo hi T'. plan_free_merge base fin ignore plan T = Some (Inr (merge_plan lo hi base fin plan), T') \<and> still T T'
     \<and> side_ok (entries T) ignore (\<lambda>b. block_end b = base) lo \<and> side_ok (entries T) ignore (\<lambda>b. b_phys_base b = fin) hi"
proof -
  let ?e = "entries T"
  obtain lo T1 where 1: "free_left base ignore T = Some (Inr lo, T1)" "still T T1" "side_ok ?e ignore (\<lambda>b. block_end b = base) lo"
    using free_left_ok [OF inv ignore] by blast
  have e1: "entries T1 = ?e" using stillD(1) [OF 1(2)] .
  obtain hi T2 where 2: "free_right fin ignore T1 = Some (hi, T2)" "still T1 T2" "side_ok ?e ignore (\<lambda>b. b_phys_base b = fin) hi"
    using free_right_ok [OF stillD(6) [OF 1(2) inv]] unfolding e1 by blast
  have add: "checked_add64 (b_phys_base (?e r)) (b_phys_len (?e r)) = Some (block_end (?e r))" if "phys_slot ?e r" for r
    using phys_slot_ends(2) [OF inv that] .
  have ge: "b_phys_base b \<le> block_end b" for b by (simp add: block_end_def)
  have "plan_free_merge base fin ignore plan T = Some (Inr (merge_plan lo hi base fin plan), T2)"
  proof (cases lo)
    case None
    have "base \<le> block_end (?e r)" if "b_phys_base (?e r) = fin" for r using ge [of "?e r"] lt that by linarith
    then show ?thesis using 1(1) 2(1,3) None add
      by (cases hi) (auto simp: plan_free_merge_def merge_plan_def ok_def ok_or_def side_ok_def checked_sub_def grown_def Let_def)
  next
    case (Some la)
    obtain l a where la: "lo = Some (l, a)" using Some by (cases la) auto
    have a: "phys_slot ?e l" "a = ?e l" "block_end a = base" using 1(3) la by (auto simp: side_ok_def)
    show ?thesis
    proof (cases hi)
      case None
      have "b_phys_base a \<le> fin" using a(3) lt by (simp add: block_end_def)
      then show ?thesis using 1(1) 2(1) la None lt
        by (simp add: plan_free_merge_def merge_plan_def ok_def ok_or_def checked_sub_def grown_def Let_def)
    next
      case (Some rb)
      obtain r b where rb: "hi = Some (r, b)" using Some by (cases rb) auto
      have b: "phys_slot ?e r" "b = ?e r" "b_phys_base b = fin" using 2(3) rb by (auto simp: side_ok_def)
      have "l \<noteq> r" using a b lt by (auto simp: block_end_def)
      moreover have "b_phys_base a \<le> block_end b" using a(3) b(3) lt by (auto simp: block_end_def)
      moreover have "checked_add64 (b_phys_base b) (b_phys_len b) = Some (block_end b)" using add [OF b(1)] b(2) by simp
      ultimately show ?thesis using 1(1) 2(1) la rb
        by (simp add: plan_free_merge_def merge_plan_def ok_def ok_or_def checked_sub_def grown_def Let_def)
    qed
  qed
  then show ?thesis using 1(3) 2(3) still_trans [OF 1(2) 2(2)] by blast
qed

section \<open>Planned outputs\<close>

lemma plan_outputs_ok:
  assumes "cat_inv T" and "length free = length acc + length rs"
  shows "\<exists>res T'. plan_outputs rs free ignore n acc T = Some (res, T') \<and> still T T'
     \<and> (case res of Inl e \<Rightarrow> e \<noteq> TableFull | Inr (ws, n') \<Rightarrow> \<exists>ws'. ws = acc @ ws' \<and> numbered rs (drop (length acc) free) n ws' n')"
  using assms
proof (induction rs arbitrary: n acc T)
  case Nil
  then show ?case by (simp add: ok_def)
next
  case (Cons r rs)
  show ?case
  proof (cases "validate r")
    case (Inl e)
    then have "e \<noteq> TableFull" by (auto simp: validate_def validate_bytes_def split: if_splits)
    then show ?thesis using Inl by (simp add: check_cases)
  next
    case (Inr u)
    obtain over T1 where o: "block_overlaps (b_phys_base r) (b_phys_len r) True ignore T = Some (over, T1)" "still T T1"
      using block_overlaps_ok(1) [OF Cons.prems(1)] by blast
    have c1: "cat_inv T1" using stillD(6) [OF o(2) Cons.prems(1)] .
    show ?thesis
    proof (cases "over \<or> n = 0")
      case True
      then show ?thesis using Inr o by (auto simp: check_cases err_def ok_or_def take_id_def)
    next
      case False
      let ?w = "(free ! length acc, block_entry r n)" and ?n = "(n + 1) mod 2 ^ 32"
      obtain res T' where r: "plan_outputs rs free ignore ?n (acc @ [?w]) T1 = Some (res, T')" "still T1 T'"
         "case res of Inl e \<Rightarrow> e \<noteq> TableFull
          | Inr (ws, n') \<Rightarrow> \<exists>ws'. ws = (acc @ [?w]) @ ws' \<and> numbered rs (drop (length (acc @ [?w])) free) ?n ws' n'"
        using Cons.IH [OF c1, of "acc @ [?w]" ?n] Cons.prems(2) by auto
      have run: "plan_outputs (r # rs) free ignore n acc T = Some (res, T')" using Inr o(1) False r(1)
        by (simp add: check_cases ok_or_def take_id_def)
      have d: "drop (length acc) free = free ! length acc # drop (Suc (length acc)) free" using Cons.prems(2) by (simp add: Cons_nth_drop_Suc)
      show ?thesis
      proof (cases res)
        case (Inl e)
        then show ?thesis using run r(2,3) still_trans [OF o(2)] by auto
      next
        case (Inr p)
        obtain ws n' where p: "p = (ws, n')" by (cases p)
        obtain ws' where "ws = acc @ ?w # ws'" "numbered rs (drop (Suc (length acc)) free) ?n ws' n'" using r(3) Inr p by auto
        then have "\<exists>ws'. ws = acc @ ws' \<and> numbered (r # rs) (drop (length acc) free) n ws' n'" using False d by auto
        then show ?thesis using run r(2) Inr p still_trans [OF o(2)] by auto
      qed
    qed
  qed
qed

section \<open>Freeing a range\<close>

lemma free_mate:
  assumes "phys_slot ents i" and "canonical_free (ents i)" and "block_end (ents i) = base \<or> b_phys_base (ents i) = base + len"
  shows "mate ents (free_request base len) i"
proof -
  have "b_phys_len (ents i) \<noteq> 0" using assms(1) physical_len by (simp add: phys_slot_def)
  then have "merge_compatible (ents i) (free_request base len)"
    using assms(2) by (simp add: merge_compatible_def canonical_free_def free_request_def block_physical_def REQUEST_def)
  then show ?thesis using assms(1,3) unfolding mate_def left_mate_def right_mate_def free_request_facts by blast
qed

lemma grown_shape:
  assumes "block_end b = base \<and> lo = b_phys_base b \<and> hi = base + len \<or> b_phys_base b = base + len \<and> lo = base \<and> hi = block_end b"
  shows "same_shape (merged_into b (free_request base len)) (grown b lo hi)"
  using assms
proof (elim disjE conjE)
  assume a: "block_end b = base" "lo = b_phys_base b" "hi = base + len"
  show ?thesis unfolding same_shape_def merged_into_def grown_def free_request_facts a(2,3) using a(1)
    by (cases b) (simp add: block_end_def)
next
  assume a: "b_phys_base b = base + len" "lo = base" "hi = block_end b"
  show ?thesis unfolding same_shape_def merged_into_def grown_def free_request_facts a(2,3) using a(1)
    by (cases b) (simp add: block_end_def)
qed

lemma free_merge_entries:
  assumes ok: "entries_ok ents n" and i: "phys_slot ents i" "canonical_free (ents i)"
    and geo: "block_end (ents i) = base \<and> lo = b_phys_base (ents i) \<and> hi = base + len
      \<or> b_phys_base (ents i) = base + len \<and> lo = base \<and> hi = block_end (ents i)"
    and fin: "base + len \<le> U64_MAX" and clear: "clear_range ents base (base + len)"
  shows "entries_ok (ents(i := grown (ents i) lo hi)) n"
    "phys_view (ents(i := grown (ents i) lo hi)) = paint base len (Some free_attr) (phys_view ents)"
proof -
  let ?r = "free_request base len"
  have m: "mate ents ?r i" using free_mate [OF i] geo by blast
  have lt: "i < MAX_BLOCKS" using i(1) by (simp add: phys_slot_def)
  have f: "block_end ?r \<le> U64_MAX" "clear_range ents (b_phys_base ?r) (block_end ?r)" using fin clear by (auto simp: free_request_facts)
  note M = merge_entries [OF ok m f] and S = shape_entries [OF grown_shape [OF geo] _ lt]
  show "entries_ok (ents(i := grown (ents i) lo hi)) n" using S(1) M(1) by blast
  show "phys_view (ents(i := grown (ents i) lo hi)) = paint base len (Some free_attr) (phys_view ents)"
    using S(2) [OF M(1)] M(2) by (simp add: free_request_facts)
qed

text \<open>A free neighbour: its slot, that it is another block, and that it lies outside the target.\<close>

lemma side_facts:
  assumes ok: "entries_ok ents n" and i: "phys_slot ents i" and side: "side_ok ents (b_id (ents i)) P (Some (j, b))"
  shows "phys_slot ents j" "b = ents j" "canonical_free b" "P b" "j \<noteq> i" "block_end b \<le> b_phys_base (ents i) \<or> block_end (ents i) \<le> b_phys_base b"
    "b_phys_len b \<noteq> 0"
proof -
  show s: "phys_slot ents j" "b = ents j" "canonical_free b" "P b" "j \<noteq> i" using side by (auto simp: side_ok_def)
  have "disjoint_blocks ents" using ok by (simp add: entries_ok_def)
  then show "block_end b \<le> b_phys_base (ents i) \<or> block_end (ents i) \<le> b_phys_base b"
    using s i by (auto simp: disjoint_blocks_def phys_slot_def apart_def)
  show "b_phys_len b \<noteq> 0" using s(1,2) physical_len by (auto simp: phys_slot_def)
qed

lemma release_slot: "phys_slot (ents(i := released b)) j \<longleftrightarrow> j \<noteq> i \<and> phys_slot ents j"
  by (auto simp: phys_slot_def released_facts)

text \<open>The range of a released target is clear, and so is what lies between it and the end of its right neighbour.\<close>

lemma target_apart:
  assumes "entries_ok ents n" and "phys_slot ents i" and "phys_slot ents j" and "j \<noteq> i"
  shows "block_end (ents j) \<le> b_phys_base (ents i) \<or> block_end (ents i) \<le> b_phys_base (ents j)"
  using assms by (auto simp: entries_ok_def disjoint_blocks_def phys_slot_def apart_def)

lemma entries_fit: "entries_ok ents n \<Longrightarrow> phys_slot ents j \<Longrightarrow> block_end (ents j) \<le> U64_MAX"
  by (simp add: entries_ok_def fits_def phys_slot_def)

lemma freed_both:
  assumes ok: "entries_ok ents n" and i: "phys_slot ents i" and base: "b_phys_base (ents i) \<le> base" "base + len \<le> block_end (ents i)"
    and lo: "side_ok ents (b_id (ents i)) (\<lambda>b. block_end b = base) (Some (l, a))"
    and hi: "side_ok ents (b_id (ents i)) (\<lambda>b. b_phys_base b = base + len) (Some (r, b))"
    and E: "entries_ok (ents(i := released (ents i))) n" "phys_view (ents(i := released (ents i))) = blanked ents i"
  shows "entries_ok (freed ents i (Some (l, a)) (Some (r, b)) base (base + len)) n"
    "phys_view (freed ents i (Some (l, a)) (Some (r, b)) base (base + len)) = paint base len (Some free_attr) (blanked ents i)"
proof -
  let ?e = "ents(i := released (ents i))"
  note L = side_facts [OF ok i lo] and R = side_facts [OF ok i hi]
  let ?f = "?e(r := released b)" and ?len = "block_end b - base"
  have ne: "l \<noteq> r" using L(2,4,7) R(2,4) by (auto simp: block_end_def)
  have le: "base + len \<le> block_end b" using R(4) by (simp add: block_end_def)
  have ge: "base + ?len = block_end b" using R(4) by (simp add: block_end_def)
  have er: "phys_slot ?e r" "?e r = b" "r < MAX_BLOCKS" using R(1,2,5) by (auto simp: release_slot phys_slot_def)
  have F: "entries_ok ?f n" "phys_view ?f = (\<lambda>a. if covers_addr b a then None else blanked ents i a)"
    using release_entries [OF E(1) er(3)] er E(2) by auto
  have fl: "phys_slot ?f l" "?f l = a" using L(1,2,5) ne by (auto simp: release_slot)
  have "clear_range ?f base (base + ?len)"
    unfolding clear_range_def release_slot ge
  proof (intro allI impI)
    fix j assume j: "j \<noteq> r \<and> j \<noteq> i \<and> phys_slot ents j"
    then have "b_phys_len (ents j) \<noteq> 0" using physical_len by (auto simp: phys_slot_def)
    then show "block_end (?f j) \<le> base \<or> block_end b \<le> b_phys_base (?f j)"
      using target_apart [OF ok i, of j] target_apart [OF ok R(1), of j] j base R(2,4) by (auto simp: block_end_def)
  qed
  then have X: "entries_ok (?f(l := grown a (b_phys_base a) (block_end b))) n"
     "phys_view (?f(l := grown a (b_phys_base a) (block_end b))) = paint base ?len (Some free_attr) (phys_view ?f)"
    using free_merge_entries [OF F(1) fl(1), of base "b_phys_base a" "block_end b" ?len] fl(2) L(3,4) ge entries_fit [OF ok R(1)] R(2) by auto
  have w: "freed ents i (Some (l, a)) (Some (r, b)) base (base + len) = ?f(l := grown a (b_phys_base a) (block_end b))"
    using ne by (simp add: freed_def fun_upd_twist)
  have vb: "blanked ents i x = Some free_attr" if "covers_addr b x" for x
  proof -
    have "\<not> covers_addr (ents i) x" using that target_apart [OF ok i R(1,5)] R(2) by (auto simp: covers_addr_def)
    moreover have "phys_view ents x = Some (attr b)" using phys_view_Some [of ents] ok R(1,2) that by (auto simp: entries_ok_def)
    ultimately show ?thesis using canonical_attr [OF R(3)] by (simp add: blanked_def)
  qed
  have "paint base ?len (Some free_attr) (phys_view ?f) = paint base len (Some free_attr) (blanked ents i)"
    unfolding F(2) paint_def ge fun_eq_iff using vb R(4) le by (auto simp: covers_addr_def)
  then show "entries_ok (freed ents i (Some (l, a)) (Some (r, b)) base (base + len)) n"
    "phys_view (freed ents i (Some (l, a)) (Some (r, b)) base (base + len)) = paint base len (Some free_attr) (blanked ents i)"
    using X w by simp_all
qed

lemma freed_entries:
  assumes ok: "entries_ok ents n" and i: "phys_slot ents i" and base: "b_phys_base (ents i) \<le> base" "base + len \<le> block_end (ents i)" "len \<noteq> 0"
    and lo: "side_ok ents (b_id (ents i)) (\<lambda>b. block_end b = base) lo" and hi: "side_ok ents (b_id (ents i)) (\<lambda>b. b_phys_base b = base + len) hi"
  shows "entries_ok (freed ents i lo hi base (base + len)) n"
    "phys_view (freed ents i lo hi base (base + len)) = (if lo = None \<and> hi = None then blanked ents i
       else paint base len (Some free_attr) (blanked ents i))"
proof -
  let ?e = "ents(i := released (ents i))"
  have lt: "i < MAX_BLOCKS" using i by (simp add: phys_slot_def)
  have fin: "base + len \<le> U64_MAX" using entries_fit [OF ok i] base(2) by simp
  have E: "entries_ok ?e n" "phys_view ?e = blanked ents i" using release_entries [OF ok lt] i by (auto simp: blanked_def fun_eq_iff)
  have clear: "clear_range ?e base (base + len)"
    using target_apart [OF ok i] base unfolding clear_range_def release_slot by (metis dual_order.trans fun_upd_apply)
  have one: "entries_ok (?e(j := grown b x y)) n \<and> phys_view (?e(j := grown b x y)) = paint base len (Some free_attr) (blanked ents i)"
    if s: "side_ok ents (b_id (ents i)) P (Some (j, b))"
      and g: "block_end b = base \<and> x = b_phys_base b \<and> y = base + len \<or> b_phys_base b = base + len \<and> x = base \<and> y = block_end b" for P j b x y
  proof -
    note S = side_facts [OF ok i s]
    have e: "phys_slot ?e j" "?e j = b" using S(1,2,5) by (auto simp: release_slot)
    show ?thesis using free_merge_entries [OF E(1) e(1), of base x y len] e(2) S(3) g fin clear E(2) by simp
  qed
  consider "lo = None" "hi = None" | r b where "lo = None" "hi = Some (r, b)" | l a where "lo = Some (l, a)" "hi = None"
    | l a r b where "lo = Some (l, a)" "hi = Some (r, b)" by (cases lo; cases hi) auto
  then have "entries_ok (freed ents i lo hi base (base + len)) n \<and> phys_view (freed ents i lo hi base (base + len)) =
     (if lo = None \<and> hi = None then blanked ents i else paint base len (Some free_attr) (blanked ents i))"
  proof cases
    case 1
    then show ?thesis using E by (simp add: freed_def)
  next
    case 2
    then show ?thesis using one [OF hi [unfolded 2(2)], of base "block_end b"] side_facts(4) [OF ok i hi [unfolded 2(2)]] by (simp add: freed_def)
  next
    case 3
    then show ?thesis using one [OF lo [unfolded 3(1)], of "b_phys_base a" "base + len"] side_facts(4) [OF ok i lo [unfolded 3(1)]]
      by (simp add: freed_def)
  next
    case 4
    then show ?thesis using freed_both [OF ok i base(1,2) lo [unfolded 4(1)] hi [unfolded 4(2)] E] by simp
  qed
  then show "entries_ok (freed ents i lo hi base (base + len)) n" "phys_view (freed ents i lo hi base (base + len)) =
     (if lo = None \<and> hi = None then blanked ents i else paint base len (Some free_attr) (blanked ents i))" by auto
qed

section \<open>Carrying out a plan\<close>

lemma replace_same_id:
  assumes "idx_inv T" and "i < MAX_BLOCKS" and "b_id e = b_id (entries T i)" and "b_slot_used e = b_slot_used (entries T i)"
  shows "\<exists>T'. block_replace i e T = Some T' \<and> idx_inv T' \<and> entries T' = (entries T)(i := e)
     \<and> bt_next_id T' = bt_next_id T \<and> initialized T' = initialized T"
  using block_replace_ok [OF assms(1,2)] same_id_new [OF idx_inv_unique [OF assms(1)] assms(2-4)] by blast

lemma finish_release_eq: "finish_release plan coalesce T = do {
     T3 \<leftarrow> merge_steps plan T;
     T4 \<leftarrow> replace_all (plan_writes plan) T3;
     let T5 = T4\<lparr>bt_next_id := next_id_after plan\<rparr>;
     if coalesce then block_coalesce T5 else Some T5
   }"
  by (simp add: finish_release_def merge_steps_def)

lemma grown_ids: "b_id (grown b x y) = b_id b" "b_slot_used (grown b x y) = b_slot_used b"
  by (simp_all add: grown_def)

lemma merge_steps_ok:
  assumes inv: "idx_inv T" and ok: "entries_ok (entries T) n" and i: "phys_slot (entries T) i" and lt: "base < fin"
    and lo: "side_ok (entries T) (b_id (entries T i)) (\<lambda>b. block_end b = base) lo"
    and hi: "side_ok (entries T) (b_id (entries T i)) (\<lambda>b. b_phys_base b = fin) hi"
    and plan: "merge_primary plan = None" "merge_secondary plan = None" "target_index plan = i" "target_released plan = released (entries T i)"
  shows "\<exists>T'. merge_steps (merge_plan lo hi base fin plan) T = Some T' \<and> idx_inv T' \<and> entries T' = freed (entries T) i lo hi base fin
     \<and> initialized T' = initialized T"
proof -
  let ?e = "entries T"
  have ilt: "i < MAX_BLOCKS" using i by (simp add: phys_slot_def)
  obtain T1 where T1: "block_replace i (released (?e i)) T = Some T1" "idx_inv T1" "entries T1 = ?e(i := released (?e i))"
     "initialized T1 = initialized T" using replace_same_id [OF inv ilt, of "released (?e i)"] by (auto simp: released_facts)
  have step: "\<exists>T2. block_replace j (grown b x y) T1 = Some T2 \<and> idx_inv T2 \<and> entries T2 = (entries T1)(j := grown b x y) \<and> initialized T2 = initialized T"
    if "phys_slot ?e j" "b = ?e j" "j \<noteq> i" for j b x y
    using replace_same_id [OF T1(2), of j "grown b x y"] that T1(3,4) by (auto simp: grown_ids phys_slot_def)
  have tgt: "target_index (merge_plan lo hi base fin plan) = i" "target_released (merge_plan lo hi base fin plan) = released (?e i)"
    using plan(3,4) by (auto simp: merge_plan_def split: option.splits)
  show ?thesis
  proof (cases lo)
    case None
    show ?thesis
    proof (cases hi)
      case h: None
      then show ?thesis using None T1 tgt plan by (simp add: merge_steps_def merge_plan_def freed_def)
    next
      case (Some p)
      obtain r b where p: "hi = Some (r, b)" using Some by (cases p) auto
      note R = side_facts [OF ok i hi [unfolded p]]
      show ?thesis using step [OF R(1,2,5), of base "block_end b"] None p T1 tgt by (auto simp: merge_steps_def merge_plan_def freed_def)
    qed
  next
    case (Some q)
    obtain l a where q: "lo = Some (l, a)" using Some by (cases q) auto
    note L = side_facts [OF ok i lo [unfolded q]]
    show ?thesis
    proof (cases hi)
      case None
      show ?thesis using step [OF L(1,2,5), of "b_phys_base a" fin] None q T1 tgt by (auto simp: merge_steps_def merge_plan_def freed_def)
    next
      case (Some p)
      obtain r b where p: "hi = Some (r, b)" using Some by (cases p) auto
      note R = side_facts [OF ok i hi [unfolded p]]
      have ne: "l \<noteq> r" using L(2,4) R(2,4) lt by (auto simp: block_end_def)
      obtain T2 where T2: "block_replace l (grown a (b_phys_base a) (block_end b)) T1 = Some T2" "idx_inv T2"
         "entries T2 = (entries T1)(l := grown a (b_phys_base a) (block_end b))" "initialized T2 = initialized T"
        using step [OF L(1,2,5)] by blast
      have er: "entries T2 r = b" "r < MAX_BLOCKS" using T1(3) T2(3) ne R(1,2,5) by (auto simp: phys_slot_def)
      then show ?thesis using replace_same_id [OF T2(2), of r "released b"] T1 T2 p q tgt
        by (auto simp: merge_steps_def merge_plan_def freed_def released_facts)
    qed
  qed
qed

lemma paint_empty [simp]: "paint base 0 v m = m"
  by (rule ext) (auto simp: paint_def)

lemma release_requests_paint:
  assumes "shade b = Some (attr b)"
  shows "paint_all (release_requests b base len n m alone) V =
     (if alone then paint base len (Some free_attr) else (\<lambda>V. V)) (paint (base + len) m (Some (attr b)) (paint (b_phys_base b) n (Some (attr b)) V))"
  using assms by (auto simp: paint_all_def release_requests_def part_request_facts free_request_facts)

lemma part_request_virt: "b_virt_len (part_request b base len) = 0" "b_virt_len (free_request base len) = 0"
  by (simp_all add: part_request_def free_request_def block_physical_def REQUEST_def BLOCK_EMPTY_def)

lemma release_requests_apart:
  assumes "b_phys_base b + n = base" and "len \<noteq> 0"
  shows "sorted_wrt apart (release_requests b base len n m alone)"
  using assms by (auto simp: release_requests_def apart_def part_request_facts free_request_facts)

lemma release_requests_each:
  assumes "r \<in> set (release_requests b base len n m alone)" and "b_phys_base b + n = base" and "base + len + m = block_end b" and "len \<noteq> 0"
  shows "b_virt_len r = 0" "block_end r \<le> block_end b" "b_phys_base b \<le> b_phys_base r" "b_phys_base r < block_end r"
    "\<not> alone \<Longrightarrow> block_end r \<le> base \<or> base + len \<le> b_phys_base r"
  using assms by (auto simp: release_requests_def part_request_facts free_request_facts part_request_virt split: if_splits)

lemma freed_slot:
  assumes ok: "entries_ok ents n" and i: "phys_slot ents i"
    and lo: "side_ok ents (b_id (ents i)) P lo" and hi: "side_ok ents (b_id (ents i)) Q hi"
    and s: "s = i \<or> s < MAX_BLOCKS \<and> reusable_entry (ents s)"
  shows "s < MAX_BLOCKS \<and> \<not> block_active (freed ents i lo hi base fin s)"
proof -
  have other: "s \<noteq> j" if "side_ok ents (b_id (ents i)) R (Some (j, b))" for j b R
  proof -
    note S = side_facts [OF ok i that]
    have "\<not> reusable_entry (ents j)" using S(1) reusable_not_physical by (auto simp: phys_slot_def)
    then show ?thesis using s S(5) by blast
  qed
  have "freed ents i lo hi base fin s = (ents(i := released (ents i))) s"
    using lo hi other by (fastforce simp: freed_def Let_def split: option.splits)
  then show ?thesis using s i reusable_not_physical by (auto simp: phys_slot_def released_facts)
qed

lemma finish_release_ok:
  assumes ok: "entries_ok (entries T) k" and inv: "idx_inv T" and i: "phys_slot (entries T) i"
    and geo: "b_phys_base (entries T i) + n = base" "base + len + m = block_end (entries T i)" "len \<noteq> 0"
    and lo: "side_ok (entries T) (b_id (entries T i)) (\<lambda>b. block_end b = base) lo"
    and hi: "side_ok (entries T) (b_id (entries T i)) (\<lambda>b. b_phys_base b = base + len) hi"
    and ws: "numbered (release_requests (entries T i) base len n m (lo = None \<and> hi = None)) ss k ws k'" "distinct ss"
    and ss: "\<forall>s \<in> set ss. s = i \<or> s < MAX_BLOCKS \<and> reusable_entry (entries T s)"
    and plan: "plan = (merge_plan lo hi base (base + len) (plan_new i (entries T i) k))\<lparr>plan_writes := ws, next_id_after := k'\<rparr>"
  shows "\<exists>T'. finish_release plan c T = Some T' \<and> cat_inv T' \<and> initialized T' = initialized T
     \<and> phys_view (entries T') = paint base len (Some free_attr) (phys_view (entries T))"
proof -
  let ?e = "entries T" and ?b = "entries T i" and ?alone = "lo = None \<and> hi = None"
  let ?f = "freed ?e i lo hi base (base + len)" and ?rs = "release_requests ?b base len n m ?alone"
  have b: "b_phys_base ?b \<le> base" "base + len \<le> block_end ?b" using geo by auto
  note F = freed_entries [OF ok i b geo(3) lo hi]
  have lt: "base < base + len" using geo(3) by simp
  obtain T1 where T1: "merge_steps (merge_plan lo hi base (base + len) (plan_new i ?b k)) T = Some T1" "idx_inv T1" "entries T1 = ?f"
     "initialized T1 = initialized T" using merge_steps_ok [OF inv ok i lt lo hi, of "plan_new i ?b k"] by (auto simp: plan_new_def)
  have steps: "merge_steps plan T = Some T1" "plan_writes plan = ws" "next_id_after plan = k'"
    using T1(1) plan by (auto simp: merge_steps_def)
  have none: "phys_view ?f a = None" if "b_phys_base ?b \<le> a" "a < block_end ?b" "?alone \<or> a < base \<or> base + len \<le> a" for a
    using that unfolding F(2) by (auto simp: blanked_def covers_addr_def paint_def)
  have sh: "shade ?b = Some (attr ?b)" using i by (auto simp: phys_slot_def shade_def physical_index_def block_active_def)
  have d: "disjoint_blocks ?f" using F(1) by (simp add: entries_ok_def)
  have top: "block_end ?b \<le> U64_MAX" using ok i by (simp add: entries_ok_def fits_def phys_slot_def)
  have req: "b_virt_len r = 0 \<and> block_end r \<le> U64_MAX \<and> clear_range (entries T1) (b_phys_base r) (block_end r)" if r: "r \<in> set ?rs" for r
  proof -
    note R = release_requests_each [OF r geo]
    have "?alone \<or> a < base \<or> base + len \<le> a" if "b_phys_base r \<le> a" "a < block_end r" for a
      using R(5) that by (cases ?alone) auto
    then have "clear_range ?f (b_phys_base r) (block_end r)"
      using R(2,3) none by (intro clear_view [OF d R(4)]) auto
    then show ?thesis using R(1,2) top T1(3) by simp
  qed
  have slot: "s < MAX_BLOCKS \<and> \<not> block_active (entries T1 s)" if "s \<in> set ss" for s
    using freed_slot [OF ok i lo hi] ss that i unfolding T1(3) by blast
  obtain T2 where T2: "replace_all ws T1 = Some T2" "idx_inv T2" "entries_ok (entries T2) k'" "initialized T2 = initialized T1"
     "phys_view (entries T2) = paint_all ?rs (phys_view (entries T1))"
    using writes_ok [OF T1(2) _ ws] F(1) req slot release_requests_apart [OF geo(1,3)] T1(3) by auto
  let ?T = "T2\<lparr>bt_next_id := k'\<rparr>"
  have inv': "cat_inv ?T" using T2(2,3) by (simp add: cat_inv_entries)
  have view: "phys_view (entries T2) = paint base len (Some free_attr) (phys_view ?e)"
  proof
    fix a
    have "phys_view ?e a = Some (attr ?b)" if "covers_addr ?b a" using phys_view_Some [of ?e] ok i that by (auto simp: entries_ok_def)
    then show "phys_view (entries T2) a = paint base len (Some free_attr) (phys_view ?e) a"
      unfolding T2(5) T1(3) F(2) release_requests_paint [OF sh] using geo
      by (cases ?alone) (auto simp: paint_def blanked_def covers_addr_def)
  qed
  show ?thesis
  proof (cases c)
    case True
    obtain T3 where "block_coalesce ?T = Some T3" "coalesced ?T T3" using block_coalesce_ok [OF inv'] by blast
    then show ?thesis using True steps T2 T1(4) view by (simp add: finish_release_eq coalesced_def)
  next
    case False
    then show ?thesis using steps T2 T1(4) view inv' by (simp add: finish_release_eq)
  qed
qed

section \<open>Making a plan\<close>

lemma merge_plan_alone: "merge_primary plan = None \<Longrightarrow> merge_primary (merge_plan lo hi base fin plan) = None \<longleftrightarrow> lo = None \<and> hi = None"
  by (auto simp: merge_plan_def split: option.splits)

lemma plan_new_primary: "merge_primary (plan_new i b k) = None"
  by (simp add: plan_new_def)

text \<open>The slots a plan writes to: the target's own slot first, then reusable ones.\<close>

lemma plan_slots_ok:
  assumes inv: "cat_inv T" and i: "phys_slot (entries T) i"
  shows "\<exists>ss T'. collect_slots (if rs \<noteq> [] then [i] else []) (length rs) i T = (ss, T') \<and> still T T' \<and> distinct ss
     \<and> (\<forall>s \<in> set ss. s = i \<or> s < MAX_BLOCKS \<and> reusable_entry (entries T s))"
proof -
  let ?acc = "if rs \<noteq> [] then [i] else []"
  obtain ys T' where y: "collect_slots ?acc (length rs) i T = (?acc @ ys, T')" "T' = T\<lparr>hot := hot T'\<rparr>"
     "physical_step_max (hot T') = physical_step_max (hot T)" "distinct ys" "\<forall>y \<in> set ys. y \<noteq> i \<and> y < MAX_BLOCKS \<and> slot_free T y"
    using collect_slots_ok [of ?acc "length rs" i T] by blast
  have "still T T'" by (rule still_hot [OF y(2)]) (simp add: low_steps_def y(3))
  moreover have "distinct (?acc @ ys)" using y(4,5) by auto
  moreover have "\<forall>s \<in> set (?acc @ ys). s = i \<or> s < MAX_BLOCKS \<and> reusable_entry (entries T s)"
    using y(5) idx_slot_free [of T] inv by (auto simp: cat_inv_def)
  ultimately show ?thesis using y(1) by blast
qed

lemma build_rest_eq:
  "build_rest i b base len (base + len) n m plan T2 =
     (let rs = release_requests b base len n m (merge_primary plan = None); (ss, T3) = collect_slots (if rs \<noteq> [] then [i] else []) (length rs) i T2
      in if length ss \<noteq> length rs then err TableFull T3
         else andthen (plan_outputs rs ss (b_id b) (bt_next_id T3) [] T3) (\<lambda>(writes, next1) T4.
           ok (plan\<lparr>plan_writes := writes, next_id_after := next1\<rparr>) T4))"
  by (simp only: build_rest_def release_requests_def)

lemma build_release_found:
  assumes "checked_add64 base len = Some fin" and "len \<noteq> 0" and "block_containing base len False T = Some (Some i, T1)"
    and "i < MAX_BLOCKS" and "b = entries T1 i" and "b_virt_len b = 0" "b_kind b \<noteq> FREE_KIND" "b_status b \<noteq> FREE"
    and "checked_add64 (b_phys_base b) (b_phys_len b) = Some e" and "sub_unsigned base (b_phys_base b) = Some n" and "sub_unsigned e fin = Some m"
    and "plan_free_merge base fin (b_id b) (plan_new i b (bt_next_id T1)) T1 = Some (Inr plan, T2)"
  shows "build_release base len T = build_rest i b base len fin n m plan T2"
  using assms by (simp add: build_release_def build_rest_def ok_or_def)

text \<open>The steps of a preparation once the target is found.\<close>

lemma build_release_steps:
  assumes inv: "cat_inv T" and add: "checked_add64 base len = Some (base + len)" "len \<noteq> 0"
    and at: "block_containing base len False T = Some (Some i, T1)" "still T T1" and h: "holds_range (entries T) False base (base + len) i"
    and b: "b_virt_len (entries T i) = 0"
  shows "\<exists>n m lo hi T2 ss T3. b_phys_base (entries T i) + n = base \<and> base + len + m = block_end (entries T i)
     \<and> side_ok (entries T) (b_id (entries T i)) (\<lambda>b. block_end b = base) lo
     \<and> side_ok (entries T) (b_id (entries T i)) (\<lambda>b. b_phys_base b = base + len) hi
     \<and> (let rs = release_requests (entries T i) base len n m (lo = None \<and> hi = None) in
          still T T2 \<and> collect_slots (if rs \<noteq> [] then [i] else []) (length rs) i T2 = (ss, T3) \<and> still T T3 \<and> distinct ss
          \<and> (\<forall>s \<in> set ss. s = i \<or> s < MAX_BLOCKS \<and> reusable_entry (entries T s))
          \<and> build_release base len T = (if length ss \<noteq> length rs then err TableFull T3
               else andthen (plan_outputs rs ss (b_id (entries T i)) (bt_next_id T) [] T3) (\<lambda>(writes, next1) T4.
                 ok ((merge_plan lo hi base (base + len) (plan_new i (entries T i) (bt_next_id T)))
                   \<lparr>plan_writes := writes, next_id_after := next1\<rparr>) T4)))"
proof -
  let ?e = "entries T" and ?b = "entries T i"
  note c1 = stillD(6) [OF at(2) inv] and e1 = stillD(1) [OF at(2)]
  have ps: "phys_slot ?e i" and geo: "b_phys_base ?b \<le> base" "base + len \<le> block_end ?b" and kind: "b_kind ?b \<noteq> FREE_KIND" "b_status ?b \<noteq> FREE"
    using h by (auto simp: holds_range_def usable_def)
  note ends = phys_slot_ends [OF inv ps]
  have lt: "i < MAX_BLOCKS" using ps by (simp add: phys_slot_def)
  obtain n where n: "sub_unsigned base (b_phys_base ?b) = Some n" "b_phys_base ?b + n = base" using sub_unsigned_split [OF geo(1)] by blast
  obtain m where m: "sub_unsigned (block_end ?b) (base + len) = Some m" "base + len + m = block_end ?b"
    using sub_unsigned_split [OF geo(2)] by blast
  have ig: "b_id ?b \<noteq> 0" using inv phys_slot_used [OF ps] by (auto simp: cat_inv_def fresh_ids_def)
  let ?p = "plan_new i ?b (bt_next_id T)"
  obtain lo hi T2 where 2: "plan_free_merge base (base + len) (b_id ?b) ?p T1 = Some (Inr (merge_plan lo hi base (base + len) ?p), T2)"
     "still T1 T2" "side_ok ?e (b_id ?b) (\<lambda>b. block_end b = base) lo" "side_ok ?e (b_id ?b) (\<lambda>b. b_phys_base b = base + len) hi"
    using plan_free_merge_ok [OF c1 ig, of base "base + len" ?p] add(2) unfolding e1 by auto
  note s2 = still_trans [OF at(2) 2(2)]
  note c2 = stillD(6) [OF s2 inv] and e2 = stillD(1) [OF s2] and k1 = stillD(2) [OF at(2)]
  let ?rs = "release_requests ?b base len n m (lo = None \<and> hi = None)"
  obtain ss T3 where 3: "collect_slots (if ?rs \<noteq> [] then [i] else []) (length ?rs) i T2 = (ss, T3)" "still T2 T3" "distinct ss"
     "\<forall>s \<in> set ss. s = i \<or> s < MAX_BLOCKS \<and> reusable_entry (?e s)"
    using plan_slots_ok [OF c2, of i ?rs] ps unfolding e2 by blast
  note s3 = still_trans [OF s2 3(2)]
  note k3 = stillD(2) [OF s3]
  have "build_release base len T = build_rest i ?b base len (base + len) n m (merge_plan lo hi base (base + len) ?p) T2"
    by (rule build_release_found [OF add at(1) lt _ b kind ends(2) n(1) m(1)]) (use e1 k1 2(1) in simp_all)
  then have "build_release base len T = (if length ss \<noteq> length ?rs then err TableFull T3
     else andthen (plan_outputs ?rs ss (b_id ?b) (bt_next_id T) [] T3) (\<lambda>(writes, next1) T4.
       ok ((merge_plan lo hi base (base + len) ?p)\<lparr>plan_writes := writes, next_id_after := next1\<rparr>) T4))"
    unfolding build_rest_eq merge_plan_alone [OF plan_new_primary] Let_def 3(1) prod.case k3 .
  then show ?thesis unfolding Let_def using n(2) m(2) 2(3,4) s2 3(1,3,4) s3 by blast
qed

lemma build_release_ok:
  assumes inv: "cat_inv T"
  shows "\<exists>r T'. build_release base len T = Some (r, T') \<and> still T T'
     \<and> (case r of Inl _ \<Rightarrow> True | Inr plan \<Rightarrow> (\<exists>i. holds_range (entries T) False base (base + len) i) \<and> plan_ready T base len plan)"
proof (cases "len = 0 \<or> checked_add64 base len = None")
  case True
  then show ?thesis by (auto simp: build_release_def err_def ok_or_def)
next
  case False
  let ?e = "entries T" and ?k = "bt_next_id T"
  have add: "checked_add64 base len = Some (base + len)" "len \<noteq> 0" using False by (auto simp: checked_add64_def split: if_splits)
  obtain at T1 where 1: "block_containing base len False T = Some (at, T1)" "still T T1"
     "case at of None \<Rightarrow> True | Some i \<Rightarrow> holds_range ?e False base (base + len) i"
    using block_containing_ok [OF inv add(2), of base False] by (auto split: option.splits)
  note e1 = stillD(1) [OF 1(2)]
  show ?thesis
  proof (cases "case at of None \<Rightarrow> True | Some i \<Rightarrow> b_virt_len (?e i) \<noteq> 0")
    case True
    have "i < MAX_BLOCKS" if "at = Some i" for i using 1(3) that by (simp add: holds_range_def phys_slot_def)
    then show ?thesis using True 1(1,2) e1 add by (cases at) (auto simp: build_release_def err_def ok_or_def)
  next
    case f: False
    then obtain i where i: "at = Some i" "b_virt_len (?e i) = 0" by (cases at) auto
    let ?b = "?e i"
    have h: "holds_range ?e False base (base + len) i" using 1(3) i(1) by simp
    then have ps: "phys_slot ?e i" by (simp add: holds_range_def)
    obtain n m lo hi T2 ss T3 where s: "b_phys_base ?b + n = base" "base + len + m = block_end ?b"
       "side_ok ?e (b_id ?b) (\<lambda>b. block_end b = base) lo" "side_ok ?e (b_id ?b) (\<lambda>b. b_phys_base b = base + len) hi"
       and t: "let rs = release_requests ?b base len n m (lo = None \<and> hi = None) in
          still T T2 \<and> collect_slots (if rs \<noteq> [] then [i] else []) (length rs) i T2 = (ss, T3) \<and> still T T3 \<and> distinct ss
          \<and> (\<forall>s \<in> set ss. s = i \<or> s < MAX_BLOCKS \<and> reusable_entry (?e s))
          \<and> build_release base len T = (if length ss \<noteq> length rs then err TableFull T3
               else andthen (plan_outputs rs ss (b_id ?b) ?k [] T3) (\<lambda>(writes, next1) T4.
                 ok ((merge_plan lo hi base (base + len) (plan_new i ?b ?k))\<lparr>plan_writes := writes, next_id_after := next1\<rparr>) T4))"
      using build_release_steps [OF inv add 1(1) [unfolded i(1)] 1(2) h i(2)] by blast
    let ?rs = "release_requests ?b base len n m (lo = None \<and> hi = None)"
    have s3: "still T T3" and ss: "distinct ss" "\<forall>s \<in> set ss. s = i \<or> s < MAX_BLOCKS \<and> reusable_entry (?e s)"
      and run: "build_release base len T = (if length ss \<noteq> length ?rs then err TableFull T3
               else andthen (plan_outputs ?rs ss (b_id ?b) ?k [] T3) (\<lambda>(writes, next1) T4.
                 ok ((merge_plan lo hi base (base + len) (plan_new i ?b ?k))\<lparr>plan_writes := writes, next_id_after := next1\<rparr>) T4))"
      using t unfolding Let_def by blast+
    show ?thesis
    proof (cases "length ss = length ?rs")
      case full: False
      then show ?thesis using run s3 by (simp add: err_def)
    next
      case True
      obtain res T4 where 4: "plan_outputs ?rs ss (b_id ?b) ?k [] T3 = Some (res, T4)" "still T3 T4"
         "case res of Inl e \<Rightarrow> e \<noteq> TableFull | Inr (ws, n') \<Rightarrow> \<exists>ws'. ws = [] @ ws' \<and> numbered ?rs (drop (length []) ss) ?k ws' n'"
        using plan_outputs_ok [OF stillD(6) [OF s3 inv], of ss "[]" ?rs "b_id ?b" ?k] True unfolding list.size add_0 by blast
      note s4 = still_trans [OF s3 4(2)]
      show ?thesis
      proof (cases res)
        case (Inl e)
        then show ?thesis using run True 4(1) s4 by simp
      next
        case (Inr p)
        obtain ws k' where p: "p = (ws, k')" by (cases p)
        let ?plan = "(merge_plan lo hi base (base + len) (plan_new i ?b ?k))\<lparr>plan_writes := ws, next_id_after := k'\<rparr>"
        have num: "numbered ?rs ss ?k ws k'" using 4(3) Inr p by simp
        have ok: "entries_ok ?e ?k" using inv by (simp add: cat_inv_entries)
        have "plan_ready T base len ?plan"
          unfolding plan_ready_def
        proof (intro allI impI)
          fix c T2' assume a: "idx_inv T2' \<and> entries T2' = ?e"
          show "\<exists>T'. finish_release ?plan c T2' = Some T' \<and> cat_inv T' \<and> initialized T' = initialized T2'
             \<and> phys_view (entries T') = paint base len (Some free_attr) (phys_view ?e)"
            using finish_release_ok [of T2' ?k i n base len m lo hi ss ws k' ?plan c] a ok ps s add(2) num ss by auto
        qed
        then show ?thesis using run True 4(1) Inr p s4 h by (auto simp: ok_def)
      qed
    qed
  qed
qed

text \<open>When the table is full, preparation coalesces it and plans again; the view stays.\<close>

lemma prepare_release_ok:
  assumes inv: "cat_inv T"
  shows "\<exists>r T'. prepare_release base len T = Some (r, T') \<and> cat_inv T' \<and> initialized T' = initialized T
     \<and> phys_view (entries T') = phys_view (entries T)
     \<and> (case r of Inl _ \<Rightarrow> True | Inr plan \<Rightarrow> (\<exists>i. holds_range (entries T') False base (base + len) i) \<and> plan_ready T' base len plan)"
proof -
  have step: "\<exists>r T2. build_release base len T1 = Some (r, T2) \<and> still T1 T2 \<and> cat_inv T2
     \<and> (case r of Inl _ \<Rightarrow> True | Inr plan \<Rightarrow> (\<exists>i. holds_range (entries T2) False base (base + len) i) \<and> plan_ready T2 base len plan)"
    if c: "cat_inv T1" for T1
  proof -
    obtain r T2 where r: "build_release base len T1 = Some (r, T2)" "still T1 T2"
       "case r of Inl _ \<Rightarrow> True | Inr plan \<Rightarrow> (\<exists>i. holds_range (entries T1) False base (base + len) i) \<and> plan_ready T1 base len plan"
      using build_release_ok [OF c] by blast
    then show ?thesis using stillD(1,6) [OF r(2)] c by (auto simp: plan_ready_def split: sum.splits)
  qed
  obtain r T1 where 1: "build_release base len T = Some (r, T1)" "still T T1" "cat_inv T1"
     "case r of Inl _ \<Rightarrow> True | Inr plan \<Rightarrow> (\<exists>i. holds_range (entries T1) False base (base + len) i) \<and> plan_ready T1 base len plan"
    using step [OF inv] by blast
  note e1 = stillD(1,3) [OF 1(2)]
  show ?thesis
  proof (cases "r = Inl TableFull")
    case True
    obtain T2 where 2: "block_coalesce T1 = Some T2" "coalesced T1 T2" using block_coalesce_ok [OF 1(3)] by blast
    have c2: "cat_inv T2" using 2(2) by (simp add: coalesced_def)
    obtain r3 T3 where 3: "build_release base len T2 = Some (r3, T3)" "still T2 T3" "cat_inv T3"
       "case r3 of Inl _ \<Rightarrow> True | Inr plan \<Rightarrow> (\<exists>i. holds_range (entries T3) False base (base + len) i) \<and> plan_ready T3 base len plan"
      using step [OF c2] by blast
    have "prepare_release base len T = Some (r3, T3)" using True 1(1) 2(1) 3(1) by (simp add: prepare_release_def)
    then show ?thesis using 3 2(2) stillD(1,3) [OF 3(2)] e1 by (simp add: coalesced_def)
  next
    case False
    then have "prepare_release base len T = Some (r, T1)" using 1(1) by (simp add: prepare_release_def)
    then show ?thesis using 1 e1 by simp
  qed
qed

end
