(* ===== verification/Block_Reach.thy ===== *)
theory Block_Reach
  imports Block_Plan
begin

text \<open>
  The exported operations of the block catalogue and the catalogues they produce: updates of one block,
  the self-check, registration with its exact answer, and \<open>catalogue\<close>, the reachable catalogues, with the
  invariant every one of them satisfies.
\<close>

text \<open>\<open>same_place\<close>: a new value for a block that covers what the old one covers, or nothing.\<close>

definition same_place :: "block \<Rightarrow> block \<Rightarrow> bool" where
  "same_place b c \<longleftrightarrow> b_phys_base c = b_phys_base b \<and> b_phys_len c = b_phys_len b \<and> b_virt_base c = b_virt_base b \<and> b_virt_len c = b_virt_len b
     \<and> b_id c = b_id b \<and> b_slot_used c = b_slot_used b \<and> (block_active c \<longrightarrow> block_active b)"

text \<open>
  The result of an operation on the block with an identity: an error changes nothing; a success
  gives that block alone a new value in its place.
\<close>

definition change_result :: "nat \<Rightarrow> block_table \<Rightarrow> unit step \<Rightarrow> bool" where
  "change_result ident T res \<longleftrightarrow> (\<exists>r T'. res = Some (r, T') \<and> cat_inv T' \<and> initialized T' = initialized T
     \<and> (case r of
          Inl _ \<Rightarrow> entries T' = entries T \<and> bt_next_id T' = bt_next_id T
        | Inr _ \<Rightarrow> \<exists>i < MAX_BLOCKS. \<exists>c. b_slot_used (entries T i) \<and> b_id (entries T i) = ident \<and> same_place (entries T i) c
            \<and> entries T' = (entries T)(i := c)))"

definition checked :: "avl \<Rightarrow> validation" where
  "checked t = \<lparr>v_valid = True, v_count = length (inorder t), v_height = ht t,
     v_minimum = (if t = Tip then None else Some (hd (inorder t))),
     v_maximum = (if t = Tip then None else Some (last (inorder t)))\<rparr>"

definition index_sound :: "block_table \<Rightarrow> nat \<Rightarrow> bool" where
  "index_sound T i \<longleftrightarrow> i < MAX_BLOCKS \<and> (slot_free T i \<longleftrightarrow> reusable_entry (entries T i))
     \<and> (b_slot_used (entries T i) \<longrightarrow> raw_id T (b_id (entries T i)) = Some (Some i))
     \<and> (physical_index (entries T i) \<longleftrightarrow> in_tree (nodes T i))"

text \<open>\<open>fine\<close>: an operation returns, and the catalogue is in order afterwards.\<close>

definition fine :: "('a \<times> block_table) outcome \<Rightarrow> bool" where
  "fine res \<longleftrightarrow> (\<exists>x T'. res = Some (x, T') \<and> cat_inv T')"

definition phys_clash :: "(nat \<Rightarrow> block) \<Rightarrow> block \<Rightarrow> bool" where
  "phys_clash ents b \<longleftrightarrow> (\<exists>a. b_phys_base b \<le> a \<and> a < b_phys_base b + b_phys_len b \<and> phys_view ents a \<noteq> None)"

definition virt_clash :: "(nat \<Rightarrow> block) \<Rightarrow> block \<Rightarrow> bool" where
  "virt_clash ents b \<longleftrightarrow> b_virt_len b \<noteq> 0 \<and> (\<exists>i < MAX_BLOCKS. block_active (ents i) \<and> b_virt_len (ents i) \<noteq> 0
     \<and> b_virt_base b < b_virt_base (ents i) + b_virt_len (ents i) \<and> b_virt_base (ents i) < b_virt_base b + b_virt_len b)"

text \<open>What a registration answers: the first reason to refuse, in the order the code checks them, else the next identity.\<close>

definition register_answer :: "block \<Rightarrow> block_table \<Rightarrow> block_error + nat" where
  "register_answer request T = (case validate request of Inl e \<Rightarrow> Inl e | Inr _ \<Rightarrow>
     if phys_clash (entries T) request \<or> virt_clash (entries T) request then Inl Overlap
     else if \<forall>i < MAX_BLOCKS. \<not> reusable_entry (entries T i) then Inl TableFull
     else if bt_next_id T = 0 then Inl Overflow
     else Inr (bt_next_id T))"

section \<open>Reachable catalogues\<close>

text \<open>
  The catalogues that boot and the exported operations produce, in any order and with any arguments;
  a plan is carried out or cancelled on the catalogue it was made for.
\<close>

inductive catalogue :: "block_table \<Rightarrow> bool" where
  Init: "blocks_init memory T = Some (fine_map, T') \<Longrightarrow> catalogue T'"
| Register: "catalogue T \<Longrightarrow> blocks_register request T = Some (out, T') \<Longrightarrow> catalogue T'"
| Range: "catalogue T \<Longrightarrow> blocks_range request retag T = Some (out, T') \<Longrightarrow> catalogue T'"
| Prefix: "catalogue T \<Longrightarrow> blocks_prefix base max_len free T = Some (n, T') \<Longrightarrow> catalogue T'"
| Prepare: "catalogue T \<Longrightarrow> blocks_prepare base len T = Some (out, T') \<Longrightarrow> catalogue T'"
| Finish: "catalogue T \<Longrightarrow> blocks_prepare base len T = Some ((code, Some plan), T1)
    \<Longrightarrow> blocks_finish plan coalesce cancel T1 = Some (plan', T') \<Longrightarrow> catalogue T'"
| Change: "catalogue T \<Longrightarrow> blocks_change ident operation bytes u T = Some (code, T') \<Longrightarrow> catalogue T'"
| Coalesce: "catalogue T \<Longrightarrow> blocks_coalesce T = Some T' \<Longrightarrow> catalogue T'"

section \<open>The reset catalogue\<close>

lemma physical_empty: "\<not> physical_index BLOCK_EMPTY" "\<not> b_slot_used BLOCK_EMPTY" "\<not> block_active BLOCK_EMPTY"
  by (simp_all add: physical_index_def block_active_def BLOCK_EMPTY_def)

lemma reset_ok: "cat_inv (table_reset T)" and reset_view: "phys_view (entries (table_reset T)) a = None"
proof -
  let ?T = "table_reset T"
  have e: "entries ?T i = BLOCK_EMPTY" for i by (simp add: table_reset_def)
  have a: "avl_index ?T []" using avl_index_empty [of ?T] by (simp add: table_reset_def NODE_EMPTY_def)
  have "tree_part {..<MAX_BLOCKS} ?T" unfolding tree_part_def using a e physical_empty by (intro exI [of _ "[]"]) simp
  moreover have "id_part {..<MAX_BLOCKS} ?T"
    using block_id_empty [of ?T] e physical_empty by (simp add: id_part_def table_reset_def)
  moreover have "slot_part {..<MAX_BLOCKS} ?T"
    by (simp add: slot_part_def slot_inv_def slot_free_def table_reset_def SLOT_WORDS_eq reusable_entry_def BLOCK_EMPTY_def)
  moreover have "low_steps ?T" by (simp add: low_steps_def table_reset_def HOT_EMPTY_def)
  ultimately have "idx_inv ?T" by (simp add: idx_inv_def part_inv_def)
  moreover have "entries_ok (entries ?T) (bt_next_id ?T)"
    using e physical_empty by (simp add: entries_ok_def fits_def disjoint_blocks_def virt_inv_def virt_slot_def fresh_ids_def) (simp add: table_reset_def)
  ultimately show "cat_inv ?T" by (simp add: cat_inv_entries)
  show "phys_view (entries ?T) a = None" using e physical_empty by (auto simp: phys_view_None phys_slot_def)
qed

lemma cat_inv_initialized: "cat_inv (T\<lparr>initialized := x\<rparr>) = cat_inv T"
  by (simp add: cat_inv_entries idx_inv_def part_inv_def tree_part_def id_part_def slot_part_def avl_index_def block_id_inv_def
      block_id_map_def slot_inv_def slot_free_def low_steps_def)

section \<open>Updates of one block\<close>

lemma lookup_or_missing_ok:
  assumes inv: "cat_inv T"
  shows "\<exists>r T'. lookup_or_missing ident T = Some (r, T') \<and> still T T'
     \<and> (case r of Inl e \<Rightarrow> e = NotFound \<and> (\<forall>i < MAX_BLOCKS. b_slot_used (entries T i) \<longrightarrow> b_id (entries T i) \<noteq> ident)
        | Inr i \<Rightarrow> i < MAX_BLOCKS \<and> b_slot_used (entries T i) \<and> b_id (entries T i) = ident)"
proof -
  let ?e = "entries T"
  have p: "id_part {..<MAX_BLOCKS} T" using inv by (simp add: cat_inv_def idx_inv_def part_inv_def)
  then have c: "cells_ok (block_ids T)" and m: "\<And>k s. cells_map (block_ids T) k = Some s \<longleftrightarrow> s < MAX_BLOCKS \<and> b_slot_used (?e s) \<and> b_id (?e s) = k"
    by (auto simp: id_part_def block_id_inv_def block_id_map_def)
  obtain T' where T': "block_by_id ident T = Some (case cells_map (block_ids T) ident of None \<Rightarrow> None
     | Some s \<Rightarrow> if s < MAX_BLOCKS \<and> b_slot_used (?e s) \<and> b_id (?e s) = ident then Some s else None, T')"
     "T' = T\<lparr>hot := hot T'\<rparr>" "physical_step_max (hot T') = physical_step_max (hot T)" using block_by_id_ok [OF c] by blast
  have st: "still T T'" by (rule still_hot [OF T'(2)]) (simp add: low_steps_def T'(3))
  show ?thesis
  proof (cases "cells_map (block_ids T) ident")
    case None
    then have "\<forall>i < MAX_BLOCKS. b_slot_used (?e i) \<longrightarrow> b_id (?e i) \<noteq> ident" using m [of ident] by auto
    then show ?thesis using T'(1) None st by (simp add: lookup_or_missing_def ok_or_def err_def)
  next
    case (Some s)
    then have "s < MAX_BLOCKS" "b_slot_used (?e s)" "b_id (?e s) = ident" using m by auto
    then show ?thesis using T'(1) Some st by (simp add: lookup_or_missing_def ok_or_def ok_def)
  qed
qed

lemma lookup_cases:
  assumes inv: "cat_inv T"
  obtains (miss) T1 where "lookup_or_missing ident T = Some (Inl NotFound, T1)" "still T T1"
    | (hit) i T1 where "lookup_or_missing ident T = Some (Inr i, T1)" "still T T1" "i < MAX_BLOCKS" "b_slot_used (entries T i)" "b_id (entries T i) = ident"
proof -
  obtain r T1 where r: "lookup_or_missing ident T = Some (r, T1)" "still T T1"
     "case r of Inl e \<Rightarrow> e = NotFound \<and> (\<forall>i < MAX_BLOCKS. b_slot_used (entries T i) \<longrightarrow> b_id (entries T i) \<noteq> ident)
      | Inr i \<Rightarrow> i < MAX_BLOCKS \<and> b_slot_used (entries T i) \<and> b_id (entries T i) = ident"
    using lookup_or_missing_ok [OF inv] by blast
  show ?thesis using r that by (cases r) auto
qed

lemma same_place_entries:
  assumes ok: "entries_ok ents n" and i: "i < MAX_BLOCKS" and s: "same_place (ents i) c"
  shows "entries_ok (ents(i := c)) n"
    "phys_view (ents(i := c)) a = (if phys_slot ents i \<and> covers_addr (ents i) a then shade c else phys_view ents a)"
proof -
  have f: "fits ents" "disjoint_blocks ents" "virt_inv ents" "fresh_ids ents n" using ok by (auto simp: entries_ok_def)
  have p: "physical_index c \<Longrightarrow> phys_slot ents i" "block_end c = block_end (ents i)" "covers_addr c a = covers_addr (ents i) a"
    using s i by (auto simp: same_place_def physical_index_def phys_slot_def block_end_def covers_addr_def)
  have "fits (ents(i := c))" using fits_write [OF f(1)] f(1) p(1,2) by (simp add: fits_def phys_slot_def)
  moreover have d: "disjoint_blocks (ents(i := c))"
  proof (rule disjoint_write [OF f(2)])
    fix j assume "physical_index c" "j \<noteq> i" "phys_slot ents j"
    then have "apart (ents i) (ents j)" using f(2) p(1) i by (auto simp: disjoint_blocks_def phys_slot_def)
    then show "apart c (ents j)" using s p(2) by (simp add: apart_def same_place_def)
  qed
  moreover have "virt_inv (ents(i := c))" by (rule virt_write [OF f(3)]) (use s in \<open>auto simp: same_place_def\<close>)
  moreover have "fresh_ids (ents(i := c)) n"
    by (rule fresh_write [OF f(4)]) (use f(4) i s in \<open>auto simp: fresh_ids_def same_place_def\<close>)
  ultimately show "entries_ok (ents(i := c)) n" by (simp add: entries_ok_def)
  have "phys_slot ents i \<Longrightarrow> physical_index c \<longleftrightarrow> b_status c \<noteq> RELEASED"
    using s by (auto simp: phys_slot_def physical_index_def block_active_def same_place_def)
  moreover have "physical_index c \<Longrightarrow> b_status c \<noteq> RELEASED" by (simp add: physical_index_def block_active_def)
  ultimately show "phys_view (ents(i := c)) a = (if phys_slot ents i \<and> covers_addr (ents i) a then shade c else phys_view ents a)"
    unfolding view_write [OF f(2) d i] using p by (auto simp: shade_def)
qed

lemma replace_step_ok:
  assumes inv: "cat_inv T" and s: "still T T1" and i: "i < MAX_BLOCKS" "b_slot_used (entries T i)" "b_id (entries T i) = ident"
    and c: "same_place (entries T i) c"
  shows "change_result ident T (replace_step i c T1)"
proof -
  note c1 = stillD(6) [OF s inv] and e1 = stillD(1) [OF s]
  have x: "idx_inv T1" "entries_ok (entries T1) (bt_next_id T1)" using c1 by (auto simp: cat_inv_entries)
  have "new_id (entries T1) i c"
    by (rule same_id_new [OF idx_inv_unique [OF x(1)] i(1)]) (use c e1 in \<open>auto simp: same_place_def\<close>)
  moreover have "entries_ok ((entries T1)(i := c)) (bt_next_id T1)" using same_place_entries(1) [OF x(2) i(1)] c e1 by simp
  ultimately obtain T' where "block_replace i c T1 = Some T'" "cat_inv T'" "entries T' = (entries T1)(i := c)" "initialized T' = initialized T1"
    using replace_ok [OF c1 i(1)] by blast
  then show ?thesis using i c e1 stillD(3) [OF s] by (auto simp: change_result_def replace_step_def ok_def)
qed

lemma change_result_err: "cat_inv T \<Longrightarrow> still T T1 \<Longrightarrow> change_result ident T (Some (Inl e, T1))"
  using stillD [of T T1] by (simp add: change_result_def)

lemma change_result_still:
  assumes "change_result ident T1 res" and "still T T1"
  shows "change_result ident T res"
  using assms(1) stillD(1-3) [OF assms(2)] by (auto simp: change_result_def split: sum.splits)

lemma apply_update_place: "block_active b \<Longrightarrow> same_place b (apply_update u b)"
  by (auto simp: same_place_def apply_update_def Let_def block_active_def)

lemma released_place: "same_place b (released b)"
  by (simp add: same_place_def released_def block_active_def)

lemma block_update_op_ok:
  assumes inv: "cat_inv T"
  shows "change_result ident T (block_update_op ident u T)"
proof (rule lookup_cases [OF inv, of ident])
  fix T1 assume "lookup_or_missing ident T = Some (Inl NotFound, T1)" "still T T1"
  then show ?thesis using change_result_err [OF inv, of T1] by (simp add: block_update_op_def)
next
  fix i T1
  assume r: "lookup_or_missing ident T = Some (Inr i, T1)" "still T T1" and i: "i < MAX_BLOCKS" "b_slot_used (entries T i)" "b_id (entries T i) = ident"
  let ?b = "entries T i"
  note e1 = stillD(1) [OF r(2)]
  show ?thesis
  proof (cases "block_active ?b \<and> validate_bytes (b_reserved (apply_update u ?b)) (b_committed (apply_update u ?b)) = Inr ()")
    case True
    then have "change_result ident T (replace_step i (apply_update u ?b) T1)"
      using replace_step_ok [OF inv r(2) i apply_update_place] by simp
    then show ?thesis using r(1) i True e1 by (simp add: block_update_op_def Let_def check_cases)
  next
    case False
    then show ?thesis using r(1) i(1) e1 change_result_err [OF inv r(2)]
      by (auto simp: block_update_op_def Let_def check_cases err_def split: sum.splits)
  qed
qed

lemma change_committed_ok:
  assumes inv: "cat_inv T"
  shows "change_result ident T (change_committed ident bytes subtract T)"
proof (rule lookup_cases [OF inv, of ident])
  fix T1 assume "lookup_or_missing ident T = Some (Inl NotFound, T1)" "still T T1"
  then show ?thesis using change_result_err [OF inv, of T1] by (simp add: change_committed_def)
next
  fix i T1
  assume r: "lookup_or_missing ident T = Some (Inr i, T1)" "still T T1" and i: "i < MAX_BLOCKS"
  have s: "change_result ident T (set_committed ident n T1)" for n
    unfolding set_committed_def by (rule change_result_still [OF block_update_op_ok [OF stillD(6) [OF r(2) inv]] r(2)])
  show ?thesis using r(1) i change_result_err [OF inv r(2)] s
    by (simp add: change_committed_def ok_or_def err_def split: option.splits)
qed

lemma block_release_ok:
  assumes inv: "cat_inv T"
  shows "change_result ident T (block_release ident T)"
proof (rule lookup_cases [OF inv, of ident])
  fix T1 assume "lookup_or_missing ident T = Some (Inl NotFound, T1)" "still T T1"
  then show ?thesis using change_result_err [OF inv, of T1] by (simp add: block_release_def)
next
  fix i T1
  assume r: "lookup_or_missing ident T = Some (Inr i, T1)" "still T T1" and i: "i < MAX_BLOCKS" "b_slot_used (entries T i)" "b_id (entries T i) = ident"
  show ?thesis using r(1) i(1) replace_step_ok [OF inv r(2) i released_place] stillD(1) [OF r(2)] by (simp add: block_release_def)
qed

section \<open>The self-check\<close>

lemma inorder_empty [simp]: "inorder t = [] \<longleftrightarrow> t = Tip"
  by (cases t) auto

lemma checked_Bin:
  "checked (Bin l x r) = \<lparr>v_valid = True, v_count = length (inorder l) + length (inorder r) + 1, v_height = 1 + max (ht l) (ht r),
     v_minimum = (case v_minimum (checked l) of Some m \<Rightarrow> Some m | None \<Rightarrow> Some x),
     v_maximum = (case v_maximum (checked r) of Some m \<Rightarrow> Some m | None \<Rightarrow> Some x)\<rparr>"
  by (simp add: checked_def)

lemma validate_pair:
  assumes ok: "entries_ok (entries T) n" and i: "phys_slot (entries T) i" and j: "phys_slot (entries T) j" and b: "before (entries T) i j"
  shows "avl_less (entries T) i j = Some True" "\<not> block_ends_after (entries T i) (b_phys_base (entries T j))"
proof -
  have "disjoint_blocks (entries T)" using ok by (simp add: entries_ok_def)
  then have "block_end (entries T i) \<le> b_phys_base (entries T j)" using phys_before_end i j b by blast
  moreover have "block_end (entries T i) \<le> U64_MAX" by (rule entries_fit [OF ok i])
  ultimately show "\<not> block_ends_after (entries T i) (b_phys_base (entries T j))"
    by (simp add: block_ends_after_def checked_add64_def block_end_def)
  show "avl_less (entries T) i j = Some True" using i j b by (simp add: avl_less_def before_def phys_slot_def)
qed

lemma validate_tree_ok:
  assumes "entries_ok (entries T) n" and "holds (nodes T) rt t" and "balanced t" and "ordered (entries T) (inorder t)"
    and "\<forall>i \<in> set (inorder t). phys_slot (entries T) i" and "ht t \<le> levels" and "levels \<le> 65" and "length (inorder t) \<le> U32_MAX"
  shows "validate_tree T rt levels = Some (checked t)"
  using assms(2-)
proof (induction t arbitrary: rt levels)
  case Tip
  then show ?case by (simp add: checked_def VALIDATION_EMPTY_def)
next
  case (Bin l x r)
  let ?n = "nodes T x" and ?e = "entries T"
  have x: "rt = Some x" "x < MAX_BLOCKS" "in_tree ?n" "n_height ?n = 1 + max (ht l) (ht r)" "holds (nodes T) (n_left ?n) l" "holds (nodes T) (n_right ?n) r"
    "phys_slot ?e x" using Bin.prems(1,4) by auto
  have lr: "validate_tree T (n_left ?n) (levels - 1) = Some (checked l)" "validate_tree T (n_right ?n) (levels - 1) = Some (checked r)"
    using Bin.IH(1) [OF x(5), of "levels - 1"] Bin.IH(2) [OF x(6), of "levels - 1"] Bin.prems by (auto simp: sorted_wrt_append)
  have left: "avl_less ?e (last (inorder l)) x = Some True \<and> \<not> block_ends_after (?e (last (inorder l))) (b_phys_base (?e x))" if "l \<noteq> Tip"
  proof -
    have m: "last (inorder l) \<in> set (inorder l)" using that by simp
    then show ?thesis using validate_pair [OF assms(1) _ x(7)] Bin.prems(3,4) by (auto simp: sorted_wrt_append)
  qed
  have right: "avl_less ?e x (hd (inorder r)) = Some True \<and> \<not> block_ends_after (?e x) (b_phys_base (?e (hd (inorder r))))" if "r \<noteq> Tip"
  proof -
    have m: "hd (inorder r) \<in> set (inorder r)" using that by simp
    then show ?thesis using validate_pair [OF assms(1) x(7)] Bin.prems(3,4) by (auto simp: sorted_wrt_append)
  qed
  have node: "validate_node T x ?n (checked l) (checked r) = Some (checked (Bin l x r))"
    unfolding checked_Bin using left right Bin.prems(2,5-7) x(4)
    by (auto simp: validate_node_def checked_def add8_def)
  show ?case using lr node x(1-3,7) Bin.prems(5) by (simp add: phys_slot_def) (simp add: checked_def)
qed

lemma invariant_loop_ok:
  assumes "\<forall>i \<in> set is. index_sound T i" and "pc + length is \<le> U32_MAX" and "ic + length is \<le> U32_MAX"
  shows "invariant_loop T is pc ic =
     Some (Some (pc + length (filter (\<lambda>i. physical_index (entries T i)) is), ic + length (filter (\<lambda>i. b_slot_used (entries T i)) is)))"
  using assms
proof (induction "is" arbitrary: pc ic)
  case (Cons i rest)
  have s: "index_sound T i" using Cons.prems(1) by simp
  then have free: "(slots T (i div 64) AND push_bit (i mod 64) 1 \<noteq> 0) \<longleftrightarrow> (\<not> b_slot_used (entries T i) \<or> b_status (entries T i) = RELEASED)"
    using slot_word_mask [of i T] by (simp add: index_sound_def reusable_entry_def)
  have i: "i < MAX_BLOCKS" "i div 64 < SLOT_WORDS" using s by (auto simp: index_sound_def)
  have raw: "(if b_slot_used (entries T i) then raw_id T (b_id (entries T i)) else Some (Some i)) = Some (Some i)"
    using s by (simp add: index_sound_def)
  have "invariant_loop T (i # rest) pc ic = invariant_loop T rest (if physical_index (entries T i) then min (pc + 1) U32_MAX else pc)
      (if b_slot_used (entries T i) then min (ic + 1) U32_MAX else ic)"
    using i free raw s by (simp add: index_sound_def Let_def del: not_gr_zero)
  then show ?case using Cons.IH Cons.prems by auto
qed simp

lemma idx_index_sound:
  assumes inv: "idx_inv T" and i: "i < MAX_BLOCKS"
  shows "index_sound T i"
proof -
  have p: "id_part {..<MAX_BLOCKS} T" using inv by (simp add: idx_inv_def part_inv_def)
  then have "b_slot_used (entries T i) \<longrightarrow> raw_id T (b_id (entries T i)) = Some (Some i)"
    using raw_id_ok [of T] i by (auto simp: id_part_def block_id_inv_def block_id_map_def)
  moreover obtain xs where "avl_index T xs" "set xs = {i. i < MAX_BLOCKS \<and> physical_index (entries T i)}" using idx_inv_tree [OF inv] by blast
  then have "physical_index (entries T i) \<longleftrightarrow> in_tree (nodes T i)" using i by (auto simp: avl_index_def)
  ultimately show ?thesis using idx_slot_free [OF inv i] i by (simp add: index_sound_def)
qed

lemma idx_id_count:
  assumes inv: "idx_inv T"
  shows "length (filter (\<lambda>i. b_slot_used (entries T i)) [0..<MAX_BLOCKS]) = id_count T"
proof -
  let ?U = "{i. i < MAX_BLOCKS \<and> b_slot_used (entries T i)}" and ?f = "\<lambda>i. b_id (entries T i)"
  have p: "id_part {..<MAX_BLOCKS} T" using inv by (simp add: idx_inv_def part_inv_def)
  have "dom (block_id_map T) = ?f ` ?U" using p unfolding id_part_def dom_def by (auto simp: image_iff)
  moreover have "inj_on ?f ?U" using idx_inv_unique [OF inv] unfolding inj_on_def unique_ids_def by blast
  ultimately have "id_count T = card ?U" using block_id_dom_card [of T] p by (simp add: card_image id_part_def)
  moreover have "length (filter (\<lambda>i. b_slot_used (entries T i)) [0..<MAX_BLOCKS]) = card ?U"
    using distinct_card [of "filter (\<lambda>i. b_slot_used (entries T i)) [0..<MAX_BLOCKS]"] by (simp add: conj_commute)
  ultimately show ?thesis by simp
qed

lemma block_invariant_ok:
  assumes inv: "cat_inv T"
  shows "block_invariant T = Some True"
proof -
  let ?e = "entries T" and ?A = "[0..<MAX_BLOCKS]"
  have c: "idx_inv T" "entries_ok ?e (bt_next_id T)" using inv by (auto simp: cat_inv_entries)
  obtain xs where xs: "avl_index T xs" "set xs = {i. phys_slot ?e i}" "ordered ?e xs" using idx_orderE [OF c(1)] .
  obtain t where t: "holds (nodes T) (root T) t" "balanced t" "inorder t = xs" using xs(1) by (auto simp: avl_index_def)
  have small: "MAX_BLOCKS \<le> U32_MAX" by (simp add: MAX_BLOCKS_def)
  have dist: "distinct xs" by (rule avl_index_distinct [OF xs(1)])
  have cnt: "length (filter (\<lambda>i. physical_index (?e i)) ?A) = length xs"
    using distinct_card [OF dist] distinct_card [of "filter (\<lambda>i. physical_index (?e i)) ?A"] xs(2)
    by (simp add: phys_slot_def conj_commute)
  have lx: "length xs \<le> U32_MAX" using cnt length_filter_le [of "\<lambda>i. physical_index (?e i)" ?A] small by simp
  have ht: "ht t \<le> 65" using avl_index_height [OF xs(1) t(2,3)] by simp
  have v: "validate_tree T (root T) 65 = Some (checked t)"
    by (rule validate_tree_ok [OF c(2) t(1,2)]) (use t(3) xs(2,3) ht lx in auto)
  have sound: "index_sound T i" if "i < MAX_BLOCKS" for i by (rule idx_index_sound [OF c(1) that])
  have ids: "length (filter (\<lambda>i. b_slot_used (?e i)) ?A) = id_count T" by (rule idx_id_count [OF c(1)])
  have "invariant_loop T ?A 0 0 = Some (Some (length xs, id_count T))"
    using invariant_loop_ok [of ?A T 0 0] sound small cnt ids by simp
  moreover have "physical_count T = length xs" using xs(1) by (simp add: avl_index_def)
  ultimately show ?thesis using v t(3) by (simp add: block_invariant_def) (simp add: checked_def)
qed

section \<open>Prefixes\<close>

lemma block_prefix_ok:
  assumes inv: "cat_inv T"
  shows "\<exists>n T'. block_prefix base max_len free T = Some (n, T') \<and> still T T'
     \<and> (\<forall>i. phys_slot (entries T) i \<and> usable free (entries T i) \<and> covers_addr (entries T i) base
          \<longrightarrow> n = min max_len (block_end (entries T i) - base))
     \<and> ((\<forall>i. phys_slot (entries T) i \<and> usable free (entries T i) \<longrightarrow> \<not> covers_addr (entries T i) base) \<longrightarrow> n = 0)"
proof (cases "max_len = 0")
  case True
  then show ?thesis by (simp add: block_prefix_def)
next
  case False
  let ?e = "entries T"
  have c: "idx_inv T" "disjoint_blocks ?e" using inv by (auto simp: cat_inv_def)
  obtain at T1 where f: "avl_floor base T = Some (at, T1)" "still T T1" "greatest ?e (\<lambda>i. b_phys_base (?e i) \<le> base) at" using idx_floor [OF c(1)] by blast
  note e1 = stillD(1) [OF f(2)]
  have only: "at = Some i" if "phys_slot ?e i" "covers_addr (?e i) base" for i
    using floor_holds [OF c(2) f(3) that(1)] that(2) by (simp add: covers_addr_def)
  show ?thesis
  proof (cases at)
    case None
    then show ?thesis using f(1,2) False only by (auto simp: block_prefix_def)
  next
    case (Some i)
    then have i: "phys_slot ?e i" "b_phys_base (?e i) \<le> base" "i < MAX_BLOCKS" using f(3) by (auto simp: greatest_def phys_slot_def)
    have act: "block_active (?e i)" "b_phys_len (?e i) \<noteq> 0" using i(1) by (auto simp: phys_slot_def physical_index_def)
    let ?n = "if usable free (?e i) \<and> covers_addr (?e i) base then min max_len (block_end (?e i) - base) else 0"
    have run: "block_prefix base max_len free T = Some (?n, T1)"
      using f(1) False Some e1 i act phys_slot_ends(2) [OF inv i(1)]
      by (auto simp: block_prefix_def usable_def covers_addr_def)
    have 1: "\<forall>j. phys_slot ?e j \<and> usable free (?e j) \<and> covers_addr (?e j) base \<longrightarrow> ?n = min max_len (block_end (?e j) - base)"
    proof (intro allI impI)
      fix j assume j: "phys_slot ?e j \<and> usable free (?e j) \<and> covers_addr (?e j) base"
      then have "j = i" using only [of j] Some by simp
      then show "?n = min max_len (block_end (?e j) - base)" using j by simp
    qed
    have 2: "(\<forall>j. phys_slot ?e j \<and> usable free (?e j) \<longrightarrow> \<not> covers_addr (?e j) base) \<longrightarrow> ?n = 0" using i(1) by auto
    show ?thesis using run f(2) 1 2 by blast
  qed
qed

section \<open>The entry points\<close>

lemma with_table_cases: "with_table f T = (if initialized T then f T else Some (Inl NotInitialized, T))"
  by (simp add: with_table_def err_def)

lemma fine_with_table: "cat_inv T \<Longrightarrow> fine (f T) \<Longrightarrow> fine (with_table f T)"
  by (simp add: with_table_cases fine_def)

lemma fine_output: "fine s \<Longrightarrow> fine (output_id s)"
  by (auto simp: fine_def output_id_def)

lemma fine_register: "cat_inv T \<Longrightarrow> fine (with_table (block_register request) T)"
  using block_register_ok [of T request] by (intro fine_with_table) (auto simp: fine_def)

lemma fine_claim: "cat_inv T \<Longrightarrow> fine (with_table (block_claim request) T)"
  using claim_range_ok [of T request] by (intro fine_with_table) (auto simp: fine_def range_result_def Let_def)

lemma fine_retag: "cat_inv T \<Longrightarrow> fine (with_table (block_retag request) T)"
  using retag_range_ok [of T request] by (intro fine_with_table) (auto simp: fine_def range_result_def Let_def)

lemma fine_change:
  assumes "cat_inv T"
  shows "fine (blocks_change ident operation bytes u T)"
proof -
  have c: "fine res" if "change_result ident T res" for res using that by (auto simp: fine_def change_result_def)
  have e: "fine (err InvalidRange T :: unit step)" using assms by (simp add: fine_def err_def)
  have "fine (with_table (\<lambda>T. if operation = 0 then block_update_op ident u T
       else if operation = 1 then set_committed ident bytes T
       else if operation = 2 then change_committed ident bytes False T
       else if operation = 3 then change_committed ident bytes True T
       else if operation = 4 then block_release ident T
       else err InvalidRange T) T)"
    by (rule fine_with_table [OF assms])
      (use c [OF block_update_op_ok [OF assms]] c [OF change_committed_ok [OF assms]] c [OF block_release_ok [OF assms]] e
        in \<open>simp add: set_committed_def\<close>)
  then show ?thesis by (auto simp: blocks_change_def fine_def)
qed

lemma fine_coalesce:
  assumes "cat_inv T"
  shows "\<exists>T'. blocks_coalesce T = Some T' \<and> cat_inv T'"
  using block_coalesce_ok [OF assms] assms by (auto simp: blocks_coalesce_def with_table_cases ok_def coalesced_def)

lemma fine_prefix:
  assumes "cat_inv T"
  shows "fine (blocks_prefix base max_len free T)"
proof -
  obtain n T' where "block_prefix base max_len free T = Some (n, T')" "still T T'" using block_prefix_ok [OF assms] by blast
  then show ?thesis using stillD(6) assms by (auto simp: fine_def blocks_prefix_def with_table_cases ok_def)
qed

lemma init_entries_ok:
  assumes "cat_inv T"
  shows "fine (init_entries memory T)"
  using assms
proof (induction memory arbitrary: T)
  case (Cons e rest)
  show ?case
  proof (cases "me_valid e \<and> me_length e \<noteq> 0")
    case True
    obtain r T1 where r: "with_table (block_register (block_boot_request e)) T = Some (r, T1)" "cat_inv T1"
      using fine_register [OF Cons.prems, of "block_boot_request e"] by (auto simp: fine_def)
    then show ?thesis using True Cons.IH [OF r(2)] by (cases r) (auto simp: fine_def)
  next
    case False
    then show ?thesis using Cons.IH [OF Cons.prems] by auto
  qed
qed (auto simp: fine_def)

lemma fine_init: "fine (blocks_init memory T)"
  unfolding blocks_init_def using init_entries_ok reset_ok by (simp add: cat_inv_initialized)

lemma blocks_prepare_ok:
  assumes inv: "cat_inv T"
  shows "\<exists>code out T'. blocks_prepare base len T = Some ((code, out), T') \<and> cat_inv T' \<and> initialized T' = initialized T
     \<and> phys_view (entries T') = phys_view (entries T)
     \<and> (case out of None \<Rightarrow> True | Some plan \<Rightarrow> plan_active plan \<and> initialized T
          \<and> (\<exists>i. holds_range (entries T') False base (base + len) i) \<and> plan_ready T' base len plan)"
proof (cases "initialized T")
  case False
  then show ?thesis using inv by (simp add: blocks_prepare_def with_table_cases output_id_def)
next
  case True
  obtain r T' where r: "prepare_release base len T = Some (r, T')" "cat_inv T'" "initialized T' = initialized T"
     "phys_view (entries T') = phys_view (entries T)"
     "case r of Inl _ \<Rightarrow> True | Inr plan \<Rightarrow> (\<exists>i. holds_range (entries T') False base (base + len) i) \<and> plan_ready T' base len plan"
    using prepare_release_ok [OF inv] by blast
  have act: "plan_ready T' base len plan \<Longrightarrow> plan_ready T' base len (plan\<lparr>plan_active := True\<rparr>)" for plan
    by (simp add: plan_ready_def finish_release_def)
  show ?thesis using True r act
    by (cases r) (auto simp: blocks_prepare_def with_table_cases output_id_def ok_def)
qed

lemma blocks_finish_ok:
  assumes inv: "cat_inv T" and plan: "plan_active plan" "plan_ready T base len plan"
  shows "\<exists>T'. blocks_finish plan coalesce cancel T = Some (plan\<lparr>plan_active := False\<rparr>, T') \<and> cat_inv T' \<and> initialized T' = initialized T
     \<and> phys_view (entries T') = (if cancel then phys_view (entries T) else paint base len (Some free_attr) (phys_view (entries T)))"
proof (cases cancel)
  case True
  then show ?thesis using inv plan(1) by (simp add: blocks_finish_def assert_def)
next
  case False
  have "idx_inv T" using inv by (simp add: cat_inv_def)
  then obtain T' where "finish_release plan coalesce T = Some T'" "cat_inv T'" "initialized T' = initialized T"
     "phys_view (entries T') = paint base len (Some free_attr) (phys_view (entries T))"
    using plan(2) unfolding plan_ready_def by blast
  then show ?thesis using False plan(1) by (simp add: blocks_finish_def assert_def)
qed

section \<open>Reachable catalogues satisfy the invariant\<close>

lemma catalogue_inv: "catalogue T \<Longrightarrow> cat_inv T"
proof (induction rule: catalogue.induct)
  case (Init memory T fine_map T')
  then show ?case using fine_init [of memory T] by (auto simp: fine_def)
next
  case (Register T request out T')
  then show ?case using fine_output [OF fine_register [OF Register.IH, of request]] by (auto simp: fine_def blocks_register_def)
next
  case (Range T request retag out T')
  then show ?case using fine_output [OF fine_claim [OF Range.IH, of request]] fine_output [OF fine_retag [OF Range.IH, of request]]
    by (cases retag) (auto simp: fine_def blocks_range_def)
next
  case (Prefix T base max_len free n T')
  then show ?case using fine_prefix [OF Prefix.IH, of base max_len free] by (auto simp: fine_def)
next
  case (Prepare T base len out T')
  then show ?case using blocks_prepare_ok [OF Prepare.IH, of base len] by auto
next
  case (Finish T base len code plan T1 coalesce cancel plan' T')
  then have "cat_inv T1" "plan_active plan" "plan_ready T1 base len plan" using blocks_prepare_ok [OF Finish.IH, of base len] by auto
  then show ?case using blocks_finish_ok [of T1 plan base len coalesce cancel] Finish.hyps(3) by auto
next
  case (Change T ident operation bytes u code T')
  then show ?case using fine_change [OF Change.IH, of ident operation bytes u] by (auto simp: fine_def)
next
  case (Coalesce T T')
  then show ?case using fine_coalesce [OF Coalesce.IH] by auto
qed

section \<open>Registration, exactly\<close>

lemma slot_pick_None: "idx_inv T \<Longrightarrow> slot_pick T = None \<longleftrightarrow> (\<forall>i < MAX_BLOCKS. \<not> reusable_entry (entries T i))"
proof -
  assume inv: "idx_inv T"
  then have si: "slot_inv T" by (simp add: idx_inv_def part_inv_def slot_part_def)
  obtain T1 where p: "block_free_slot T = Some (slot_pick T, T1)"
     "case slot_pick T of Some s \<Rightarrow> s < MAX_BLOCKS \<and> reusable_entry (entries T s) \<and> slot_pick T1 = Some s | None \<Rightarrow> True"
    using block_free_slot_pick [OF inv] by blast
  obtain r T' where r: "block_free_slot T = Some (r, T')"
     "case r of Some s \<Rightarrow> s < MAX_BLOCKS \<and> slot_free T s | None \<Rightarrow> \<forall>i<MAX_BLOCKS. \<not> slot_free T i"
    using block_free_slot_ok [OF si] by blast
  have "r = slot_pick T" using p(1) r(1) by simp
  then show ?thesis using p(2) r(2) idx_slot_free [OF inv] by (auto split: option.splits)
qed

lemma phys_clash_meets:
  assumes "cat_inv T" and "b_phys_len b \<noteq> 0"
  shows "phys_clash (entries T) b \<longleftrightarrow> (\<exists>i. meets (entries T) (b_phys_base b) (b_phys_base b + b_phys_len b) 0 i)"
proof -
  let ?e = "entries T"
  have nz: "b_id (?e i) \<noteq> 0" if "phys_slot ?e i" for i using assms(1) phys_slot_used [OF that] by (auto simp: cat_inv_def fresh_ids_def)
  have m: "meets ?e (b_phys_base b) (b_phys_base b + b_phys_len b) 0 i \<longleftrightarrow> phys_slot ?e i \<and> b_phys_base b < block_end (?e i)
      \<and> b_phys_base (?e i) < b_phys_base b + b_phys_len b" for i
    using nz by (auto simp: meets_def)
  show ?thesis
  proof
    assume "phys_clash ?e b"
    then obtain a i where "b_phys_base b \<le> a" "a < b_phys_base b + b_phys_len b" "phys_slot ?e i" "covers_addr (?e i) a"
      unfolding phys_clash_def phys_view_None by blast
    then show "\<exists>i. meets ?e (b_phys_base b) (b_phys_base b + b_phys_len b) 0 i" unfolding m by (auto simp: covers_addr_def)
  next
    assume "\<exists>i. meets ?e (b_phys_base b) (b_phys_base b + b_phys_len b) 0 i"
    then obtain i where i: "phys_slot ?e i" "b_phys_base b < block_end (?e i)" "b_phys_base (?e i) < b_phys_base b + b_phys_len b"
      unfolding m by blast
    let ?a = "max (b_phys_base b) (b_phys_base (?e i))"
    have "b_phys_len (?e i) \<noteq> 0" using i(1) physical_len by (auto simp: phys_slot_def)
    then have "covers_addr (?e i) ?a" using i by (auto simp: covers_addr_def block_end_def)
    then have "phys_view ?e ?a \<noteq> None" unfolding phys_view_None using i(1) by blast
    moreover have "b_phys_base b \<le> ?a" "?a < b_phys_base b + b_phys_len b" using i(3) assms(2) by auto
    ultimately show "phys_clash ?e b" unfolding phys_clash_def by blast
  qed
qed

lemma virtual_overlap_iff:
  assumes "\<forall>i \<in> set is. block_active (ents i) \<and> b_virt_len (ents i) \<noteq> 0 \<longrightarrow> b_id (ents i) \<noteq> ignore \<and> b_virt_base (ents i) + b_virt_len (ents i) \<le> U64_MAX"
  shows "virtual_overlap ents base fin ignore is \<longleftrightarrow> (\<exists>i \<in> set is. block_active (ents i) \<and> b_virt_len (ents i) \<noteq> 0
     \<and> base < b_virt_base (ents i) + b_virt_len (ents i) \<and> b_virt_base (ents i) < fin)"
  using assms by (induction "is") (auto simp: Let_def checked_add64_def)

lemma block_overlaps_exact:
  assumes inv: "cat_inv T" and v: "validate request = Inr ()"
  shows "\<exists>T'. block_overlaps (b_phys_base request) (b_phys_len request) True 0 T = Some (phys_clash (entries T) request, T') \<and> still T T'"
    "block_overlaps (b_virt_base request) (b_virt_len request) False 0 T = Some (virt_clash (entries T) request, T)"
proof -
  have c: "idx_inv T" "fits (entries T)" "disjoint_blocks (entries T)" "virt_inv (entries T)" "fresh_ids (entries T) (bt_next_id T)"
    using inv by (auto simp: cat_inv_def)
  have ends: "b_phys_base request + b_phys_len request \<le> U64_MAX" "b_virt_base request + b_virt_len request \<le> U64_MAX"
    using v by (auto simp: validate_OK)
  show "\<exists>T'. block_overlaps (b_phys_base request) (b_phys_len request) True 0 T = Some (phys_clash (entries T) request, T') \<and> still T T'"
  proof (cases "b_phys_len request = 0")
    case True
    then have "\<not> phys_clash (entries T) request" by (auto simp: phys_clash_def)
    then show ?thesis using True by (simp add: block_overlaps_def)
  next
    case False
    then show ?thesis using overlaps_physical_ok [OF c(1-3), of "b_phys_base request" "b_phys_base request + b_phys_len request" 0]
        phys_clash_meets [OF inv False] ends(1) by (simp add: block_overlaps_def checked_add64_def)
  qed
  have "\<forall>i \<in> set [0..<MAX_BLOCKS]. block_active (entries T i) \<and> b_virt_len (entries T i) \<noteq> 0
      \<longrightarrow> b_id (entries T i) \<noteq> 0 \<and> b_virt_base (entries T i) + b_virt_len (entries T i) \<le> U64_MAX"
    using c(4,5) by (auto simp: virt_inv_def virt_slot_def fresh_ids_def block_active_def)
  note V = virtual_overlap_iff [OF this]
  show "block_overlaps (b_virt_base request) (b_virt_len request) False 0 T = Some (virt_clash (entries T) request, T)"
    using ends(2) unfolding block_overlaps_def virt_clash_def V by (auto simp: checked_add64_def)
qed

lemma registered_view_clear:
  assumes inv: "cat_inv T" "cat_inv T'" and reg: "registered request T ident T'" and free: "\<not> phys_clash (entries T) request"
  shows "phys_view (entries T') = paint (b_phys_base request) (b_phys_len request) (shade request) (phys_view (entries T))"
proof (cases "b_phys_len request = 0")
  case True
  obtain s where s: "s < MAX_BLOCKS" "reusable_entry (entries T s)" "entries T' = (entries T)(s := block_entry request ident)"
    using reg by (auto simp: registered_def)
  have d: "disjoint_blocks (entries T)" "disjoint_blocks ((entries T)(s := block_entry request ident))" using inv s(3) by (auto simp: cat_inv_def)
  have "\<not> physical_index (block_entry request ident)" using True by (simp add: physical_index_def block_entry_def)
  moreover have "\<not> phys_slot (entries T) s" using s(2) reusable_not_physical by (auto simp: phys_slot_def)
  ultimately show ?thesis unfolding s(3) fun_eq_iff view_write [OF d s(1)] using True by simp
next
  case False
  have none: "phys_view (entries T) a = None" if "b_phys_base request \<le> a" "a < block_end request" for a
    using free that unfolding phys_clash_def block_end_def by blast
  have "clear_range (entries T) (b_phys_base request) (block_end request)"
    by (rule clear_view [OF _ _ none]) (use inv(1) False in \<open>simp_all add: cat_inv_def block_end_def\<close>)
  then show ?thesis by (rule registered_view [OF inv reg])
qed

lemma block_register_exact:
  assumes inv: "cat_inv T"
  shows "\<exists>T'. block_register request T = Some (register_answer request T, T') \<and> cat_inv T' \<and> initialized T' = initialized T
     \<and> (case register_answer request T of
          Inl _ \<Rightarrow> entries T' = entries T \<and> bt_next_id T' = bt_next_id T
        | Inr _ \<Rightarrow> phys_view (entries T') = paint (b_phys_base request) (b_phys_len request) (shade request) (phys_view (entries T)))"
proof -
  obtain r T' where r: "block_register request T = Some (r, T')" "cat_inv T'" "case r of Inl _ \<Rightarrow> soft T T' | Inr ident \<Rightarrow> registered request T ident T'"
    using block_register_ok [OF inv] by blast
  have i: "idx_inv T" using inv by (simp add: cat_inv_def)
  have ans: "r = register_answer request T"
  proof (cases "validate request")
    case (Inl e)
    then show ?thesis using r(1) by (simp add: block_register_def check_cases register_answer_def)
  next
    case (Inr u)
    then have v: "validate request = Inr ()" by simp
    obtain T1 where 1: "block_overlaps (b_phys_base request) (b_phys_len request) True 0 T = Some (phys_clash (entries T) request, T1)" "still T T1"
      using block_overlaps_exact(1) [OF inv v] by blast
    note c1 = stillD(6) [OF 1(2) inv] and e1 = stillD(1) [OF 1(2)]
    note 2 = block_overlaps_exact(2) [OF c1 v, unfolded e1]
    obtain T3 where 3: "free_slot_or_full T1 = Some (case slot_pick T of None \<Rightarrow> Inl TableFull | Some s \<Rightarrow> Inr s, T3)" "soft T1 T3"
      using free_slot_or_full_ok [of T1] c1 slot_pick_still [OF 1(2)] by (auto simp: cat_inv_def)
    have n3: "bt_next_id T3 = bt_next_id T" using softD(2) [OF 3(2)] stillD(2) [OF 1(2)] by simp
    show ?thesis using r(1) v 1(1) 2 3(1) slot_pick_None [OF i] n3
      by (auto simp: block_register_def check_cases register_answer_def err_def ok_or_def take_id_def ok_def split: if_splits option.splits bind_splits)
  qed
  show ?thesis
  proof (cases r)
    case (Inl e)
    then show ?thesis using r ans softD(1-3) [of T T'] by auto
  next
    case (Inr ident)
    then have reg: "registered request T ident T'" using r(3) by simp
    have "\<not> phys_clash (entries T) request" using ans Inr by (auto simp: register_answer_def split: sum.splits if_splits)
    then have view: "phys_view (entries T') = paint (b_phys_base request) (b_phys_len request) (shade request) (phys_view (entries T))"
      using registered_view_clear [OF inv r(2) reg] by blast
    have "initialized T' = initialized T" using reg by (simp add: registered_def)
    then show ?thesis using r(1,2) view unfolding ans [symmetric] Inr by simp
  qed
qed

section \<open>What every reachable catalogue satisfies\<close>

lemma change_initialized: "cat_inv T \<Longrightarrow> blocks_change ident operation bytes u T = Some (code, T') \<Longrightarrow> initialized T' = initialized T"
proof -
  assume inv: "cat_inv T" and run: "blocks_change ident operation bytes u T = Some (code, T')"
  have c: "initialized T' = initialized T" if "change_result ident T res" "res = Some (r, T')" for res r using that by (auto simp: change_result_def)
  note ops = c [OF block_update_op_ok [OF inv]] c [OF change_committed_ok [OF inv]] c [OF block_release_ok [OF inv]]
  show ?thesis using run ops by (auto simp: blocks_change_def with_table_cases err_def set_committed_def split: if_splits bind_splits)
qed

lemma register_initialized: "cat_inv T \<Longrightarrow> with_table (block_register request) T = Some (r, T') \<Longrightarrow> initialized T' = initialized T"
  using block_register_exact [of T request] by (auto simp: with_table_cases split: if_splits)

lemma init_entries_initialized:
  "cat_inv T \<Longrightarrow> init_entries memory T = Some (b, T') \<Longrightarrow> initialized T' = initialized T"
proof (induction memory arbitrary: T)
  case (Cons e rest)
  show ?case
  proof (cases "me_valid e \<and> me_length e \<noteq> 0")
    case True
    obtain r T1 where r: "with_table (block_register (block_boot_request e)) T = Some (r, T1)" "cat_inv T1"
      using fine_register [OF Cons.prems(1), of "block_boot_request e"] by (auto simp: fine_def)
    then show ?thesis using True Cons.IH [OF r(2)] Cons.prems register_initialized [OF Cons.prems(1) r(1)] by (cases r) auto
  next
    case False
    then show ?thesis using Cons.IH [OF Cons.prems(1)] Cons.prems(2) by auto
  qed
qed auto

lemma catalogue_initialized: "catalogue T \<Longrightarrow> initialized T"
proof (induction rule: catalogue.induct)
  case (Init memory T fine_map T')
  then show ?case using init_entries_initialized [of "(table_reset T)\<lparr>initialized := True\<rparr>" memory fine_map T'] reset_ok [of T]
    by (simp add: blocks_init_def cat_inv_initialized)
next
  case (Register T request out T')
  then show ?case using register_initialized [OF catalogue_inv [OF Register.hyps(1)], of request]
    by (auto simp: blocks_register_def output_id_def split: bind_splits)
next
  case (Range T request retag out T')
  note inv = catalogue_inv [OF Range.hyps(1)]
  show ?case using Range claim_range_ok [OF inv, of request] retag_range_ok [OF inv, of request]
    by (auto simp: blocks_range_def output_id_def with_table_cases range_result_def Let_def split: if_splits)
next
  case (Prefix T base max_len free n T')
  obtain m T1 where "block_prefix base max_len free T = Some (m, T1)" "still T T1"
    using block_prefix_ok [OF catalogue_inv [OF Prefix.hyps(1)]] by blast
  then show ?case using Prefix stillD(3) [of T T1] by (auto simp: blocks_prefix_def with_table_cases ok_def)
next
  case (Prepare T base len out T')
  then show ?case using blocks_prepare_ok [OF catalogue_inv [OF Prepare.hyps(1)], of base len] by auto
next
  case (Finish T base len code plan T1 coalesce cancel plan' T')
  then have "cat_inv T1" "plan_active plan" "plan_ready T1 base len plan" "initialized T1"
    using blocks_prepare_ok [OF catalogue_inv [OF Finish.hyps(1)], of base len] by auto
  then show ?case using blocks_finish_ok [of T1 plan base len coalesce cancel] Finish.hyps(3) by auto
next
  case (Change T ident operation bytes u code T')
  then show ?case using change_initialized [OF catalogue_inv [OF Change.hyps(1)]] by simp
next
  case (Coalesce T T')
  then show ?case using block_coalesce_ok [OF catalogue_inv [OF Coalesce.hyps(1)]]
    by (auto simp: blocks_coalesce_def with_table_cases ok_def coalesced_def)
qed

end
