(* ===== verification/Block_Live.thy ===== *)
theory Block_Live
  imports Block_Reach
begin

text \<open>
  Operations that must succeed: with two free slots and three identities left, a claim of free memory
  and the release of a block go through.
\<close>

section \<open>Claims that must succeed\<close>

definition free_slots :: "(nat \<Rightarrow> block) \<Rightarrow> nat" where
  "free_slots ents = card {i. i < MAX_BLOCKS \<and> reusable_entry (ents i)}"

text \<open>Room for \<open>k\<close> more blocks: slots to hold them and identities to number them.\<close>

definition room :: "nat \<Rightarrow> block_table \<Rightarrow> bool" where
  "room k T \<longleftrightarrow> k \<le> free_slots (entries T) \<and> bt_next_id T \<noteq> 0 \<and> bt_next_id T + k \<le> 2 ^ 32"

text \<open>The byte counters of every block can take the bytes of a merged request.\<close>

definition bytes_fit :: "(nat \<Rightarrow> block) \<Rightarrow> nat \<Rightarrow> bool" where
  "bytes_fit ents n \<longleftrightarrow> (\<forall>i. phys_slot ents i \<longrightarrow> b_reserved (ents i) + n \<le> U64_MAX \<and> b_committed (ents i) + n \<le> U64_MAX)"

text \<open>No block has more committed than reserved bytes.\<close>

definition sane :: "(nat \<Rightarrow> block) \<Rightarrow> bool" where
  "sane ents \<longleftrightarrow> (\<forall>i. phys_slot ents i \<longrightarrow> b_committed (ents i) \<le> b_reserved (ents i))"

text \<open>A block that holds a request: its range and its attributes.\<close>

definition holder :: "(nat \<Rightarrow> block) \<Rightarrow> block \<Rightarrow> nat \<Rightarrow> bool" where
  "holder ents request i \<longleftrightarrow> phys_slot ents i \<and> b_phys_base (ents i) \<le> b_phys_base request \<and> block_end request \<le> block_end (ents i)
     \<and> attr (ents i) = attr request \<and> b_virt_len (ents i) = 0 \<and> b_committed (ents i) \<le> b_reserved (ents i)"

lemma free_slots_write:
  assumes "i < MAX_BLOCKS"
  shows "free_slots (ents(i := e)) + (if reusable_entry (ents i) then 1 else 0) = free_slots ents + (if reusable_entry e then 1 else 0)"
proof -
  define A where "A = {j. j < MAX_BLOCKS \<and> j \<noteq> i \<and> reusable_entry (ents j)}"
  have A: "finite A" "i \<notin> A" by (auto simp: A_def)
  have "{j. j < MAX_BLOCKS \<and> reusable_entry (ents j)} = (if reusable_entry (ents i) then insert i A else A)" using assms by (auto simp: A_def)
  moreover have "{j. j < MAX_BLOCKS \<and> reusable_entry ((ents(i := e)) j)} = (if reusable_entry e then insert i A else A)"
    using assms by (auto simp: A_def)
  ultimately show ?thesis using A by (simp add: free_slots_def)
qed

lemma room_slot:
  assumes "idx_inv T" and "room (Suc k) T"
  shows "\<exists>s. slot_pick T = Some s" "\<exists>i < MAX_BLOCKS. reusable_entry (entries T i)"
proof -
  have "{i. i < MAX_BLOCKS \<and> reusable_entry (entries T i)} \<noteq> {}"
  proof
    assume "{i. i < MAX_BLOCKS \<and> reusable_entry (entries T i)} = {}"
    then have "free_slots (entries T) = 0" unfolding free_slots_def by (simp only: card.empty)
    then show False using assms(2) by (simp add: room_def)
  qed
  then show "\<exists>i < MAX_BLOCKS. reusable_entry (entries T i)" by blast
  then show "\<exists>s. slot_pick T = Some s" using slot_pick_None [OF assms(1)] by auto
qed

lemma room_registered:
  assumes reg: "registered request T ident T'" and r: "room (Suc k) T" and st: "b_status request \<noteq> RELEASED"
  shows "k \<le> free_slots (entries T')" "k \<noteq> 0 \<Longrightarrow> room k T'"
proof -
  obtain s where s: "s < MAX_BLOCKS" "reusable_entry (entries T s)" "entries T' = (entries T)(s := block_entry request ident)"
    using reg by (auto simp: registered_def)
  have "\<not> reusable_entry (block_entry request ident)" using st by (simp add: reusable_entry_def block_entry_def)
  then show f: "k \<le> free_slots (entries T')" using free_slots_write [OF s(1), of "entries T" "block_entry request ident"] s(2,3) r by (simp add: room_def)
  assume "k \<noteq> 0"
  then show "room k T'" using f r reg by (auto simp: room_def registered_def)
qed

lemma room_soft: "soft T T' \<Longrightarrow> room k T' = room k T"
  using softD(1,2) [of T T'] by (simp add: room_def)

lemma room_answer:
  assumes "room (Suc k) T" and "idx_inv T" and "validate request = Inr ()" and "\<not> phys_clash (entries T) request" and "\<not> virt_clash (entries T) request"
  shows "register_answer request T = Inr (bt_next_id T)"
  using assms room_slot(2) [OF assms(2,1)] by (auto simp: register_answer_def room_def)

text \<open>With room, a part of a split block finds its slot.\<close>

lemma journal_part_live:
  assumes inv: "cat_inv T" and j: "journalled T0 J T" and im: "length (images J) < 4" and r: "room (Suc k) T"
    and v: "validate request = Inr ()" and c: "\<not> phys_clash (entries T) request" "\<not> virt_clash (entries T) request"
    and st: "b_status request \<noteq> RELEASED" and b: "b_reserved request = 0" "b_committed request = 0"
  shows "\<exists>J' T'. journal_part request (J, T) = Some (Inr (), (J', T')) \<and> k \<le> free_slots (entries T') \<and> (k \<noteq> 0 \<longrightarrow> room k T')
     \<and> (bytes_fit (entries T) n \<and> n \<le> U64_MAX \<longrightarrow> bytes_fit (entries T') n) \<and> (sane (entries T) \<longrightarrow> sane (entries T'))
     \<and> (\<forall>i. phys_slot (entries T) i \<longrightarrow> entries T' i = entries T i)"
proof -
  have i: "idx_inv T" using inv by (simp add: cat_inv_def)
  obtain s where s: "slot_pick T = Some s" using room_slot(1) [OF i r] by blast
  obtain T1 where 1: "free_slot_or_full T = Some (Inr s, T1)" "soft T T1" "s < MAX_BLOCKS"
    using free_slot_or_full_ok [OF i] s by auto
  note c1 = softD(6) [OF 1(2) inv] and e1 = softD(1) [OF 1(2)]
  obtain J1 where J1: "remember s (J, T1) = Some (Inr (), (J1, T1))"
    using remember_ok [OF journalled_soft [OF j e1] 1(3) im] by blast
  have r1: "room (Suc k) T1" using r room_soft [OF 1(2)] by simp
  have i1: "idx_inv T1" using c1 by (simp add: cat_inv_def)
  have a: "register_answer request T1 = Inr (bt_next_id T1)" using room_answer [OF r1 i1 v] c e1 by simp
  obtain ra T' where ra: "block_register request T1 = Some (ra, T')" "case ra of Inl _ \<Rightarrow> soft T1 T' | Inr ident \<Rightarrow> registered request T1 ident T'"
    using block_register_ok [OF c1] by blast
  have "ra = Inr (bt_next_id T1)" using block_register_exact [OF c1, of request] a ra(1) by auto
  then have reg: "registered request T1 (bt_next_id T1) T'" "block_register request T1 = Some (Inr (bt_next_id T1), T')" using ra by auto
  have run: "journal_part request (J, T) = Some (Inr (), (J1, T'))" using 1(1) J1 reg(2) by (simp add: journal_part_def on_table_def ok_def)
  have "bytes_fit (entries T) n \<and> n \<le> U64_MAX \<longrightarrow> bytes_fit (entries T') n"
    using b reg(1) e1 by (auto simp: bytes_fit_def registered_def phys_slot_def block_entry_def)
  moreover have "sane (entries T) \<longrightarrow> sane (entries T')" using b reg(1) e1 by (auto simp: sane_def registered_def phys_slot_def block_entry_def)
  moreover have "\<forall>i. phys_slot (entries T) i \<longrightarrow> entries T' i = entries T i"
    using reg(1) e1 reusable_not_physical(2) by (auto simp: registered_def phys_slot_def)
  ultimately show ?thesis using run room_registered [OF reg(1) r1 st] by blast
qed

lemma add_or_merge_live:
  assumes inv: "cat_inv T" and r: "room (Suc k) T" and v: "validate request = Inr ()"
    and none: "\<And>a. b_phys_base request \<le> a \<Longrightarrow> a < block_end request \<Longrightarrow> phys_view (entries T) a = None"
    and len: "b_phys_len request \<noteq> 0" and virt: "b_virt_len request = 0" and st: "b_status request \<noteq> RELEASED"
    and bytes: "b_reserved request = n" "b_committed request = n" "bytes_fit (entries T) n"
  shows "\<exists>ident T'. add_or_merge request T = Some (Inr ident, T') \<and> k \<le> free_slots (entries T') \<and> (k \<noteq> 0 \<longrightarrow> room k T')
     \<and> (sane (entries T) \<longrightarrow> (\<exists>i. holder (entries T') request i))"
proof -
  have fin: "block_end request \<le> U64_MAX" using v by (simp add: validate_OK block_end_def)
  have d: "disjoint_blocks (entries T)" using inv by (simp add: cat_inv_def)
  have clear: "clear_range (entries T) (b_phys_base request) (block_end request)"
    by (rule clear_view [OF d _ none]) (use len in \<open>simp_all add: block_end_def\<close>)
  have nc: "\<not> phys_clash (entries T) request" "\<not> virt_clash (entries T) request"
    using none virt by (auto simp: phys_clash_def virt_clash_def block_end_def)
  show ?thesis
  proof (cases "merge_pick (entries T) request")
    case None
    obtain T1 where 1: "merge_slot request T = Some (Inr None, T1)" "still T T1" using merge_slot_ok [OF inv fin] None by auto
    note c1 = stillD(6) [OF 1(2) inv] and e1 = stillD(1) [OF 1(2)]
    have r1: "room (Suc k) T1" using r room_soft [OF stillD(7) [OF 1(2)]] by simp
    have i1: "idx_inv T1" using c1 by (simp add: cat_inv_def)
    have a: "register_answer request T1 = Inr (bt_next_id T1)" using room_answer [OF r1 i1 v] nc e1 by simp
    obtain ra T' where ra: "block_register request T1 = Some (ra, T')" "case ra of Inl _ \<Rightarrow> soft T1 T' | Inr ident \<Rightarrow> registered request T1 ident T'"
      using block_register_ok [OF c1] by blast
    have "ra = Inr (bt_next_id T1)" using block_register_exact [OF c1, of request] a ra(1) by auto
    then have reg: "registered request T1 (bt_next_id T1) T'" "block_register request T1 = Some (Inr (bt_next_id T1), T')" using ra by auto
    obtain s where s: "s < MAX_BLOCKS" "entries T' = (entries T)(s := block_entry request (bt_next_id T1))"
      using reg(1) e1 by (auto simp: registered_def)
    have "holder (entries T') request s" using s len virt st bytes(1,2)
      by (simp add: holder_def phys_slot_def physical_index_def block_active_def block_entry_def block_end_def attr_def)
    then show ?thesis using 1(1) room_registered [OF reg(1) r1 st] reg(2) by (auto simp: add_or_merge_def)
  next
    case (Some i)
    have ps: "phys_slot (entries T) i" using merge_pick_Some [OF Some] by (auto simp: left_mate_def right_mate_def)
    then obtain T' where T': "add_or_merge request T = Some (Inr (b_id (entries T i)), T')"
       "entries T' = (entries T)(i := merged_into (entries T i) request)" "bt_next_id T' = bt_next_id T"
      using add_or_merge_join [OF inv fin clear Some] bytes by (auto simp: bytes_fit_def)
    have m: "mate (entries T) request i" using merge_pick_Some [OF Some] by (simp add: mate_def)
    have "\<not> reusable_entry (entries T i)" using ps reusable_not_physical by (auto simp: phys_slot_def)
    moreover have "\<not> reusable_entry (merged_into (entries T i) request)"
      using reusable_not_physical(2) merged_into_facts(2) [OF m] by blast
    ultimately have "free_slots (entries T') = free_slots (entries T)"
      using free_slots_write [of i "entries T" "merged_into (entries T i) request"] ps T'(2) by (simp add: phys_slot_def)
    moreover have "holder (entries T') request i" if "sane (entries T)"
      using that ps merged_into_facts [OF m] bytes(1,2) T'(2)
      by (simp add: holder_def sane_def phys_slot_def) (simp add: merged_into_def)
    ultimately show ?thesis using T'(1,3) r by (auto simp: room_def)
  qed
qed

lemma journal_place_live:
  assumes inv: "cat_inv T" and j: "journalled T0 J T" and im: "length (images J) < 4" and r: "room (Suc k) T" and v: "validate request = Inr ()"
    and none: "\<And>a. b_phys_base request \<le> a \<Longrightarrow> a < block_end request \<Longrightarrow> phys_view (entries T) a = None"
    and len: "b_phys_len request \<noteq> 0" and virt: "b_virt_len request = 0" and st: "b_status request \<noteq> RELEASED"
    and bytes: "b_reserved request = n" "b_committed request = n" "bytes_fit (entries T) n"
  shows "\<exists>ident J' T'. journal_place request (J, T) = Some (Inr ident, (J', T')) \<and> k \<le> free_slots (entries T') \<and> (k \<noteq> 0 \<longrightarrow> room k T')
     \<and> (sane (entries T) \<longrightarrow> (\<exists>i. holder (entries T') request i))"
proof -
  have i: "idx_inv T" using inv by (simp add: cat_inv_def)
  have fin: "block_end request \<le> U64_MAX" using v by (simp add: validate_OK block_end_def)
  obtain T1 where 1: "merge_slot request T = Some (Inr (merge_pick (entries T) request), T1)" "still T T1" using merge_slot_ok [OF inv fin] by blast
  note c1 = stillD(6) [OF 1(2) inv] and e1 = stillD(1) [OF 1(2)]
  have "\<exists>s T2. (case merge_pick (entries T) request of Some slot \<Rightarrow> ok slot (J, T1) | None \<Rightarrow> on_table free_slot_or_full (J, T1)) = Some (Inr s, (J, T2))
     \<and> soft T1 T2 \<and> s < MAX_BLOCKS"
  proof (cases "merge_pick (entries T) request")
    case (Some s)
    then have "s < MAX_BLOCKS" using merge_pick_Some [OF Some] by (auto simp: left_mate_def right_mate_def phys_slot_def)
    then show ?thesis using Some by (simp add: ok_def)
  next
    case None
    have i1: "idx_inv T1" using c1 by (simp add: cat_inv_def)
    obtain s where "slot_pick T1 = Some s" using room_slot(1) [OF i r] slot_pick_still [OF 1(2)] by auto
    then show ?thesis using None free_slot_or_full_ok [OF i1] by (auto simp: on_table_def)
  qed
  then obtain s T2 where s: "(case merge_pick (entries T) request of Some slot \<Rightarrow> ok slot (J, T1) | None \<Rightarrow> on_table free_slot_or_full (J, T1)) = Some (Inr s, (J, T2))"
     "soft T1 T2" "s < MAX_BLOCKS" by blast
  have s2: "soft T T2" using soft_trans [OF stillD(7) [OF 1(2)] s(2)] .
  note c2 = softD(6) [OF s2 inv] and e2 = softD(1) [OF s2]
  obtain J1 where J1: "remember s (J, T2) = Some (Inr (), (J1, T2))" using remember_ok [OF journalled_soft [OF j e2] s(3) im] by blast
  have r2: "room (Suc k) T2" using r room_soft [OF s2] by simp
  obtain ident T' where "add_or_merge request T2 = Some (Inr ident, T')" "k \<le> free_slots (entries T')" "k \<noteq> 0 \<longrightarrow> room k T'"
     "sane (entries T) \<longrightarrow> (\<exists>i. holder (entries T') request i)"
    using add_or_merge_live [OF c2 r2 v _ len virt st bytes(1,2)] none bytes(3) e2 by auto
  then show ?thesis using 1(1) s(1) J1 by (simp add: journal_place_def on_table_def)
qed

lemma jresD:
  assumes "jres T0 k V s res" and "res = Some (Inr v, (J', T'))"
  shows "cat_inv T'" "journalled T0 J' T'" "length (images J') \<le> length (images (fst s)) + k" "phys_view (entries T') = V"
  using assms by (auto simp: jres_def)

lemma free_request_valid: "n \<noteq> 0 \<Longrightarrow> base + n \<le> U64_MAX \<Longrightarrow> validate (free_request base n) = Inr ()"
  by (simp add: validate_OK free_request_facts part_request_virt)
    (simp add: free_request_def block_physical_def REQUEST_def BLOCK_EMPTY_def)

lemma free_request_quiet:
  "b_status (free_request base n) \<noteq> RELEASED" "b_reserved (free_request base n) = 0" "b_committed (free_request base n) = 0"
  by (simp_all add: free_request_def block_physical_def REQUEST_def BLOCK_EMPTY_def FREE_def RELEASED_def)

lemma when_part_live:
  assumes inv: "cat_inv T" and j: "journalled T0 J T" and im: "length (images J) < 4" and r: "room (Suc k) T"
    and none: "\<And>a. base \<le> a \<Longrightarrow> a < base + n \<Longrightarrow> phys_view (entries T) a = None" and top: "base + n \<le> U64_MAX"
  shows "\<exists>J' T'. when_step (n \<noteq> 0) (journal_part (free_request base n)) (J, T) = Some (Inr (), (J', T'))
     \<and> cat_inv T' \<and> journalled T0 J' T' \<and> length (images J') \<le> length (images J) + 1
     \<and> phys_view (entries T') = paint base n (Some free_attr) (phys_view (entries T)) \<and> (k \<noteq> 0 \<longrightarrow> room k T')
     \<and> (bytes_fit (entries T) l \<and> l \<le> U64_MAX \<longrightarrow> bytes_fit (entries T') l) \<and> (sane (entries T) \<longrightarrow> sane (entries T'))
     \<and> (\<forall>i. phys_slot (entries T) i \<longrightarrow> entries T' i = entries T i)"
proof (cases "n = 0")
  case True
  then show ?thesis using inv j r by (auto simp: when_step_def ok_def room_def)
next
  case False
  have nc: "\<not> phys_clash (entries T) (free_request base n)" "\<not> virt_clash (entries T) (free_request base n)"
    using none by (auto simp: phys_clash_def virt_clash_def free_request_facts part_request_virt)
  obtain J' T' where l: "journal_part (free_request base n) (J, T) = Some (Inr (), (J', T'))" "k \<noteq> 0 \<longrightarrow> room k T'"
     "bytes_fit (entries T) l \<and> l \<le> U64_MAX \<longrightarrow> bytes_fit (entries T') l" "sane (entries T) \<longrightarrow> sane (entries T')"
     "\<forall>i. phys_slot (entries T) i \<longrightarrow> entries T' i = entries T i"
    using journal_part_live [OF inv j im r free_request_valid [OF False top] nc free_request_quiet] by blast
  have "jres T0 1 (paint base n (Some free_attr) (phys_view (entries T))) (J, T) (journal_part (free_request base n) (J, T))"
    using journal_part_ok [OF inv j im, of "free_request base n"] False none by (simp add: free_request_facts)
  note D = jresD [OF this l(1)]
  show ?thesis using False l D by (simp add: when_step_def)
qed

lemma split_steps_live:
  assumes inv: "cat_inv T" and j: "journalled T0 J T" and im: "length (images J) \<le> 1" and r: "room (k + 3) T" and f: "bytes_fit (entries T) len"
    and geo: "lo + n = base" "base + len + m = hi" "hi \<le> U64_MAX" "len \<noteq> 0"
    and none: "\<And>a. lo \<le> a \<Longrightarrow> a < hi \<Longrightarrow> phys_view (entries T) a = None"
    and req: "b_phys_base request = base" "b_phys_len request = len" "validate request = Inr ()" "b_virt_len request = 0" "b_status request \<noteq> RELEASED"
      "b_reserved request = len" "b_committed request = len"
  shows "\<exists>ident J' T'. split_steps (free_request lo n) request (free_request (base + len) m) n m (J, T) = Some (Inr ident, (J', T'))
     \<and> (k \<noteq> 0 \<longrightarrow> room k T') \<and> (sane (entries T) \<longrightarrow> (\<exists>i. holder (entries T') request i))"
proof -
  have l: "len \<le> U64_MAX" using geo by simp
  have r3: "room (Suc (k + 2)) T" using r by (simp add: numeral_3_eq_3 numeral_2_eq_2)
  obtain J1 T1 where 1: "when_step (n \<noteq> 0) (journal_part (free_request lo n)) (J, T) = Some (Inr (), (J1, T1))" "cat_inv T1" "journalled T0 J1 T1"
     "length (images J1) \<le> 2" "phys_view (entries T1) = paint lo n (Some free_attr) (phys_view (entries T))" "room (k + 2) T1" "bytes_fit (entries T1) len"
     "sane (entries T) \<longrightarrow> sane (entries T1)"
    using when_part_live [OF inv j _ r3, of lo n len] im geo none f l by (auto simp: numeral_2_eq_2)
  have n1: "phys_view (entries T1) a = None" if "b_phys_base request \<le> a" "a < block_end request" for a
    using that none geo req(1,2) unfolding 1(5) by (auto simp: paint_def block_end_def)
  have len: "b_phys_len request \<noteq> 0" using req(2) geo(4) by simp
  have r2: "room (Suc (k + 1)) T1" using 1(6) by (simp add: numeral_2_eq_2)
  have i1: "length (images J1) < 4" using 1(4) by simp
  obtain ident J2 T2 where 2: "journal_place request (J1, T1) = Some (Inr ident, (J2, T2))" "room (k + 1) T2"
     "sane (entries T1) \<longrightarrow> (\<exists>i. holder (entries T2) request i)"
    using journal_place_live [OF 1(2,3) i1 r2 req(3) n1 len req(4-7) 1(7)] by auto
  have fin: "block_end request \<le> U64_MAX" using req(1,2) geo by (simp add: block_end_def)
  have "jres T0 1 (paint base len (shade request) (phys_view (entries T1))) (J1, T1) (journal_place request (J1, T1))"
    using journal_place_ok [OF 1(2,3) i1 len fin n1] req(1,2) by simp
  note D = jresD [OF this 2(1)]
  have n2: "phys_view (entries T2) a = None" if "base + len \<le> a" "a < base + len + m" for a
    using that none geo unfolding D(4) 1(5) by (auto simp: paint_def)
  have r1: "room (Suc k) T2" using 2(2) by simp
  obtain J3 T3 where 3: "when_step (m \<noteq> 0) (journal_part (free_request (base + len) m)) (J2, T2) = Some (Inr (), (J3, T3))"
     "k \<noteq> 0 \<longrightarrow> room k T3" "\<forall>i. phys_slot (entries T2) i \<longrightarrow> entries T3 i = entries T2 i"
    using when_part_live [OF D(1,2) _ r1, of "base + len" m 0] n2 D(3) 1(4) geo by auto
  have "holder (entries T3) request i" if "holder (entries T2) request i" for i
  proof -
    have "entries T3 i = entries T2 i" using 3(3) that by (simp add: holder_def)
    then show ?thesis using that by (simp add: holder_def phys_slot_def)
  qed
  moreover have "split_steps (free_request lo n) request (free_request (base + len) m) n m (J, T) = Some (Inr ident, (J3, T3))"
    using 1(1) 2(1) 3(1) by (simp add: split_steps_def ok_def)
  ultimately show ?thesis using 1(8) 2(3) 3(2) by blast
qed

text \<open>A claim succeeds when a free block holds the range and there is room for the parts.\<close>

lemma block_claim_live:
  assumes inv: "cat_inv T0" and i: "holds_range (entries T0) True base (base + len) i"
    and req: "b_phys_base request = base" "b_phys_len request = len" "len \<noteq> 0" "b_virt_len request = 0" "b_virt_base request \<le> U64_MAX"
    and slots: "k + 2 \<le> free_slots (entries T0)" and ids: "bt_next_id T0 \<noteq> 0" "bt_next_id T0 + k + 3 \<le> 2 ^ 32" and f: "bytes_fit (entries T0) len"
  shows "\<exists>ident T'. block_claim request T0 = Some (Inr ident, T') \<and> (k \<noteq> 0 \<longrightarrow> room k T')
     \<and> (sane (entries T0) \<longrightarrow> (\<exists>i. holder (entries T') (request\<lparr>b_status := COMMITTED, b_reserved := len, b_committed := len\<rparr>) i))"
proof -
  let ?e = "entries T0" and ?b = "entries T0 i"
  let ?T = "T0\<lparr>hot := (hot T0)\<lparr>claim_transactions := wrapping_add64 (claim_transactions (hot T0)) 1\<rparr>\<rparr>"
  have st: "still T0 ?T" by (rule still_hot) (auto simp: low_steps_def)
  obtain at T1 where at: "block_containing base len True ?T = Some (at, T1)" "still ?T T1"
     "case at of None \<Rightarrow> \<forall>i. \<not> holds_range ?e True base (base + len) i | Some i \<Rightarrow> holds_range ?e True base (base + len) i"
    using block_containing_ok [OF stillD(6) [OF st inv] req(3), of base True] unfolding stillD(1) [OF st] by blast
  note st1 = still_trans [OF st at(2)]
  note c1 = stillD(6) [OF st1 inv] and e1 = stillD(1) [OF st1] and k1 = stillD(2) [OF st1]
  obtain i' where ai: "at = Some i'" using at(3) i by (cases at) auto
  have i': "holds_range ?e True base (base + len) i'" using at(3) ai by simp
  let ?b = "?e i'"
  obtain n m J1 T2 where s: "split_ready T1 i' base len n m J1 T2" using split_block [OF c1, unfolded e1, OF i'] req(3) by auto
  note S = s [unfolded split_ready_def Let_def e1]
  have ps: "phys_slot ?e i'" and geo: "b_phys_base ?b \<le> base" "base + len \<le> block_end ?b" using i' by (auto simp: holds_range_def)
  have lt: "i' < MAX_BLOCKS" using ps by (simp add: phys_slot_def)
  obtain J2 T2' where t: "remember i' (\<lparr>images = [], j_next_id = bt_next_id T1\<rparr>, T1) = Some (Inr (), (J2, T1))"
     "block_replace i' (released ?b) T1 = Some T2'" "cat_inv T2'" "journalled T1 J2 T2'" "length (images J2) \<le> 1"
     "phys_view (entries T2') = (\<lambda>a. if covers_addr ?b a then None else phys_view ?e a)"
    using split_start [OF c1, unfolded e1, OF ps] by blast
  have same: "J2 = J1" "T2' = T2" using S t(1,2) by (auto simp: on_table_def replace_step_def ok_def)
  obtain T3 where T3: "block_replace i' (released ?b) T1 = Some T3" "entries T3 = ?e(i' := released ?b)" "bt_next_id T3 = bt_next_id T1"
    using release_write [OF c1 lt] e1 by auto
  have T2: "entries T2 = ?e(i' := released ?b)" "bt_next_id T2 = bt_next_id T0" using T3 t(2) same k1 by auto
  have nm: "b_phys_base ?b + n = base" "base + len + m = block_end ?b" using S geo by (auto simp: sub_unsigned_def split: if_splits)
  have "\<not> reusable_entry ?b" using ps reusable_not_physical by (auto simp: phys_slot_def)
  then have room: "room (k + 3) T2" using free_slots_write [OF lt, of ?e "released ?b"] slots ids T2
    by (simp add: room_def reusable_entry_def released_def)
  have fit: "bytes_fit (entries T2) len" using f by (auto simp: bytes_fit_def T2(1) release_slot)
  have sane: "sane (entries T0) \<longrightarrow> sane (entries T2)" by (auto simp: sane_def T2(1) release_slot)
  let ?req = "request\<lparr>b_status := COMMITTED, b_reserved := len, b_committed := len\<rparr>"
  have v: "validate ?req = Inr ()" using req phys_slot_ends(1) [OF inv ps] geo by (simp add: validate_OK)
  obtain ident J' T' where run: "split_steps (free_request (b_phys_base ?b) n) ?req (free_request (base + len) m) n m (J1, T2) = Some (Inr ident, (J', T'))"
     "k \<noteq> 0 \<longrightarrow> room k T'" "sane (entries T2) \<longrightarrow> (\<exists>i. holder (entries T') ?req i)"
    using split_steps_live [OF t(3,4,5) [unfolded same] room fit nm phys_slot_ends(1) [OF inv ps] req(3), of ?req] v req(1,2,4) t(6) same
    by (auto simp: covers_addr_def COMMITTED_def RELEASED_def)
  have "block_containing (b_phys_base request) (b_phys_len request) True ?T = Some (Some i', T1)" using at(1) ai req(1,2) by simp
  then show ?thesis using block_claim_found [of request T0 i' T1 n m J1 T2 ?b] s e1 req(1-3) run sane by (simp add: ok_def)
qed

section \<open>Collecting slots, completely\<close>

lemma collect_word_complete:
  assumes "card {k. k < 64 \<and> bit w k} \<le> n" and "length (collect_word n wanted excluded base w acc) < wanted" and "k < 64" and "bit w k" and "base + k \<noteq> excluded"
  shows "base + k \<in> set (collect_word n wanted excluded base w acc)"
  using assms
proof (induction n arbitrary: w acc)
  case 0
  then have "{k. k < 64 \<and> bit w k} = {}" by simp
  then show ?case using 0 by auto
next
  case (Suc n)
  have ne: "w \<noteq> 0" using Suc.prems(4) by auto
  let ?b = "trailing_zeros w"
  note tz = trailing_zeros_props [OF ne]
  let ?w = "w AND NOT (push_bit ?b 1)" and ?acc = "if base + ?b = excluded then acc else acc @ [base + ?b]"
  have bw: "bit ?w j \<longleftrightarrow> bit w j \<and> j \<noteq> ?b" if "j < 64" for j using that tz(1) by (auto simp: bit_and_iff bit_not_iff bit_slot_mask)
  have keep: "set acc \<subseteq> set (collect_word m wanted excluded base v acc)" for m v acc using collect_word_ok [of m wanted excluded base v acc] by auto
  have len: "length acc < wanted"
  proof (rule ccontr)
    assume "\<not> length acc < wanted"
    then show False using Suc.prems(2) by simp
  qed
  then have run: "collect_word (Suc n) wanted excluded base w acc = collect_word n wanted excluded base ?w ?acc" using ne by (simp add: Let_def)
  show ?case
  proof (cases "k = ?b")
    case True
    then have "base + k \<in> set ?acc" using Suc.prems(5) by auto
    then show ?thesis unfolding run using keep [of ?acc n ?w] by blast
  next
    case False
    have "{j. j < 64 \<and> bit w j} = insert ?b {j. j < 64 \<and> bit ?w j}" using bw tz(1,2) by auto
    moreover have "?b \<notin> {j. j < 64 \<and> bit ?w j}" using bw tz(1) by auto
    ultimately have "card {j. j < 64 \<and> bit ?w j} \<le> n" using Suc.prems(1) by (simp add: card_insert_if)
    then show ?thesis unfolding run using Suc.IH [of ?w ?acc] Suc.prems(2-5) bw False run by auto
  qed
qed

lemma card_bits: "card {k. k < 64 \<and> bit (w :: u64) k} \<le> 64"
  using card_mono [of "{..<64}" "{k. k < 64 \<and> bit w k}"] by auto

lemma collect_words_complete:
  assumes "length (fst (collect_words n ws scanned wanted excluded acc)) < wanted" and "scanned * 64 \<le> y" and "y < (scanned + n) * 64"
    and "bit (ws (y div 64)) (y mod 64)" and "y \<noteq> excluded"
  shows "y \<in> set (fst (collect_words n ws scanned wanted excluded acc))"
  using assms
proof (induction n arbitrary: scanned acc)
  case (Suc n)
  have keep: "set acc \<subseteq> set (fst (collect_words m ws sc wanted excluded acc))" "length acc \<le> length (fst (collect_words m ws sc wanted excluded acc))" for m sc acc
    using collect_words_ok [of m ws sc wanted excluded acc] by auto
  have len: "length acc < wanted" using Suc.prems(1) keep(2) [of acc "Suc n" scanned] by linarith
  let ?acc = "collect_word 64 wanted excluded (scanned * 64) (ws scanned) acc"
  have run: "collect_words (Suc n) ws scanned wanted excluded acc = collect_words n ws (scanned + 1) wanted excluded ?acc" using len by simp
  show ?case
  proof (cases "y < scanned * 64 + 64")
    case True
    then have d: "y div 64 = scanned" using Suc.prems(2) by (metis add.commute div_nat_eqI mult.commute mult_Suc)
    then have m: "scanned * 64 + y mod 64 = y" by (metis div_mult_mod_eq)
    have "length ?acc < wanted" using Suc.prems(1) keep(2) [of ?acc n "scanned + 1"] unfolding run by linarith
    then have "y \<in> set ?acc"
      using collect_word_complete [OF card_bits, of wanted excluded "scanned * 64" "ws scanned" acc "y mod 64"] Suc.prems(4,5) d m by simp
    then show ?thesis unfolding run using keep(1) [of ?acc n "scanned + 1"] by blast
  next
    case False
    then show ?thesis unfolding run using Suc.IH [of "scanned + 1" ?acc] Suc.prems run by simp
  qed
qed simp

lemma plan_slots_complete:
  assumes inv: "cat_inv T" and i: "phys_slot (entries T) i" and n: "length rs \<le> 3" and f: "2 \<le> free_slots (entries T)"
    and c: "collect_slots (if rs \<noteq> [] then [i] else []) (length rs) i T = (ss, T')"
  shows "length ss = length rs"
proof -
  let ?acc = "if rs \<noteq> [] then [i] else []"
  obtain ys T1 where y: "collect_slots ?acc (length rs) i T = (?acc @ ys, T1)" "distinct ys" "length ys \<le> length rs - length ?acc"
     "\<forall>y \<in> set ys. y \<noteq> i \<and> y < MAX_BLOCKS \<and> slot_free T y" using collect_slots_ok [of ?acc "length rs" i T] by blast
  have ss: "ss = ?acc @ ys" using c y(1) by simp
  have le: "length ss \<le> length rs" using ss y(3) by (cases rs) auto
  show ?thesis
  proof (rule ccontr)
    assume "length ss \<noteq> length rs"
    then have lt: "length ss < length rs" using le by simp
    have cw: "ss = fst (collect_words SLOT_WORDS (slots T) 0 (length rs) i ?acc)" using c by (auto simp: collect_slots_def Let_def split: prod.splits)
    have "x \<in> set ss" if "x < MAX_BLOCKS" "reusable_entry (entries T x)" for x
    proof -
      have "x \<noteq> i" using that(2) i reusable_not_physical by (auto simp: phys_slot_def)
      moreover have "bit (slots T (x div 64)) (x mod 64)" using idx_slot_free [of T x] inv that by (simp add: cat_inv_def slot_free_def)
      ultimately show ?thesis using collect_words_complete [of SLOT_WORDS "slots T" 0 "length rs" i ?acc x] lt that(1)
        unfolding cw by (simp add: SLOT_WORDS_eq MAX_BLOCKS_def)
    qed
    then have sub: "insert i {x. x < MAX_BLOCKS \<and> reusable_entry (entries T x)} \<subseteq> set ss" using ss lt by auto
    have "i \<notin> {x. x < MAX_BLOCKS \<and> reusable_entry (entries T x)}" using i reusable_not_physical by (auto simp: phys_slot_def)
    then have "3 \<le> card (insert i {x. x < MAX_BLOCKS \<and> reusable_entry (entries T x)})" using f by (simp add: free_slots_def)
    also have "\<dots> \<le> card (set ss)" using sub by (simp add: card_mono)
    also have "\<dots> \<le> length ss" by (rule card_length)
    finally show False using lt n by simp
  qed
qed

section \<open>Releases that must succeed\<close>

lemma plan_outputs_live:
  assumes "cat_inv T" and "length free = length acc + length rs" and "k \<noteq> 0" and "k + length rs \<le> 2 ^ 32"
    and "\<forall>r \<in> set rs. validate r = Inr () \<and> (\<forall>i. \<not> meets (entries T) (b_phys_base r) (block_end r) ignore i)"
  shows "\<exists>p T'. plan_outputs rs free ignore k acc T = Some (Inr p, T')"
  using assms
proof (induction rs arbitrary: k acc T)
  case Nil
  then show ?case by (simp add: ok_def)
next
  case (Cons r rs)
  have v: "validate r = Inr ()" and m: "\<forall>i. \<not> meets (entries T) (b_phys_base r) (block_end r) ignore i" using Cons.prems(5) by auto
  have c: "idx_inv T" "fits (entries T)" "disjoint_blocks (entries T)" using Cons.prems(1) by (auto simp: cat_inv_def)
  obtain T1 where o: "block_overlaps (b_phys_base r) (b_phys_len r) True ignore T = Some (False, T1)" "still T T1"
    using overlaps_physical_ok [OF c, of "b_phys_base r" "block_end r" ignore] m v
    by (cases "b_phys_len r = 0") (auto simp: block_overlaps_def checked_add64_def validate_OK block_end_def)
  note c1 = stillD(6) [OF o(2) Cons.prems(1)] and e1 = stillD(1) [OF o(2)]
  let ?w = "(free ! length acc, block_entry r k)"
  show ?case
  proof (cases rs)
    case Nil
    then show ?thesis using v o(1) Cons.prems(3) by (simp add: check_cases ok_or_def take_id_def ok_def)
  next
    case (Cons r' rs')
    then have "(k + 1) mod 2 ^ 32 = k + 1" using Cons.prems(4) by simp
    moreover have "\<exists>p T'. plan_outputs rs free ignore (k + 1) (acc @ [?w]) T1 = Some (Inr p, T')"
      by (rule Cons.IH) (use Cons.prems c1 e1 in auto)
    ultimately show ?thesis using v o(1) Cons.prems(3) by (simp add: check_cases ok_or_def take_id_def)
  qed
qed

lemma holds_range_unique:
  assumes inv: "cat_inv T" and i: "holds_range (entries T) f base (base + len) i" and j: "holds_range (entries T) g base (base + len) j" and len: "len \<noteq> 0"
  shows "i = j"
proof (rule ccontr)
  assume ne: "i \<noteq> j"
  have "apart (entries T i) (entries T j)" using inv i j ne by (auto simp: cat_inv_def disjoint_blocks_def holds_range_def phys_slot_def)
  then show False using i j len by (auto simp: apart_def holds_range_def)
qed

lemma part_request_valid:
  assumes "n \<noteq> 0" and "base + n \<le> U64_MAX" and "b_reserved b = 0 \<or> b_committed b \<le> b_reserved b"
  shows "validate (part_request b base n) = Inr ()"
  using assms by (auto simp: validate_OK part_request_def min_def)

lemma release_requests_valid:
  assumes "r \<in> set (release_requests b base len n m alone)" and "b_phys_base b + n = base" and "base + len + m = block_end b" and "len \<noteq> 0"
    and "block_end b \<le> U64_MAX" and "b_reserved b = 0 \<or> b_committed b \<le> b_reserved b"
  shows "validate r = Inr ()"
  using assms by (auto simp: release_requests_def part_request_valid free_request_valid split: if_splits)

lemma release_requests_length: "length (release_requests b base len n m alone) \<le> 3"
  by (simp add: release_requests_def)

lemma build_release_live:
  assumes inv: "cat_inv T" and h: "holds_range (entries T) False base (base + len) i" and len: "len \<noteq> 0"
    and b: "b_virt_len (entries T i) = 0" "b_reserved (entries T i) = 0 \<or> b_committed (entries T i) \<le> b_reserved (entries T i)"
    and slots: "2 \<le> free_slots (entries T)" and ids: "bt_next_id T \<noteq> 0" "bt_next_id T + 3 \<le> 2 ^ 32"
  shows "\<exists>plan T'. build_release base len T = Some (Inr plan, T')"
proof -
  let ?e = "entries T" and ?b = "entries T i" and ?k = "bt_next_id T"
  have ps: "phys_slot ?e i" and geo: "base + len \<le> block_end ?b" using h by (auto simp: holds_range_def)
  have top: "block_end ?b \<le> U64_MAX" using phys_slot_ends(1) [OF inv ps] .
  have add: "checked_add64 base len = Some (base + len)" using geo top by (simp add: checked_add64_def)
  obtain at T1 where at: "block_containing base len False T = Some (at, T1)" "still T T1"
     "case at of None \<Rightarrow> \<forall>i. \<not> holds_range ?e False base (base + len) i | Some i \<Rightarrow> holds_range ?e False base (base + len) i"
    using block_containing_ok [OF inv len, of base False] by blast
  obtain j where j: "at = Some j" using at(3) h by (cases at) auto
  have "j = i" using holds_range_unique [OF inv _ h len, of False j] at(3) j by simp
  then have ai: "at = Some i" using j by simp
  obtain n m lo hi T2 ss T3 where s: "b_phys_base ?b + n = base" "base + len + m = block_end ?b"
     and t: "let rs = release_requests ?b base len n m (lo = None \<and> hi = None) in
        still T T2 \<and> collect_slots (if rs \<noteq> [] then [i] else []) (length rs) i T2 = (ss, T3) \<and> still T T3 \<and> distinct ss
        \<and> (\<forall>s \<in> set ss. s = i \<or> s < MAX_BLOCKS \<and> reusable_entry (?e s))
        \<and> build_release base len T = (if length ss \<noteq> length rs then err TableFull T3
             else andthen (plan_outputs rs ss (b_id ?b) ?k [] T3) (\<lambda>(writes, next1) T4.
               ok ((merge_plan lo hi base (base + len) (plan_new i ?b ?k))\<lparr>plan_writes := writes, next_id_after := next1\<rparr>) T4))"
    using build_release_steps [OF inv add len at(1) [unfolded ai] at(2) h b(1)] by blast
  let ?rs = "release_requests ?b base len n m (lo = None \<and> hi = None)"
  have s2: "still T T2" and c: "collect_slots (if ?rs \<noteq> [] then [i] else []) (length ?rs) i T2 = (ss, T3)" and s3: "still T T3"
    and run: "build_release base len T = (if length ss \<noteq> length ?rs then err TableFull T3
             else andthen (plan_outputs ?rs ss (b_id ?b) ?k [] T3) (\<lambda>(writes, next1) T4.
               ok ((merge_plan lo hi base (base + len) (plan_new i ?b ?k))\<lparr>plan_writes := writes, next_id_after := next1\<rparr>) T4))"
    using t unfolding Let_def by blast+
  have full: "length ss = length ?rs"
    using plan_slots_complete [OF stillD(6) [OF s2 inv] _ release_requests_length _ c] ps slots stillD(1) [OF s2] by simp
  have out: "validate r = Inr () \<and> (\<forall>j. \<not> meets (entries T3) (b_phys_base r) (block_end r) (b_id ?b) j)" if r: "r \<in> set ?rs" for r
  proof -
    note R = release_requests_each [OF r s len]
    have "\<not> meets ?e (b_phys_base r) (block_end r) (b_id ?b) j" for j
    proof
      assume m: "meets ?e (b_phys_base r) (block_end r) (b_id ?b) j"
      then have "j \<noteq> i" "phys_slot ?e j" by (auto simp: meets_def)
      then have "block_end (?e j) \<le> b_phys_base ?b \<or> block_end ?b \<le> b_phys_base (?e j)"
        using target_apart [of ?e "bt_next_id T" i j] inv ps by (simp add: cat_inv_entries)
      then show False using m R(2,3) by (auto simp: meets_def)
    qed
    then show ?thesis using release_requests_valid [OF r s len top b(2)] stillD(1) [OF s3] by simp
  qed
  have "\<exists>p T'. plan_outputs ?rs ss (b_id ?b) ?k [] T3 = Some (Inr p, T')"
    by (rule plan_outputs_live [OF stillD(6) [OF s3 inv]])
      (use full ids release_requests_length [of ?b base len n m "lo = None \<and> hi = None"] out in auto)
  then show ?thesis unfolding run using full by (auto simp: ok_def split: prod.splits)
qed

lemma prepare_release_live:
  assumes "cat_inv T" and "holds_range (entries T) False base (base + len) i" and "len \<noteq> 0"
    and "b_virt_len (entries T i) = 0" "b_reserved (entries T i) = 0 \<or> b_committed (entries T i) \<le> b_reserved (entries T i)"
    and "2 \<le> free_slots (entries T)" and "bt_next_id T \<noteq> 0" "bt_next_id T + 3 \<le> 2 ^ 32"
  shows "\<exists>plan T'. prepare_release base len T = Some (Inr plan, T')"
  using build_release_live [OF assms] by (auto simp: prepare_release_def)

end
