(* ===== verification/Block_Props.thy ===== *)
theory Block_Props
  imports Block_Live
begin

text \<open>
  The properties of the block catalogue over the states that boot and the exported operations of
  \<^verbatim>\<open>blocks.rs\<close> can reach, and a small concrete catalogue on which each of them is applied.
\<close>


definition sample_free :: block where
  "sample_free = free_request 4096 12288"

definition sample_request :: block where
  "sample_request = block_physical 8192 4096 3 2 7 RESERVED ''heap''"

section \<open>Widths\<close>



section \<open>A catalogue to apply the properties to\<close>

lemma boot_catalogue: "catalogue ((table_reset TABLE_EMPTY)\<lparr>initialized := True\<rparr>)"
  by (rule Init [of "[]" TABLE_EMPTY True]) (simp add: blocks_init_def)

lemma sample_valid: "validate sample_free = Inr ()"
  by (simp add: sample_free_def free_request_valid)

lemma sample_catalogue:
  "\<exists>T s. catalogue T \<and> s < MAX_BLOCKS \<and> entries T = (\<lambda>_. BLOCK_EMPTY)(s := block_entry sample_free 1) \<and> bt_next_id T = 2
     \<and> phys_view (entries T) = paint 4096 12288 (Some free_attr) (\<lambda>_. None)"
proof -
  let ?T = "(table_reset TABLE_EMPTY)\<lparr>initialized := True\<rparr>"
  have inv: "cat_inv ?T" using reset_ok by (simp add: cat_inv_initialized)
  have e: "entries ?T = (\<lambda>_. BLOCK_EMPTY)" "bt_next_id ?T = 1" by (simp_all add: table_reset_def)
  have view: "phys_view (entries ?T) = (\<lambda>_. None)" using reset_view [of TABLE_EMPTY] by (simp add: fun_eq_iff)
  have "reusable_entry (entries ?T 0)" using e by (simp add: reusable_entry_def BLOCK_EMPTY_def)
  moreover have "(0::nat) < MAX_BLOCKS" by (simp add: MAX_BLOCKS_def)
  ultimately have ans: "register_answer sample_free ?T = Inr 1"
    using view e(2) sample_valid unfolding register_answer_def by (auto simp: phys_clash_def virt_clash_def sample_free_def part_request_virt)
  obtain r T' where r: "block_register sample_free ?T = Some (r, T')" "case r of Inl _ \<Rightarrow> soft ?T T' | Inr ident \<Rightarrow> registered sample_free ?T ident T'"
    using block_register_ok [OF inv] by blast
  obtain T2 where T2: "block_register sample_free ?T = Some (Inr 1, T2)"
     "phys_view (entries T2) = paint 4096 12288 (Some free_attr) (phys_view (entries ?T))"
    using block_register_exact [OF inv, of sample_free] ans by (auto simp: sample_free_def free_request_facts)
  have same: "T2 = T'" "r = Inr 1" using r(1) T2(1) by auto
  have reg: "registered sample_free ?T 1 T'" using r(2) same(2) by simp
  have "catalogue T'"
    by (rule Register [OF boot_catalogue, of sample_free "(0, Some 1)"])
      (use r(1) same(2) in \<open>simp add: blocks_register_def with_table_cases output_id_def result_code_def\<close>)
  moreover obtain s where "s < MAX_BLOCKS" "entries T' = (\<lambda>_. BLOCK_EMPTY)(s := block_entry sample_free 1)" "bt_next_id T' = 2"
    using reg e unfolding registered_def by auto
  moreover have "phys_view (entries T') = paint 4096 12288 (Some free_attr) (\<lambda>_. None)" using T2(2) same(1) view by simp
  ultimately show ?thesis by blast
qed

lemma sample_request_facts:
  "b_phys_base sample_request = 8192" "b_phys_len sample_request = 4096" "b_virt_len sample_request = 0" "b_virt_base sample_request = 0"
  "b_kind sample_request = 3" "b_owner sample_request = 2" "b_owner_id sample_request = 7" "b_name sample_request = ''heap''"
  by (simp_all add: sample_request_def block_physical_def REQUEST_def BLOCK_EMPTY_def)

lemma sample_claim:
  "\<exists>T ident T'. catalogue T \<and> phys_view (entries T) = paint 4096 12288 (Some free_attr) (\<lambda>_. None) \<and> 6 \<le> free_slots (entries T) \<and> sane (entries T)
     \<and> bt_next_id T = 2 \<and> bytes_fit (entries T) 4096 \<and> (\<exists>i. holds_range (entries T) True 8192 12288 i)
     \<and> block_claim sample_request T = Some (Inr ident, T')"
proof -
  obtain T s where T: "catalogue T" "s < MAX_BLOCKS" "entries T = (\<lambda>_. BLOCK_EMPTY)(s := block_entry sample_free 1)" "bt_next_id T = 2"
     "phys_view (entries T) = paint 4096 12288 (Some free_attr) (\<lambda>_. None)" using sample_catalogue by blast
  let ?b = "block_entry sample_free 1"
  have b: "b_phys_base ?b = 4096" "b_phys_len ?b = 12288" "b_virt_len ?b = 0" "b_reserved ?b = 0" "b_committed ?b = 0" "canonical_free ?b" "physical_index ?b"
    "\<not> reusable_entry ?b"
    by (simp_all add: sample_free_def block_entry_def free_request_def block_physical_def REQUEST_def BLOCK_EMPTY_def canonical_free_def
        block_active_def physical_index_def reusable_entry_def FREE_def RELEASED_def)
  have empty: "reusable_entry BLOCK_EMPTY" by (simp add: reusable_entry_def BLOCK_EMPTY_def)
  have ps: "phys_slot (entries T) i \<longleftrightarrow> i = s" for i using T(2,3) b(7) physical_empty(1) by (auto simp: phys_slot_def)
  have "free_slots (\<lambda>_. BLOCK_EMPTY) = MAX_BLOCKS" using empty by (simp add: free_slots_def)
  then have fs: "6 \<le> free_slots (entries T)" using free_slots_write [OF T(2), of "\<lambda>_. BLOCK_EMPTY" ?b] empty b(8) T(3) by (simp add: MAX_BLOCKS_def)
  have bf: "bytes_fit (entries T) 4096" using ps b(4,5) T(3) by (simp add: bytes_fit_def)
  have sn: "sane (entries T)" using ps b(4,5) T(3) by (simp add: sane_def)
  have h: "holds_range (entries T) True 8192 (8192 + 4096) s" using ps b T(3) by (simp add: holds_range_def usable_def block_end_def)
  have "\<exists>ident T'. block_claim sample_request T = Some (Inr ident, T')"
    using block_claim_live [OF catalogue_inv [OF T(1)] h, of sample_request 0] sample_request_facts fs bf T(4) by auto
  moreover have "\<exists>i. holds_range (entries T) True 8192 12288 i" using h by auto
  ultimately show ?thesis using T fs sn bf by blast
qed

section \<open>Properties\<close>

text \<open>
  C3. In every catalogue that boot and any sequence of the exported operations produce, the kernel's own
  self-check succeeds; the physical ranges of two different live blocks are disjoint, and so are their
  virtual ranges; two slots in use never carry the same identity.
\<close>

theorem catalogue_sound:
  assumes "catalogue T"
  shows "blocks_invariant T = Some True \<and> (\<forall>i < MAX_BLOCKS. \<forall>j < MAX_BLOCKS. i \<noteq> j \<longrightarrow>
       (physical_index (entries T i) \<and> physical_index (entries T j) \<longrightarrow>
          b_phys_base (entries T i) + b_phys_len (entries T i) \<le> b_phys_base (entries T j)
          \<or> b_phys_base (entries T j) + b_phys_len (entries T j) \<le> b_phys_base (entries T i))
     \<and> (block_active (entries T i) \<and> b_virt_len (entries T i) \<noteq> 0 \<and> block_active (entries T j) \<and> b_virt_len (entries T j) \<noteq> 0 \<longrightarrow>
          b_virt_base (entries T i) + b_virt_len (entries T i) \<le> b_virt_base (entries T j)
          \<or> b_virt_base (entries T j) + b_virt_len (entries T j) \<le> b_virt_base (entries T i))
     \<and> (b_slot_used (entries T i) \<and> b_slot_used (entries T j) \<longrightarrow> b_id (entries T i) \<noteq> b_id (entries T j)))"
proof -
  note inv = catalogue_inv [OF assms]
  have c: "idx_inv T" "disjoint_blocks (entries T)" "virt_inv (entries T)" using inv by (auto simp: cat_inv_def)
  have "blocks_invariant T = Some True" using block_invariant_ok [OF inv] catalogue_initialized [OF assms] by (simp add: blocks_invariant_def)
  moreover have "\<forall>i < MAX_BLOCKS. \<forall>j < MAX_BLOCKS. i \<noteq> j \<and> physical_index (entries T i) \<and> physical_index (entries T j) \<longrightarrow>
     b_phys_base (entries T i) + b_phys_len (entries T i) \<le> b_phys_base (entries T j)
     \<or> b_phys_base (entries T j) + b_phys_len (entries T j) \<le> b_phys_base (entries T i)"
    using c(2) unfolding disjoint_blocks_def apart_def block_end_def .
  ultimately show ?thesis using c(3) idx_inv_unique [OF c(1)]
    unfolding virt_inv_def virt_slot_def virt_apart_def unique_ids_def by blast
qed

theorem catalogue_sound_witness:
  "\<exists>T. catalogue T \<and> phys_view (entries T) 4096 = Some free_attr \<and> blocks_invariant T = Some True"
proof -
  obtain T where "catalogue T" "phys_view (entries T) = paint 4096 12288 (Some free_attr) (\<lambda>_. None)" using sample_catalogue by blast
  then show ?thesis using catalogue_sound [of T] by (auto simp: paint_def)
qed



text \<open>
  C4. A claim returns. It succeeds only on memory that is catalogued free, every address of the range,
  and then exactly the range takes the attributes of the request, committed; the rest of the free block
  stays free. When it is refused, for whatever reason and however many parts had been placed by then,
  every entry and the next identity are as before.
\<close>

theorem claim_exact:
  assumes "catalogue T"
  shows "\<exists>r T'. blocks_claim request T = Some (r, T') \<and> (case r of
       Inl _ \<Rightarrow> entries T' = entries T \<and> bt_next_id T' = bt_next_id T
     | Inr _ \<Rightarrow> (\<forall>a. b_phys_base request \<le> a \<and> a < b_phys_base request + b_phys_len request \<longrightarrow> phys_view (entries T) a = Some free_attr)
         \<and> phys_view (entries T') = paint (b_phys_base request) (b_phys_len request)
             (Some (b_kind request, b_owner request, b_owner_id request, COMMITTED, b_name request)) (phys_view (entries T)))"
proof -
  note inv = catalogue_inv [OF assms]
  let ?base = "b_phys_base request" and ?len = "b_phys_len request"
  obtain r T' where r: "block_claim request T = Some (r, T')" "case r of Inl _ \<Rightarrow> restored T T'
     | Inr _ \<Rightarrow> (\<exists>i. holds_range (entries T) True ?base (?base + ?len) i)
         \<and> phys_view (entries T') = paint ?base ?len (Some (claimed request)) (phys_view (entries T))"
    using claim_range_ok [OF inv, of request] unfolding range_result_def Let_def by blast
  have run: "blocks_claim request T = Some (r, T')"
    using r(1) catalogue_initialized [OF assms] by (simp add: blocks_claim_def with_table_cases)
  have free: "phys_view (entries T) a = Some free_attr" if "holds_range (entries T) True ?base (?base + ?len) i" "?base \<le> a \<and> a < ?base + ?len" for i a
    using view_at [OF inv, of i a] that canonical_attr [of "entries T i"] by (auto simp: holds_range_def usable_def covers_addr_def)
  show ?thesis using run r(2) free by (cases r) (auto simp: restored_def claimed_def)
qed

theorem claim_exact_witness:
  "\<exists>T ident T'. catalogue T \<and> phys_view (entries T) 8192 = Some free_attr \<and> blocks_claim sample_request T = Some (Inr ident, T')
     \<and> phys_view (entries T') 8192 = Some (3, 2, 7, COMMITTED, ''heap'') \<and> phys_view (entries T') 4096 = Some free_attr"
proof -
  obtain T ident T' where T: "catalogue T" "phys_view (entries T) = paint 4096 12288 (Some free_attr) (\<lambda>_. None)"
     "block_claim sample_request T = Some (Inr ident, T')" using sample_claim by blast
  have run: "blocks_claim sample_request T = Some (Inr ident, T')"
    using T(3) catalogue_initialized [OF T(1)] by (simp add: blocks_claim_def with_table_cases)
  then have "phys_view (entries T') = paint 8192 4096 (Some (3, 2, 7, COMMITTED, ''heap'')) (phys_view (entries T))"
    using claim_exact [OF T(1), of sample_request] by (simp add: sample_request_facts)
  then show ?thesis using T(1,2) run by (auto simp: paint_def)
qed



text \<open>
  C8. Registration answers exactly: an ill-formed request, an overlap with a live physical or virtual
  range, a full table and exhausted identities are refused in this order, changing no entry; otherwise
  the request gets the next identity and exactly its physical range takes its attributes.
\<close>

theorem register_exact:
  assumes "catalogue T"
  shows "\<exists>T'. blocks_register request T = Some ((result_code (register_answer request T),
         case register_answer request T of Inl _ \<Rightarrow> None | Inr ident \<Rightarrow> Some ident), T')
     \<and> (case register_answer request T of
          Inl _ \<Rightarrow> entries T' = entries T \<and> bt_next_id T' = bt_next_id T
        | Inr _ \<Rightarrow> phys_view (entries T') = paint (b_phys_base request) (b_phys_len request) (shade request) (phys_view (entries T)))"
  using block_register_exact [OF catalogue_inv [OF assms], of request] catalogue_initialized [OF assms]
  by (auto simp: blocks_register_def with_table_cases output_id_def)

theorem register_exact_witness:
  "\<exists>T T'. catalogue T \<and> blocks_register sample_request T = Some ((error_code Overlap, None), T') \<and> entries T' = entries T"
proof -
  obtain T where T: "catalogue T" "phys_view (entries T) = paint 4096 12288 (Some free_attr) (\<lambda>_. None)" using sample_catalogue by blast
  have "phys_clash (entries T) sample_request" unfolding phys_clash_def T(2) by (intro exI [of _ 8192]) (simp add: sample_request_facts paint_def)
  moreover have "validate sample_request = Inr ()"
    by (simp add: validate_OK sample_request_facts) (simp add: sample_request_def block_physical_def REQUEST_def BLOCK_EMPTY_def)
  ultimately have "register_answer sample_request T = Inl Overlap" by (simp add: register_answer_def)
  then show ?thesis using register_exact [OF T(1), of sample_request] T(1) by (auto simp: result_code_def)
qed









end
