(* ===== verification/Spec2Isabelle.thy ===== *)
theory Spec2Isabelle
  imports Phys_Init Vm_Ledger Vm_Identity Virt_Policy Block_Props
begin

text \<open>
  Memory management of the R4OS kernel (\<open>src/Rust/memory\<close>, \<open>src/Rust/platform\<close>, \<open>src/Rust/boot\<close>).

  \<^bold>\<open>The parts and how they interact.\<close> At boot the bootloader's memory map is normalised
  (\<open>boot/info.rs\<close>, \<open>memory/map.rs\<close>). From it the block catalogue (\<open>memory/blocks.rs\<close>) gets one block for
  every entry, and the frame allocator (\<open>memory/phys.rs\<close>) its bitmap, whose own pages it claims in the
  catalogue. Frames are then allocated near the running CPU by the NUMA topology
  (\<open>platform/numa.rs\<close>, \<open>platform/numa_decode.rs\<close>). Virtual memory keeps up to 1024 ranges, found by
  address and by identity (\<open>memory/vm_index.rs\<close>), placed in fixed windows (\<open>memory/virt_policy.rs\<close>,
  \<open>memory/layout.rs\<close>) and accounted for the machine and for every process (\<open>memory/vm_budget.rs\<close>).
  Small policies decide on page batches, heap growth and the order of owners (\<open>memory/page_batch.rs\<close>,
  \<open>memory/heap_policy.rs\<close>, \<open>memory/owner_policy.rs\<close>).

  \<^bold>\<open>Conventions.\<close> A call returns \<open>'a outcome\<close>, an option: \<open>None\<close> is a panic (an index out of bounds, a
  failed assertion, an arithmetic overflow, \<open>unwrap\<close> of nothing) or, for a \<open>partial_function\<close>, a run
  that does not end. Results and error codes are values inside. Unsigned integers are natural numbers
  with the width written out in each operation (\<open>add64\<close> panics, \<open>checked_add64\<close> answers \<open>None\<close>,
  \<open>wrapping_add64\<close> wraps); bit sets are 64-bit words. Fixed arrays are functions read and written
  through \<open>index_get\<close> and \<open>index_set\<close>, which panic out of range. State is passed explicitly as a
  record. Locks, atomics and the raw pointers of the exported wrappers are not modelled: an operation
  is the body that runs under its lock.

  \<^bold>\<open>Theories.\<close>

  \<^item> \<open>Kernel_Prelude\<close>: machine integers, arrays, bit and search lemmas, the collection \<open>machine\<close>.
  \<^item> \<open>Numa\<close>: the sealed topology and its queries.
  \<^item> \<open>Page_Policy\<close>: page batches and leaf translation, heap growth, owner order, with their bounds.
  \<^item> \<open>Phys_Frames\<close>: every operation of the frame allocator. \<open>Phys_Scan\<close>: the word and byte scans
    against a reference search. \<open>Phys_Alloc\<close>: the locale \<open>frame_pool\<close>, its interpretation, and the
    correctness of allocation and release; ownership of frames over all runs.
  \<^item> \<open>Memory_Map\<close>: normalisation, totals and the device-extent check. \<open>Phys_Init\<close>: the start of the
    frame allocator from a normalised map and the direct-map conversions.
  \<^item> \<open>Probe_Ring\<close>: open addressing on a ring, shared by three tables: reachability of keys, backward
    shift deletion, deletion by inserting a cluster again; the locales \<open>probe_ring\<close> and \<open>bounded_map\<close>.
  \<^item> \<open>Vm_Budget\<close>, \<open>Vm_Ledger\<close>: the budget ledger and its refinement of sums over live ranges.
  \<^item> \<open>Vm_Index\<close>, \<open>Vm_Address\<close>, \<open>Vm_Identity\<close>: the range indices; the address order is exact, the
    identity table with tombstones is a finite map.
  \<^item> \<open>Virt_Policy\<close>: the window table and first-fit placement.
  \<^item> \<open>Block_Data\<close>, \<open>Block_Tree\<close>, \<open>Block_Ids\<close>, \<open>Block_Catalogue\<close>, \<open>Block_Release\<close>: all of
    \<open>memory/blocks.rs\<close> but its lock and the diagnostic copy of names: data, AVL index, identity index and slot bitmap, operations, release plans,
    self-check and entry points.
  \<^item> \<open>Block_Avl\<close>, \<open>Block_Index\<close>: correctness of the three indices of the catalogue.
  \<^item> \<open>Block_Inv\<close>: the invariant of the catalogue (the indices agree with the entries, ranges are
    disjoint, identities fresh). \<open>Block_Space\<close>: the abstract view, which gives every physical address
    the attributes of the block that covers it, and registration as painting a range of it.
    \<open>Block_Merge\<close>, \<open>Block_Coalesce\<close>: growing and joining blocks leaves the view unchanged or paints
    the request. \<open>Block_Journal\<close>: the undo journal restores what it remembered. \<open>Block_Claim\<close>:
    claims and retags split a block, or restore the table. \<open>Block_Plan\<close>: release plans, from their
    preparation to their execution. \<open>Block_Reach\<close>: updates, the self-check, and the inductive set
    \<open>catalogue\<close> of the tables that boot and the entry points reach. \<open>Block_Live\<close>: claims and
    releases that must succeed. \<open>Block_Props\<close>: the properties of the catalogue.

  \<^bold>\<open>Bounds.\<close> The AVL recursions and the rehash loop have no bound in the code and are partial
  functions; they are shown to end on every table that satisfies the index invariants: a tree of at
  most 8192 slots has height at most 27, and a removal ends at the next empty cell. The loops over
  fixed arrays have the array's size as their bound. No fuel is used elsewhere.

  \<^bold>\<open>Not modelled.\<close> Locks and interrupts, page-table instructions and port I/O, device drivers, and the
  parts of the kernel outside memory management.
\<close>

end
